(* ===== verification/Prelude.thy ===== *)
theory Prelude
  imports Main "HOL-Library.AList" "HOL-Library.Char_ord" "HOL-Library.Multiset" "HOL-Library.Signed_Division"
begin

text \<open>
  The vocabulary shared by all components: Rust's fixed-width checked and saturating
  integer arithmetic, the result type with early return (the question-mark operator),
  the iteration order of a hash map, and the generic list facts (one element per key,
  quorum intersection) the component theories build on.

  Signed 64-bit integers are integers with the range written out, unsigned ones are
  natural numbers with the range written out: every operation that can leave the range
  is a checked one here, so that a failure is a value.
\<close>

named_theorems rust_arith \<open>definitions of the checked and saturating operations\<close>
named_theorems uniq_simps \<open>facts on lists with one element per key\<close>

section \<open>Machine integers\<close>

definition i64_min :: int where "i64_min = - (2 ^ 63)"
definition i64_max :: int where "i64_max = 2 ^ 63 - 1"
definition u64_max :: nat where "u64_max = 2 ^ 64 - 1"

definition in_i64 :: "int \<Rightarrow> bool" where
  "in_i64 x \<longleftrightarrow> i64_min \<le> x \<and> x \<le> i64_max"

definition checked_add_i64 :: "int \<Rightarrow> int \<Rightarrow> int option" where
  "checked_add_i64 a b = (if in_i64 (a + b) then Some (a + b) else None)"

definition checked_sub_i64 :: "int \<Rightarrow> int \<Rightarrow> int option" where
  "checked_sub_i64 a b = (if in_i64 (a - b) then Some (a - b) else None)"

definition checked_mul_i64 :: "int \<Rightarrow> int \<Rightarrow> int option" where
  "checked_mul_i64 a b = (if in_i64 (a * b) then Some (a * b) else None)"

text \<open>Rust's division truncates towards zero; a zero divisor and the one overflowing
  quotient (the minimum divided by minus one) are reported.\<close>

definition checked_div_i64 :: "int \<Rightarrow> int \<Rightarrow> int option" where
  "checked_div_i64 a b = (if b \<noteq> 0 \<and> in_i64 (a sdiv b) then Some (a sdiv b) else None)"

definition i64_try_from_u64 :: "nat \<Rightarrow> int option" where
  "i64_try_from_u64 n = (if in_i64 (int n) then Some (int n) else None)"

definition clamp_i64 :: "int \<Rightarrow> int" where
  "clamp_i64 x = max i64_min (min i64_max x)"

definition saturating_add_i64 :: "int \<Rightarrow> int \<Rightarrow> int" where
  "saturating_add_i64 a b = clamp_i64 (a + b)"

definition saturating_sub_i64 :: "int \<Rightarrow> int \<Rightarrow> int" where
  "saturating_sub_i64 a b = clamp_i64 (a - b)"

definition saturating_mul_i64 :: "int \<Rightarrow> int \<Rightarrow> int" where
  "saturating_mul_i64 a b = clamp_i64 (a * b)"

definition saturating_add_u64 :: "nat \<Rightarrow> nat \<Rightarrow> nat" where
  "saturating_add_u64 a b = min u64_max (a + b)"

lemmas [rust_arith] =
  i64_min_def i64_max_def u64_max_def in_i64_def checked_add_i64_def checked_sub_i64_def
  checked_mul_i64_def checked_div_i64_def i64_try_from_u64_def clamp_i64_def
  saturating_add_i64_def saturating_sub_i64_def saturating_mul_i64_def saturating_add_u64_def

lemma checked_add_i64_Some [simp]:
  "checked_add_i64 a b = Some c \<longleftrightarrow> c = a + b \<and> in_i64 (a + b)"
  by (auto simp: checked_add_i64_def)

lemma checked_sub_i64_Some [simp]:
  "checked_sub_i64 a b = Some c \<longleftrightarrow> c = a - b \<and> in_i64 (a - b)"
  by (auto simp: checked_sub_i64_def)

lemma checked_mul_i64_Some [simp]:
  "checked_mul_i64 a b = Some c \<longleftrightarrow> c = a * b \<and> in_i64 (a * b)"
  by (auto simp: checked_mul_i64_def)

lemma clamp_i64_id: "in_i64 x \<Longrightarrow> clamp_i64 x = x"
  by (simp add: rust_arith)

lemma in_i64_clamp [simp]: "in_i64 (clamp_i64 x)"
  by (simp add: rust_arith)

lemma sdiv_pos_eq_div: "0 \<le> a \<Longrightarrow> 0 < b \<Longrightarrow> (a :: int) sdiv b = a div b"
  by (simp add: signed_divide_int_def sgn_if)

lemma checked_div_i64_pos:
  assumes "in_i64 a" "0 \<le> a" "0 < b"
  shows "checked_div_i64 a b = Some (a div b)"
proof -
  have "0 \<le> a div b" "a div b \<le> a"
    using assms(2,3) zdiv_mono2 [of a 1 b] by (simp_all add: pos_imp_zdiv_nonneg_iff)
  then show ?thesis
    using assms by (simp add: checked_div_i64_def sdiv_pos_eq_div in_i64_def i64_min_def)
qed

section \<open>Results with early return\<close>

definition res_bind :: "'e + 'a \<Rightarrow> ('a \<Rightarrow> 'e + 'b) \<Rightarrow> 'e + 'b" where
  "res_bind m f = (case m of Inl e \<Rightarrow> Inl e | Inr x \<Rightarrow> f x)"

definition ok_or :: "'e \<Rightarrow> 'a option \<Rightarrow> 'e + 'a" where
  "ok_or e m = (case m of None \<Rightarrow> Inl e | Some x \<Rightarrow> Inr x)"

lemma res_bind_simps [simp]:
  "res_bind (Inl e) f = Inl e"
  "res_bind (Inr x) f = f x"
  by (simp_all add: res_bind_def)

lemma res_bind_Inr [simp]:
  "res_bind m f = Inr y \<longleftrightarrow> (\<exists>x. m = Inr x \<and> f x = Inr y)"
  by (cases m) simp_all

lemma ok_or_simps [simp]:
  "ok_or e None = Inl e"
  "ok_or e (Some x) = Inr x"
  by (simp_all add: ok_or_def)

lemma ok_or_Inr [simp]: "ok_or e m = Inr x \<longleftrightarrow> m = Some x"
  by (cases m) simp_all

text \<open>A loop that runs a fallible body over a list and stops at the first error.\<close>

fun res_fold :: "('a \<Rightarrow> 's \<Rightarrow> 'e + 's) \<Rightarrow> 'a list \<Rightarrow> 's \<Rightarrow> 'e + 's" where
  "res_fold f [] s = Inr s"
| "res_fold f (x # xs) s = res_bind (f x s) (res_fold f xs)"

lemma res_fold_invariant:
  assumes "res_fold f xs s = Inr t" and "P s"
    and "\<And>x s t. x \<in> set xs \<Longrightarrow> P s \<Longrightarrow> f x s = Inr t \<Longrightarrow> P t"
  shows "P t"
  using assms
proof (induction xs arbitrary: s)
  case Nil
  then show ?case by simp
next
  case (Cons x xs)
  from Cons.prems(1) obtain u where u: "f x s = Inr u" "res_fold f xs u = Inr t" by auto
  from Cons.prems(2,3) u(1) have "P u" by (meson list.set_intros(1))
  with Cons.IH [OF u(2)] Cons.prems(3) show ?case by (meson list.set_intros(2))
qed

lemma res_fold_append:
  "res_fold f (xs @ ys) s = res_bind (res_fold f xs s) (res_fold f ys)"
proof (induction xs arbitrary: s)
  case Nil
  then show ?case by (simp add: res_bind_def)
next
  case (Cons x xs)
  then show ?case by (cases "f x s") simp_all
qed

text \<open>Collecting an iterator of results stops at the first error.\<close>

fun res_map :: "('a \<Rightarrow> 'e + 'b) \<Rightarrow> 'a list \<Rightarrow> 'e + 'b list" where
  "res_map f [] = Inr []"
| "res_map f (x # xs) = res_bind (f x) (\<lambda>y. res_bind (res_map f xs) (\<lambda>ys. Inr (y # ys)))"

lemma res_map_Inr: "res_map f xs = Inr ys \<longleftrightarrow> list_all2 (\<lambda>x y. f x = Inr y) xs ys"
  by (induction xs arbitrary: ys) (auto simp: list_all2_Cons1)

text \<open>Fallible operations on a state: an error stops the sequence, and what was changed before
  it stays changed.\<close>

definition op_then :: "('s \<Rightarrow> ('e + unit) \<times> 's) \<Rightarrow> ('s \<Rightarrow> ('e + unit) \<times> 's) \<Rightarrow> 's \<Rightarrow> ('e + unit) \<times> 's" where
  "op_then f g s = (case f s of (Inl e, s') \<Rightarrow> (Inl e, s') | (Inr u, s') \<Rightarrow> g s')"

fun op_loop :: "('a \<Rightarrow> 's \<Rightarrow> ('e + unit) \<times> 's) \<Rightarrow> 'a list \<Rightarrow> 's \<Rightarrow> ('e + unit) \<times> 's" where
  "op_loop f [] s = (Inr (), s)"
| "op_loop f (x # xs) s = op_then (f x) (op_loop f xs) s"

lemma op_then_inv:
  "P s \<Longrightarrow> (\<And>s. P s \<Longrightarrow> P (snd (f s))) \<Longrightarrow> (\<And>s. P s \<Longrightarrow> P (snd (g s))) \<Longrightarrow> P (snd (op_then f g s))"
  by (auto simp: op_then_def split: prod.splits sum.splits) (metis snd_conv)+

lemma op_loop_inv: "P s \<Longrightarrow> (\<And>x s. P s \<Longrightarrow> P (snd (f x s))) \<Longrightarrow> P (snd (op_loop f xs s))"
  by (induction xs arbitrary: s) (simp_all add: op_then_inv)

lemma op_then_Inr: "op_then f g s = (Inr u, s'') \<longleftrightarrow> (\<exists>s'. f s = (Inr (), s') \<and> g s' = (Inr u, s''))"
  by (auto simp: op_then_def split: prod.splits sum.splits)

text \<open>What one element of a successful loop establishes, the rest of the loop keeps.\<close>

lemma op_loop_establishes:
  assumes "op_loop f xs s = (Inr u, s')" "x \<in> set xs"
    and "\<And>s s'. f x s = (Inr (), s') \<Longrightarrow> Q s'" "\<And>y s. Q s \<Longrightarrow> Q (snd (f y s))"
  shows "Q s'"
  using assms(1,2)
proof (induction xs arbitrary: s)
  case (Cons y ys)
  then obtain s1 where s1: "f y s = (Inr (), s1)" "op_loop f ys s1 = (Inr u, s')" by (auto simp: op_then_Inr)
  show ?case
  proof (cases "x \<in> set ys")
    case True
    then show ?thesis using Cons.IH [OF s1(2)] by blast
  next
    case False
    then have "Q s1" using Cons.prems(2) s1(1) assms(3) by auto
    then show ?thesis using op_loop_inv [of Q s1 f ys] assms(4) s1(2) by simp
  qed
qed simp

text \<open>Loops whose body does not fail.\<close>

lemma res_fold_total: "(\<And>x s. x \<in> set xs \<Longrightarrow> f x s = Inr (g x s)) \<Longrightarrow> res_fold f xs s = Inr (fold g xs s)"
  by (induction xs arbitrary: s) simp_all

lemma res_map_map: "res_map f (map g xs) = res_map (\<lambda>x. f (g x)) xs"
  by (induction xs) simp_all

lemma res_map_total: "(\<And>x. x \<in> set xs \<Longrightarrow> f x = Inr (g x)) \<Longrightarrow> res_map f xs = Inr (map g xs)"
  by (induction xs) simp_all

section \<open>Hash-map iteration order\<close>

text \<open>
  A hash map is an association list with distinct keys. The order in which its entries
  are visited is not specified by the language, so every definition that iterates takes
  the order as an argument: for a site of the code and a number of entries, the list of
  positions in visiting order. An argument that is not a permutation of the positions
  visits the entries in list order, so that \<open>hash_iter\<close> is a reordering in every case.
\<close>

type_synonym hash_order = "nat \<Rightarrow> nat \<Rightarrow> nat list"

definition hash_iter :: "(nat \<Rightarrow> nat list) \<Rightarrow> 'a list \<Rightarrow> 'a list" where
  "hash_iter ord xs =
     (let js = ord (length xs)
      in if sort js = [0..<length xs] then map (\<lambda>j. xs ! j) js else xs)"

definition in_order :: hash_order where
  "in_order site n = [0..<n]"

lemma mset_hash_iter [simp]: "mset (hash_iter ord xs) = mset xs"
proof (cases "sort (ord (length xs)) = [0..<length xs]")
  case True
  then have "mset (ord (length xs)) = mset [0..<length xs]"
    by (metis mset_sort)
  then have "image_mset ((!) xs) (mset (ord (length xs))) = image_mset ((!) xs) (mset [0..<length xs])"
    by simp
  also have "\<dots> = mset (map ((!) xs) [0..<length xs])" by (simp only: mset_map)
  also have "\<dots> = mset xs" by (simp only: map_nth)
  finally show ?thesis using True by (simp add: hash_iter_def)
next
  case False
  then show ?thesis by (simp add: hash_iter_def Let_def)
qed

lemma set_hash_iter [simp]: "set (hash_iter ord xs) = set xs"
  by (metis mset_hash_iter set_mset_mset)

lemma length_hash_iter [simp]: "length (hash_iter ord xs) = length xs"
  by (metis mset_hash_iter size_mset)

lemma distinct_map_hash_iter [simp]:
  "distinct (map f (hash_iter ord xs)) \<longleftrightarrow> distinct (map f xs)"
proof -
  have "mset (map f (hash_iter ord xs)) = mset (map f xs)" by simp
  then show ?thesis by (rule mset_eq_imp_distinct_iff)
qed

lemma hash_iter_Nil_iff [simp]: "hash_iter ord xs = [] \<longleftrightarrow> xs = []"
  by (metis length_0_conv length_hash_iter)

lemma mset_map_hash_iter: "mset (map f (hash_iter ord xs)) = mset (map f xs)"
  by simp

lemma hash_iter_in_order [simp]: "hash_iter (in_order site) xs = xs"
  by (simp add: hash_iter_def in_order_def map_nth)

text \<open>Sorting by a key that identifies the elements forgets the order of the input.\<close>

lemma find_Some_mem: "find P xs = Some x \<Longrightarrow> x \<in> set xs \<and> P x"
  by (auto simp: find_Some_iff)

lemma sort_key_unique:
  assumes "mset xs = mset ys" "distinct (map f xs)"
  shows "sort_key f xs = sort_key f ys"
proof (rule properties_for_sort_key)
  show "mset (sort_key f ys) = mset xs" using assms(1) by simp
  have single: "filter (\<lambda>x. f k = f x) zs = [k]" if "mset zs = mset xs" "k \<in> set zs" for k and zs
  proof -
    have "distinct (map f zs)" using that(1) assms(2) by (metis mset_eq_imp_distinct_iff mset_map)
    then show ?thesis using that(2)
      by (induction zs) (auto simp: filter_empty_conv image_iff)
  qed
  show "filter (\<lambda>x. f k = f x) (sort_key f ys) = filter (\<lambda>x. f k = f x) xs" if "k \<in> set (sort_key f ys)" for k
    using single [of "sort_key f ys" k] single [of xs k] assms(1) that by (metis mset_sort set_mset_mset)
qed simp

section \<open>One element per key\<close>

text \<open>
  The idiom of the code: walk a list, keep the first element of every key. The set of
  keys already seen is the state of the closure.
\<close>

fun uniq_by :: "('a \<Rightarrow> 'k) \<Rightarrow> 'k list \<Rightarrow> 'a list \<Rightarrow> 'a list" where
  "uniq_by key seen [] = []"
| "uniq_by key seen (x # xs) =
     (if key x \<in> set seen then uniq_by key seen xs
      else x # uniq_by key (key x # seen) xs)"

lemma set_uniq_by_subset [uniq_simps]: "set (uniq_by key seen xs) \<subseteq> set xs"
  by (induction key seen xs rule: uniq_by.induct) auto

lemma keys_uniq_by [uniq_simps]: "key ` set (uniq_by key seen xs) = key ` set xs - set seen"
  by (induction key seen xs rule: uniq_by.induct) auto

lemma distinct_uniq_by [uniq_simps]: "distinct (map key (uniq_by key seen xs))"
  by (induction key seen xs rule: uniq_by.induct) (auto simp: keys_uniq_by)

lemma length_uniq_by: "length (uniq_by key [] xs) = card (key ` set xs)"
proof -
  have "length (uniq_by key [] xs) = length (map key (uniq_by key [] xs))" by simp
  also have "\<dots> = card (set (map key (uniq_by key [] xs)))"
    by (simp add: distinct_card distinct_uniq_by del: set_map)
  finally show ?thesis by (simp add: keys_uniq_by)
qed

lemma distinct_length_card_image: "distinct (map f xs) \<Longrightarrow> length xs = card (f ` set xs)"
  by (metis distinct_card length_map set_map)

section \<open>Association lists as hash maps\<close>

abbreviation keys :: "('k \<times> 'v) list \<Rightarrow> 'k list" where
  "keys m \<equiv> map fst m"

text \<open>The entry interface: append a value to the vector stored under a key.\<close>

definition entry_push :: "'k \<Rightarrow> 'v \<Rightarrow> ('k \<times> 'v list) list \<Rightarrow> ('k \<times> 'v list) list" where
  "entry_push k v m =
     AList.update k ((case map_of m k of None \<Rightarrow> [] | Some vs \<Rightarrow> vs) @ [v]) m"

lemma distinct_keys_update [simp]: "distinct (keys m) \<Longrightarrow> distinct (keys (AList.update k v m))"
  by (rule distinct_update)

lemma distinct_keys_entry_push [simp]: "distinct (keys m) \<Longrightarrow> distinct (keys (entry_push k v m))"
  by (simp add: entry_push_def)

lemma map_of_entry_push:
  "map_of (entry_push k v m) =
     (map_of m)(k \<mapsto> (case map_of m k of None \<Rightarrow> [] | Some vs \<Rightarrow> vs) @ [v])"
  by (simp add: entry_push_def update_conv')

lemma set_keys_map_of: "k \<in> set (keys m) \<longleftrightarrow> map_of m k \<noteq> None"
  by (simp add: map_of_eq_None_iff)

lemma update_fresh: "k \<notin> set (keys m) \<Longrightarrow> AList.update k v m = m @ [(k, v)]"
  by (induction m) auto

text \<open>A loop that fills a map with one fallible value per element.\<close>

lemma res_fold_update:
  assumes "list_all2 (\<lambda>x v. g x = Inr v) xs vs" "distinct (map kf xs)" "set (keys out) \<inter> kf ` set xs = {}"
  shows "res_fold (\<lambda>x out. res_bind (g x) (\<lambda>v. Inr (AList.update (kf x) v out))) xs out = Inr (out @ zip (map kf xs) vs)"
  using assms
proof (induction xs vs arbitrary: out rule: list_all2_induct)
  case Nil
  then show ?case by simp
next
  case (Cons x xs v vs)
  have "AList.update (kf x) v out = out @ [(kf x, v)]"
    using Cons.prems(2) by (intro update_fresh) auto
  then show ?case using Cons by simp
qed

lemma res_fold_update_values:
  "res_fold (\<lambda>x out. res_bind (g x) (\<lambda>v. Inr (AList.update (kf x) v out))) xs out = Inr r
     \<Longrightarrow> \<exists>vs. list_all2 (\<lambda>x v. g x = Inr v) xs vs"
  by (induction xs arbitrary: out) (auto simp: list_all2_Cons1)

lemma res_fold_update_error:
  "res_fold (\<lambda>x out. res_bind (g x) (\<lambda>v. Inr (AList.update (kf x) v out))) xs out = Inl e
     \<Longrightarrow> \<exists>x \<in> set xs. g x = Inl e"
  by (induction xs arbitrary: out) (auto simp: res_bind_def split: sum.splits)

text \<open>Grouping a list by a key with the entry interface.\<close>

lemma map_of_groups:
  "map_of (fold (\<lambda>x. entry_push (k x) x) xs m) r =
     (case map_of m r of
        Some g \<Rightarrow> Some (g @ filter (\<lambda>x. k x = r) xs)
      | None \<Rightarrow> if filter (\<lambda>x. k x = r) xs = [] then None else Some (filter (\<lambda>x. k x = r) xs))"
  by (induction xs arbitrary: m) (auto simp: map_of_entry_push split: option.splits)

lemma distinct_groups: "distinct (keys m) \<Longrightarrow> distinct (keys (fold (\<lambda>x. entry_push (k x) x) xs m))"
  by (induction xs arbitrary: m) simp_all

lemma groups_member:
  "(r, g) \<in> set (fold (\<lambda>x. entry_push (k x) x) xs []) \<longleftrightarrow> g = filter (\<lambda>x. k x = r) xs \<and> g \<noteq> []"
proof -
  have "(r, g) \<in> set (fold (\<lambda>x. entry_push (k x) x) xs []) \<longleftrightarrow> map_of (fold (\<lambda>x. entry_push (k x) x) xs []) r = Some g"
    using distinct_groups [of "[]" k xs] by simp
  then show ?thesis by (auto simp: map_of_groups)
qed

lemma set_values_update_subset:
  "distinct (keys m) \<Longrightarrow> (k', vs) \<in> set (AList.update k v m) \<Longrightarrow> (k', vs) = (k, v) \<or> (k', vs) \<in> set m"
  by (metis distinct_keys_update map_of_eq_Some_iff map_of_is_SomeI map_upd_Some_unfold update_conv')

section \<open>Decimal numbers\<close>

text \<open>The standard library's \<open>str::parse::<u64>\<close>: an optional plus sign, at least one decimal
  digit, no other character, and a value of at most 64 bits.\<close>

definition digit_value :: "char \<Rightarrow> nat option" where
  "digit_value c = (if CHR ''0'' \<le> c \<and> c \<le> CHR ''9'' then Some (of_char c - of_char (CHR ''0'')) else None)"

fun parse_digits :: "string \<Rightarrow> nat \<Rightarrow> nat option" where
  "parse_digits [] acc = Some acc"
| "parse_digits (c # cs) acc =
     (case digit_value c of
        None \<Rightarrow> None
      | Some v \<Rightarrow> if 10 * acc + v \<le> u64_max then parse_digits cs (10 * acc + v) else None)"

definition parse_u64 :: "string \<Rightarrow> nat option" where
  "parse_u64 s =
     (let ds = (case s of c # cs \<Rightarrow> if c = CHR ''+'' then cs else s | [] \<Rightarrow> s)
      in if ds = [] then None else parse_digits ds 0)"

lemma parse_digits_bound: "acc \<le> u64_max \<Longrightarrow> parse_digits cs acc = Some n \<Longrightarrow> n \<le> u64_max"
  by (induction cs acc rule: parse_digits.induct) (auto split: option.splits if_splits)

lemma parse_u64_bound: "parse_u64 s = Some n \<Longrightarrow> n \<le> u64_max"
  using parse_digits_bound [of 0 _ n] by (auto simp: parse_u64_def Let_def split: if_splits)

section \<open>Quorum intersection\<close>

text \<open>
  The contract a voting protocol needs of its thresholds: a quorum is a set of processes
  of at least \<open>q\<close> members among \<open>n\<close>, at most \<open>f\<close> processes are faulty, and any two
  quorums overlap in more than \<open>f\<close> processes.
\<close>

locale quorum_system =
  fixes ok :: "'d \<Rightarrow> bool"
    and n q f :: "'d \<Rightarrow> nat"
  assumes overlap: "ok d \<Longrightarrow> n d + f d < 2 * q d"
    and q_available: "ok d \<Longrightarrow> q d + f d \<le> n d"
begin

lemma honest_in_intersection:
  assumes "ok d" "finite P" "card P \<le> n d" "Q \<subseteq> P" "Q' \<subseteq> P"
    and "q d \<le> card Q" "q d \<le> card Q'" "card (B \<inter> P) \<le> f d"
  shows "\<exists>p \<in> Q \<inter> Q'. p \<notin> B"
proof (rule ccontr)
  assume "\<not> ?thesis"
  then have sub: "Q \<inter> Q' \<subseteq> B \<inter> P" using assms(4) by blast
  have fin: "finite Q" "finite Q'" using assms(2,4,5) finite_subset by blast+
  have "card Q + card Q' = card (Q \<union> Q') + card (Q \<inter> Q')"
    using card_Un_Int [OF fin] by simp
  moreover have "card (Q \<union> Q') \<le> n d"
    using assms(2-5) by (meson card_mono le_trans Un_least)
  moreover have "card (Q \<inter> Q') \<le> f d"
    using sub assms(2,8) by (meson card_mono finite_Int le_trans)
  ultimately show False using overlap [OF assms(1)] assms(6,7) by linarith
qed

lemma honest_member:
  assumes "ok d" "finite P" "card P \<le> n d" "Q \<subseteq> P" "q d \<le> card Q" "card (B \<inter> P) \<le> f d"
  shows "\<exists>p \<in> Q. p \<notin> B"
  using honest_in_intersection [OF assms(1-4) assms(4) assms(5) assms(5-6)] by blast

lemma quorum_positive: "ok d \<Longrightarrow> 0 < q d"
  using overlap by fastforce

lemma honest_quorum:
  assumes "ok d" "finite P" "n d \<le> card P" "card (B \<inter> P) \<le> f d"
  shows "q d \<le> card (P - B)"
proof -
  have "card (P - B) = card P - card (B \<inter> P)"
    using assms(2) by (metis Diff_Int2 Diff_subset card_Diff_subset_Int finite_Int inf_commute)
  then show ?thesis using assms(3,4) q_available [OF assms(1)] by linarith
qed

end

end
