(* ===== verification/Qbft_Core.thy ===== *)
theory Qbft_Core
  imports Prelude
begin

text \<open>
  The message layer of the QBFT core (crates/core/src/qbft/mod.rs): message types and
  messages, the consensus definition with its thresholds, the message filters, the
  justification predicates and the classification of a received message into an upon
  rule. A panic of the code is the error value \<open>Panic\<close>.
\<close>

section \<open>Data\<close>

datatype qbft_error =
    TimeoutError
  | CompareError
  | UnexpectedCompareError qbft_error
  | ContextCanceled
  | MaxRoundReached
  | ZeroInputValue
  | ValueNotFound
  | InvalidNodes int
  | InvalidFifoLimit int
  | ChannelError
  | Panic string

text \<open>
  The part of a definition the pure functions read. The callbacks (timers, compare,
  decide, loggers) are effects of the state machine and live in \<open>Qbft_Run\<close>.
\<close>

record 'i qbft_definition =
  is_leader :: "'i \<Rightarrow> int \<Rightarrow> int \<Rightarrow> bool"
  nodes :: int
  fifo_limit :: int

definition quorum :: "int \<Rightarrow> int option" where
  "quorum n =
     Option.bind (checked_mul_i64 n 2) (\<lambda>n. Option.bind (checked_add_i64 n 2) (\<lambda>n. checked_div_i64 n 3))"

definition faulty :: "'i qbft_definition \<Rightarrow> int option" where
  "faulty d = Option.bind (checked_sub_i64 (nodes d) 1) (\<lambda>n. checked_div_i64 n 3)"

text \<open>The two counts panic where the checked arithmetic fails; they are only meaningful
  for a definition with \<open>valid_definition\<close>, where it does not.\<close>

definition quorum_count :: "'i qbft_definition \<Rightarrow> nat" where
  "quorum_count d = nat (the (quorum (nodes d)))"

definition faulty_plus_one_count :: "'i qbft_definition \<Rightarrow> nat" where
  "faulty_plus_one_count d = nat (the (Option.bind (faulty d) (\<lambda>f. checked_add_i64 f 1)))"

definition MSG_UNKNOWN :: int where [simp]: "MSG_UNKNOWN = 0"
definition MSG_PRE_PREPARE :: int where [simp]: "MSG_PRE_PREPARE = 1"
definition MSG_PREPARE :: int where [simp]: "MSG_PREPARE = 2"
definition MSG_COMMIT :: int where [simp]: "MSG_COMMIT = 3"
definition MSG_ROUND_CHANGE :: int where [simp]: "MSG_ROUND_CHANGE = 4"
definition MSG_DECIDED :: int where [simp]: "MSG_DECIDED = 5"
definition MSG_SENTINEL :: int where [simp]: "MSG_SENTINEL = 6"

definition message_type_valid :: "int \<Rightarrow> bool" where
  "message_type_valid t \<longleftrightarrow> t > MSG_UNKNOWN \<and> t < MSG_SENTINEL"

definition message_type_label :: "int \<Rightarrow> string" where
  "message_type_label t =
     (if t = 0 then ''unknown'' else if t = 1 then ''pre_prepare'' else if t = 2 then ''prepare''
      else if t = 3 then ''commit'' else if t = 4 then ''round_change''
      else if t = 5 then ''decided'' else [])"

text \<open>
  A message as the core reads it. The instance and the value source of a message are not
  read by this module (they are handed to callbacks only) and are left out. The null value
  of the code (\<open>Default::default()\<close>) is \<open>0\<close>.
\<close>

datatype 'v msg = Msg
  (m_type: int)
  (m_source: int)
  (m_round: int)
  (m_value: 'v)
  (m_prepared_round: int)
  (m_prepared_value: 'v)
  (m_justification: "'v msg list")

datatype upon_rule =
    UPON_NOTHING
  | UPON_JUSTIFIED_PRE_PREPARE
  | UPON_QUORUM_PREPARES
  | UPON_QUORUM_COMMITS
  | UPON_UNJUST_QUORUM_ROUND_CHANGES
  | UPON_F_PLUS1_ROUND_CHANGES
  | UPON_QUORUM_ROUND_CHANGES
  | UPON_JUSTIFIED_DECIDED
  | UPON_ROUND_TIMEOUT

fun upon_rule_label :: "upon_rule \<Rightarrow> string" where
  "upon_rule_label UPON_NOTHING = ''nothing''"
| "upon_rule_label UPON_JUSTIFIED_PRE_PREPARE = ''justified_pre_prepare''"
| "upon_rule_label UPON_QUORUM_PREPARES = ''quorum_prepares''"
| "upon_rule_label UPON_QUORUM_COMMITS = ''quorum_commits''"
| "upon_rule_label UPON_UNJUST_QUORUM_ROUND_CHANGES = ''unjust_quorum_round_changes''"
| "upon_rule_label UPON_F_PLUS1_ROUND_CHANGES = ''f_plus_1_round_changes''"
| "upon_rule_label UPON_QUORUM_ROUND_CHANGES = ''quorum_round_changes''"
| "upon_rule_label UPON_JUSTIFIED_DECIDED = ''justified_decided''"
| "upon_rule_label UPON_ROUND_TIMEOUT = ''round_timeout''"

type_synonym 'v buffer = "(int \<times> 'v msg list) list"

section \<open>Filters\<close>

definition validate_definition :: "'i qbft_definition \<Rightarrow> qbft_error + unit" where
  "validate_definition d =
     (if nodes d \<le> 0 then Inl (InvalidNodes (nodes d))
      else if fifo_limit d \<le> 0 then Inl (InvalidFifoLimit (fifo_limit d))
      else Inr ())"

definition extract_round_messages :: "hash_order \<Rightarrow> 'v buffer \<Rightarrow> int \<Rightarrow> 'v msg list" where
  "extract_round_messages ord buf r =
     concat (map (\<lambda>(src, msgs). filter (\<lambda>m. m_round m = r) msgs) (hash_iter (ord 0) buf))"

definition flatten :: "hash_order \<Rightarrow> 'v buffer \<Rightarrow> qbft_error + 'v msg list" where
  "flatten ord buf =
     (let msgs = concat (map snd (hash_iter (ord 0) buf))
      in if list_ex (\<lambda>m. list_ex (\<lambda>j. m_justification j \<noteq> []) (m_justification m)) msgs
         then Inl (Panic ''bug: nested justifications'')
         else Inr (concat (map (\<lambda>m. m # m_justification m) msgs)))"

definition uniq_source :: "'v msg list \<Rightarrow> 'v msg list" where
  "uniq_source msgs = uniq_by m_source [] msgs"

definition filter_msgs ::
  "'v msg list \<Rightarrow> int \<Rightarrow> int \<Rightarrow> 'v option \<Rightarrow> int option \<Rightarrow> 'v option \<Rightarrow> 'v msg list" where
  "filter_msgs msgs message_type r value pr pv =
     uniq_source (filter (\<lambda>m. m_type m = message_type \<and> m_round m = r
       \<and> (case value of None \<Rightarrow> True | Some v \<Rightarrow> m_value m = v)
       \<and> (case pv of None \<Rightarrow> True | Some v \<Rightarrow> m_prepared_value m = v)
       \<and> (case pr of None \<Rightarrow> True | Some x \<Rightarrow> m_prepared_round m = x)) msgs)"

definition filter_by_round_and_value :: "'v msg list \<Rightarrow> int \<Rightarrow> int \<Rightarrow> 'v \<Rightarrow> 'v msg list" where
  "filter_by_round_and_value msgs message_type r value =
     filter_msgs msgs message_type r (Some value) None None"

definition filter_round_change :: "'v msg list \<Rightarrow> int \<Rightarrow> 'v msg list" where
  "filter_round_change msgs r = filter_msgs msgs MSG_ROUND_CHANGE r None None None"

definition quorum_null_prepared ::
  "'i qbft_definition \<Rightarrow> ('v :: zero) msg list \<Rightarrow> int \<Rightarrow> 'v msg list \<times> bool" where
  "quorum_null_prepared d all r =
     (let justification = filter_msgs all MSG_ROUND_CHANGE r None (Some 0) (Some 0)
      in (justification, quorum_count d \<le> length justification))"

text \<open>The map from prepared round and value to the last PREPARE of every source.\<close>

fun prepare_sets ::
  "'v msg list \<Rightarrow> ((int \<times> 'v) \<times> (int \<times> 'v msg) list) list \<Rightarrow> ((int \<times> 'v) \<times> (int \<times> 'v msg) list) list" where
  "prepare_sets [] sets = sets"
| "prepare_sets (m # ms) sets =
     (if m_type m \<noteq> MSG_PREPARE then prepare_sets ms sets
      else let key = (m_round m, m_value m);
               old = (case map_of sets key of None \<Rightarrow> [] | Some s \<Rightarrow> s)
           in prepare_sets ms (AList.update key (AList.update (m_source m) m old) sets))"

definition get_prepare_quorums ::
  "'i qbft_definition \<Rightarrow> hash_order \<Rightarrow> 'v msg list \<Rightarrow> 'v msg list list" where
  "get_prepare_quorums d ord all =
     map (\<lambda>(i, (key, msgs)). map snd (hash_iter (ord (3 + i)) msgs))
       (filter (\<lambda>(i, (key, msgs)). quorum_count d \<le> length msgs)
         (enumerate 0 (hash_iter (ord 1) (prepare_sets all []))))"

text \<open>The highest ROUND-CHANGE per source, stopping as soon as enough sources are found.\<close>

fun fplus1_loop ::
  "nat \<Rightarrow> int \<Rightarrow> 'v msg list \<Rightarrow> (int \<times> 'v msg) list \<Rightarrow> (int \<times> 'v msg) list" where
  "fplus1_loop k r [] highest = highest"
| "fplus1_loop k r (m # ms) highest =
     (if m_type m \<noteq> MSG_ROUND_CHANGE then fplus1_loop k r ms highest
      else if m_round m \<le> r then fplus1_loop k r ms highest
      else if (case map_of highest (m_source m) of None \<Rightarrow> False | Some h \<Rightarrow> m_round h > m_round m)
           then fplus1_loop k r ms highest
      else let highest' = AList.update (m_source m) m highest
           in if length highest' = k then highest' else fplus1_loop k r ms highest')"

definition get_fplus1_round_changes ::
  "'i qbft_definition \<Rightarrow> hash_order \<Rightarrow> 'v msg list \<Rightarrow> int \<Rightarrow> 'v msg list option" where
  "get_fplus1_round_changes d ord all r =
     (let highest = fplus1_loop (faulty_plus_one_count d) r all []
      in if length highest < faulty_plus_one_count d then None
         else Some (map snd (hash_iter (ord 2) highest)))"

section \<open>Justifications\<close>

definition valid_round_change_prepared_round :: "'v msg \<Rightarrow> bool" where
  "valid_round_change_prepared_round m \<longleftrightarrow> m_prepared_round m \<ge> 0 \<and> m_prepared_round m < m_round m"

fun single_pr_pv_loop ::
  "'v msg list \<Rightarrow> int list \<Rightarrow> int \<Rightarrow> 'v \<Rightarrow> nat \<Rightarrow> (int \<times> 'v \<times> nat) option" where
  "single_pr_pv_loop [] seen pr pv cnt = Some (pr, pv, cnt)"
| "single_pr_pv_loop (m # ms) seen pr pv cnt =
     (if m_type m \<noteq> MSG_PREPARE then single_pr_pv_loop ms seen pr pv cnt
      else if m_source m \<in> set seen then None
      else if cnt = 0 then single_pr_pv_loop ms (m_source m # seen) (m_round m) (m_value m) (cnt + 1)
      else if pr \<noteq> m_round m \<or> pv \<noteq> m_value m then None
      else single_pr_pv_loop ms (m_source m # seen) pr pv (cnt + 1))"

definition get_single_justified_pr_pv ::
  "'i qbft_definition \<Rightarrow> ('v :: zero) msg list \<Rightarrow> (int \<times> 'v) option" where
  "get_single_justified_pr_pv d msgs =
     (case single_pr_pv_loop msgs [] 0 0 0 of
        None \<Rightarrow> None
      | Some (pr, pv, cnt) \<Rightarrow> if quorum_count d \<le> cnt then Some (pr, pv) else None)"

definition contains_justified_qrc ::
  "'i qbft_definition \<Rightarrow> ('v :: zero) msg list \<Rightarrow> int \<Rightarrow> 'v option" where
  "contains_justified_qrc d justification r =
     (let qrc = filter valid_round_change_prepared_round (filter_round_change justification r)
      in if length qrc < quorum_count d then None
         else if list_all (\<lambda>rc. m_prepared_round rc = 0 \<and> m_prepared_value rc = 0) qrc then Some 0
         else (case get_single_justified_pr_pv d justification of
                 None \<Rightarrow> None
               | Some (pr, pv) \<Rightarrow>
                   if list_ex (\<lambda>rc. m_prepared_round rc > pr) qrc then None
                   else if list_ex (\<lambda>rc. m_prepared_round rc = pr \<and> m_prepared_value rc = pv) qrc
                        then Some pv else None))"

text \<open>The scan of the ROUND-CHANGE messages against one PREPARE quorum. A quorum is never
  empty, since a set is created with its first message.\<close>

definition qrc_for_prepares ::
  "'i qbft_definition \<Rightarrow> 'v msg list \<Rightarrow> 'v msg list \<Rightarrow> 'v msg list option" where
  "qrc_for_prepares d round_changes prepares =
     (case prepares of
        [] \<Rightarrow> None
      | p # _ \<Rightarrow>
          (let qrc = uniq_source (filter (\<lambda>rc. m_prepared_round rc \<le> m_round p) round_changes)
           in if quorum_count d \<le> length qrc
                 \<and> list_ex (\<lambda>rc. m_prepared_round rc = m_round p \<and> m_prepared_value rc = m_value p) qrc
              then Some (qrc @ prepares) else None))"

fun first_some :: "('a \<Rightarrow> 'b option) \<Rightarrow> 'a list \<Rightarrow> 'b option" where
  "first_some f [] = None"
| "first_some f (x # xs) = (case f x of None \<Rightarrow> first_some f xs | Some y \<Rightarrow> Some y)"

definition get_justified_qrc ::
  "'i qbft_definition \<Rightarrow> hash_order \<Rightarrow> ('v :: zero) msg list \<Rightarrow> int \<Rightarrow> 'v msg list option" where
  "get_justified_qrc d ord all r =
     (case quorum_null_prepared d all r of
        (qrc, True) \<Rightarrow> Some qrc
      | (_, False) \<Rightarrow>
          (let round_changes = filter valid_round_change_prepared_round (filter_round_change all r)
           in first_some (qrc_for_prepares d round_changes) (get_prepare_quorums d ord all)))"

definition is_justified_round_change ::
  "'i qbft_definition \<Rightarrow> ('v :: zero) msg \<Rightarrow> qbft_error + bool" where
  "is_justified_round_change d m =
     (if m_type m \<noteq> MSG_ROUND_CHANGE then Inl (Panic ''bug: not a round change message'')
      else let prepares = m_justification m; pr = m_prepared_round m; pv = m_prepared_value m
           in Inr (if \<not> valid_round_change_prepared_round m then False
                   else if prepares = [] then pr = 0 \<and> pv = 0
                   else if length prepares < quorum_count d then False
                   else distinct (map m_source prepares)
                        \<and> list_all (\<lambda>p. m_type p = MSG_PREPARE \<and> m_round p = pr \<and> m_value p = pv) prepares))"

definition is_justified_decided :: "'i qbft_definition \<Rightarrow> 'v msg \<Rightarrow> qbft_error + bool" where
  "is_justified_decided d m =
     (if m_type m \<noteq> MSG_DECIDED then Inl (Panic ''bug: not a decided message'')
      else Inr (quorum_count d
        \<le> length (filter_msgs (m_justification m) MSG_COMMIT (m_round m) (Some (m_value m)) None None)))"

definition is_justified_pre_prepare ::
  "'i qbft_definition \<Rightarrow> 'i \<Rightarrow> ('v :: zero) msg \<Rightarrow> int \<Rightarrow> qbft_error + bool" where
  "is_justified_pre_prepare d inst m compare_failure_round =
     (if m_type m \<noteq> MSG_PRE_PREPARE then Inl (Panic ''bug: not a preprepare message'')
      else if \<not> is_leader d inst (m_round m) (m_source m) then Inr False
      else (case checked_add_i64 compare_failure_round 1 of
              None \<Rightarrow> Inl (Panic ''compare failure round permits increment'')
            | Some next_compare_round \<Rightarrow>
                Inr (if m_round m = 1 \<or> m_round m = next_compare_round then True
                     else (case contains_justified_qrc d (m_justification m) (m_round m) of
                             None \<Rightarrow> False
                           | Some pv \<Rightarrow> pv = 0 \<or> m_value m = pv))))"

definition is_justified ::
  "'i qbft_definition \<Rightarrow> 'i \<Rightarrow> ('v :: zero) msg \<Rightarrow> int \<Rightarrow> qbft_error + bool" where
  "is_justified d inst m compare_failure_round =
     (if m_type m = MSG_PRE_PREPARE then is_justified_pre_prepare d inst m compare_failure_round
      else if m_type m = MSG_PREPARE then Inr True
      else if m_type m = MSG_COMMIT then Inr True
      else if m_type m = MSG_ROUND_CHANGE then is_justified_round_change d m
      else if m_type m = MSG_DECIDED then is_justified_decided d m
      else Inl (Panic ''bug: invalid message type''))"

section \<open>Classification\<close>

definition classify ::
  "'i qbft_definition \<Rightarrow> hash_order \<Rightarrow> 'i \<Rightarrow> int \<Rightarrow> int \<Rightarrow> ('v :: zero) buffer \<Rightarrow> 'v msg
     \<Rightarrow> qbft_error + (upon_rule \<times> 'v msg list option)" where
  "classify d ord inst r process buf m =
     (if m_type m = MSG_DECIDED then Inr (UPON_JUSTIFIED_DECIDED, Some (m_justification m))
      else if m_type m = MSG_PRE_PREPARE then
        Inr (if m_round m < r then UPON_NOTHING else UPON_JUSTIFIED_PRE_PREPARE, None)
      else if m_type m = MSG_PREPARE then
        (if m_round m \<noteq> r then Inr (UPON_NOTHING, None)
         else res_bind (flatten ord buf) (\<lambda>all.
           let prepares = filter_by_round_and_value all MSG_PREPARE (m_round m) (m_value m)
           in Inr (if quorum_count d \<le> length prepares then (UPON_QUORUM_PREPARES, Some prepares)
                   else (UPON_NOTHING, None))))
      else if m_type m = MSG_COMMIT then
        (if m_round m \<noteq> r then Inr (UPON_NOTHING, None)
         else res_bind (flatten ord buf) (\<lambda>all.
           let commits = filter_by_round_and_value all MSG_COMMIT (m_round m) (m_value m)
           in Inr (if quorum_count d \<le> length commits then (UPON_QUORUM_COMMITS, Some commits)
                   else (UPON_NOTHING, None))))
      else if m_type m = MSG_ROUND_CHANGE then
        (if m_round m < r then Inr (UPON_NOTHING, None)
         else res_bind (flatten ord buf) (\<lambda>all.
           Inr (if m_round m > r then
                  (case get_fplus1_round_changes d ord all r of
                     Some frc \<Rightarrow> (UPON_F_PLUS1_ROUND_CHANGES, Some frc)
                   | None \<Rightarrow> (UPON_NOTHING, None))
                else if length (filter_round_change all (m_round m)) < quorum_count d
                  then (UPON_NOTHING, None)
                else (case get_justified_qrc d ord all (m_round m) of
                        None \<Rightarrow> (UPON_UNJUST_QUORUM_ROUND_CHANGES, None)
                      | Some qrc \<Rightarrow>
                          if \<not> is_leader d inst (m_round m) process then (UPON_NOTHING, None)
                          else (UPON_QUORUM_ROUND_CHANGES, Some qrc)))))
      else Inl (Panic ''bug: invalid type''))"

fun min_round_loop :: "int \<Rightarrow> 'v msg list \<Rightarrow> int \<Rightarrow> qbft_error + int" where
  "min_round_loop r [] rmin = Inr rmin"
| "min_round_loop r (m # ms) rmin =
     (if m_type m \<noteq> MSG_ROUND_CHANGE then Inl (Panic ''bug: Frc contain non-round change'')
      else if m_round m \<le> r then Inl (Panic ''bug: Frc round not in future'')
      else min_round_loop r ms (if rmin > m_round m then m_round m else rmin))"

definition next_min_round :: "'i qbft_definition \<Rightarrow> 'v msg list \<Rightarrow> int \<Rightarrow> qbft_error + int" where
  "next_min_round d frc r =
     (if length frc < faulty_plus_one_count d then Inl (Panic ''bug: Frc too short'')
      else min_round_loop r frc i64_max)"

section \<open>Vocabulary of the specifications\<close>

text \<open>The range of definitions for which the threshold arithmetic does not overflow.\<close>

definition valid_definition :: "'i qbft_definition \<Rightarrow> bool" where
  "valid_definition d \<longleftrightarrow> 0 < nodes d \<and> nodes d \<le> 2 ^ 61 \<and> 0 < fifo_limit d"

definition faulty_count :: "'i qbft_definition \<Rightarrow> nat" where
  "faulty_count d = nat (the (faulty d))"

text \<open>A message carries a round and a value.\<close>

definition carries :: "int \<Rightarrow> 'v \<Rightarrow> 'v msg \<Rightarrow> bool" where
  "carries r v m \<longleftrightarrow> m_round m = r \<and> m_value m = v"

text \<open>An entry of the PREPARE sets holds messages under their own round, value and source.\<close>

definition prepare_set_ok :: "'v msg set \<Rightarrow> (int \<times> 'v) \<times> (int \<times> 'v msg) list \<Rightarrow> bool" where
  "prepare_set_ok M e \<longleftrightarrow> distinct (keys (snd e)) \<and> snd e \<noteq> []
     \<and> (\<forall>(s, m) \<in> set (snd e). m \<in> M \<and> m_type m = MSG_PREPARE \<and> m_source m = s \<and> carries (fst (fst e)) (snd (fst e)) m)"

section \<open>Thresholds\<close>

lemma quorum_eq:
  assumes "0 < n" "n \<le> 2 ^ 61"
  shows "quorum n = Some ((2 * n + 2) div 3)"
proof -
  have "in_i64 (n * 2)" "in_i64 (n * 2 + 2)" using assms by (simp_all add: rust_arith)
  then show ?thesis
    using assms by (simp add: quorum_def checked_mul_i64_def checked_add_i64_def checked_div_i64_pos mult.commute)
qed

lemma faulty_eq:
  assumes "0 < nodes d" "nodes d \<le> 2 ^ 61"
  shows "faulty d = Some ((nodes d - 1) div 3)"
proof -
  have "in_i64 (nodes d - 1)" using assms by (simp add: rust_arith)
  then show ?thesis
    using assms by (simp add: faulty_def checked_sub_i64_def checked_div_i64_pos)
qed

lemma quorum_count_eq:
  "valid_definition d \<Longrightarrow> quorum_count d = nat ((2 * nodes d + 2) div 3)"
  by (simp add: quorum_count_def valid_definition_def quorum_eq)

lemma faulty_count_eq:
  "valid_definition d \<Longrightarrow> faulty_count d = nat ((nodes d - 1) div 3)"
  by (simp add: faulty_count_def valid_definition_def faulty_eq)

lemma faulty_plus_one_count_eq:
  assumes "valid_definition d"
  shows "faulty_plus_one_count d = faulty_count d + 1"
proof -
  let ?f = "(nodes d - 1) div 3"
  have b: "0 < nodes d" "nodes d \<le> 2 ^ 61" using assms by (auto simp: valid_definition_def)
  have "0 \<le> ?f" "?f \<le> nodes d" using b by (simp_all add: pos_imp_zdiv_nonneg_iff)
  moreover from this b have "in_i64 (?f + 1)" by (simp add: rust_arith)
  ultimately show ?thesis
    using b by (simp add: faulty_plus_one_count_def faulty_count_def faulty_eq checked_add_i64_def nat_add_distrib)
qed

interpretation qbft: quorum_system valid_definition "\<lambda>d. nat (nodes d)" quorum_count faulty_count
proof unfold_locales
  fix d :: "'a qbft_definition"
  assume v: "valid_definition d"
  then have "0 < nodes d" by (simp add: valid_definition_def)
  then show "nat (nodes d) + faulty_count d < 2 * quorum_count d"
    and "quorum_count d + faulty_count d \<le> nat (nodes d)"
    by (simp_all add: quorum_count_eq [OF v] faulty_count_eq [OF v])
qed

section \<open>Facts on the filters\<close>

lemma uniq_source_subset: "m \<in> set (uniq_source ms) \<Longrightarrow> m \<in> set ms"
  using set_uniq_by_subset by (fastforce simp: uniq_source_def)

lemma distinct_uniq_source: "distinct (map m_source (uniq_source ms))"
  by (simp add: uniq_source_def distinct_uniq_by)

lemma sources_uniq_source: "m_source ` set (uniq_source ms) = m_source ` set ms"
  by (simp add: uniq_source_def keys_uniq_by)

lemma uniq_by_distinct_id:
  "distinct (map key xs) \<Longrightarrow> key ` set xs \<inter> set seen = {} \<Longrightarrow> uniq_by key seen xs = xs"
  by (induction xs arbitrary: seen) (auto simp: image_iff)

lemma uniq_source_id: "distinct (map m_source ms) \<Longrightarrow> uniq_source ms = ms"
  by (simp add: uniq_source_def uniq_by_distinct_id)

lemma filter_msgsD:
  assumes "m \<in> set (filter_msgs ms t r value pr pv)"
  shows "m \<in> set ms" "m_type m = t" "m_round m = r"
    "value = Some v \<Longrightarrow> m_value m = v" "pr = Some x \<Longrightarrow> m_prepared_round m = x"
    "pv = Some w \<Longrightarrow> m_prepared_value m = w"
  using uniq_source_subset [OF assms [unfolded filter_msgs_def]] by auto

lemma distinct_filter_msgs: "distinct (map m_source (filter_msgs ms t r value pr pv))"
  by (simp add: filter_msgs_def distinct_uniq_source)

lemma length_filter_msgs:
  "length (filter_msgs ms t r value pr pv) = card (m_source ` set (filter_msgs ms t r value pr pv))"
  by (rule distinct_length_card_image) (rule distinct_filter_msgs)

lemma flatten_Inr:
  assumes "flatten ord buf = Inr all" and "m \<in> set all"
  shows "\<exists>src ms m'. (src, ms) \<in> set buf \<and> m' \<in> set ms \<and> (m = m' \<or> m \<in> set (m_justification m'))"
proof -
  from assms(1) have "all = concat (map (\<lambda>m. m # m_justification m) (concat (map snd (hash_iter (ord 0) buf))))"
    by (auto simp: flatten_def Let_def split: if_splits)
  with assms(2) have "\<exists>p \<in> set buf. \<exists>m' \<in> set (snd p). m = m' \<or> m \<in> set (m_justification m')"
    by (auto simp del: Product_Type.split_paired_Ex)
  then show ?thesis by (metis prod.collapse)
qed

lemma flatten_total:
  assumes "\<And>src ms m j. (src, ms) \<in> set buf \<Longrightarrow> m \<in> set ms \<Longrightarrow> j \<in> set (m_justification m) \<Longrightarrow> m_justification j = []"
  shows "\<exists>all. flatten ord buf = Inr all"
  using assms by (fastforce simp: flatten_def Let_def list_ex_iff)

lemma carries_self [simp]: "carries (m_round m) (m_value m) m"
  by (simp add: carries_def)

text \<open>What the loop over PREPARE messages returns: all PREPAREs of the list carry one
  round and value and come from distinct sources.\<close>

lemma single_pr_pv_loop_sound:
  assumes "single_pr_pv_loop ms seen pr pv cnt = Some (pr', pv', cnt')"
  defines "ps \<equiv> filter (\<lambda>m. m_type m = MSG_PREPARE) ms"
  shows "cnt' = cnt + length ps \<and> distinct (map m_source ps) \<and> m_source ` set ps \<inter> set seen = {}
    \<and> (\<forall>p \<in> set ps. carries pr' pv' p) \<and> (0 < cnt \<longrightarrow> pr' = pr \<and> pv' = pv)"
  using assms(1) unfolding ps_def
proof (induction ms seen pr pv cnt rule: single_pr_pv_loop.induct)
  case (1 seen pr pv cnt)
  then show ?case by simp
next
  case (2 m ms seen pr pv cnt)
  consider (skip) "m_type m \<noteq> MSG_PREPARE"
    | (first) "m_type m = MSG_PREPARE" "m_source m \<notin> set seen" "cnt = 0"
    | (more) "m_type m = MSG_PREPARE" "m_source m \<notin> set seen" "cnt \<noteq> 0" "pr = m_round m" "pv = m_value m"
    using "2.prems" by (auto split: if_splits)
  then show ?case
  proof cases
    case skip
    with "2.IH"(1) "2.prems" show ?thesis by simp
  next
    case first
    with "2.IH"(2) "2.prems" show ?thesis by auto
  next
    case more
    with "2.IH"(3) "2.prems" show ?thesis by auto
  qed
qed

lemma single_pr_pv_loop_complete:
  assumes "distinct (map m_source ps)" "m_source ` set ps \<inter> set seen = {}"
    and "\<forall>p \<in> set ps. carries pr' pv' p" "0 < cnt \<longrightarrow> pr = pr' \<and> pv = pv'"
    and "ps = filter (\<lambda>m. m_type m = MSG_PREPARE) ms" "ps = [] \<longrightarrow> pr = pr' \<and> pv = pv'"
  shows "single_pr_pv_loop ms seen pr pv cnt = Some (pr', pv', cnt + length ps)"
  using assms
proof (induction ms seen pr pv cnt arbitrary: ps rule: single_pr_pv_loop.induct)
  case (1 seen pr pv cnt)
  then show ?case by simp
next
  case (2 m ms seen pr pv cnt)
  show ?case
  proof (cases "m_type m = MSG_PREPARE")
    case False
    with "2.IH"(1) [of ps] "2.prems" show ?thesis by simp
  next
    case True
    define qs where "qs = filter (\<lambda>m. m_type m = MSG_PREPARE) ms"
    with True "2.prems"(5) have ps: "ps = m # qs" by simp
    show ?thesis
    proof (cases "cnt = 0")
      case True
      with ps \<open>m_type m = MSG_PREPARE\<close> "2.prems" show ?thesis
        using "2.IH"(2) [of qs] by (simp add: qs_def carries_def)
    next
      case False
      with ps \<open>m_type m = MSG_PREPARE\<close> "2.prems" show ?thesis
        using "2.IH"(3) [of qs] by (simp add: qs_def carries_def)
    qed
  qed
qed

lemma get_single_justified_pr_pvD:
  assumes "get_single_justified_pr_pv d ms = Some (pr, pv)"
  defines "ps \<equiv> filter (\<lambda>m. m_type m = MSG_PREPARE) ms"
  shows "distinct (map m_source ps)" "quorum_count d \<le> length ps"
    "p \<in> set ps \<Longrightarrow> m_round p = pr" "p \<in> set ps \<Longrightarrow> m_value p = pv"
proof -
  from assms obtain cnt where "single_pr_pv_loop ms [] 0 0 0 = Some (pr, pv, cnt)" "quorum_count d \<le> cnt"
    by (auto simp: get_single_justified_pr_pv_def split: option.splits if_splits)
  from single_pr_pv_loop_sound [OF this(1)] this(2)
  have "distinct (map m_source ps)" "quorum_count d \<le> length ps" "\<forall>p \<in> set ps. carries pr pv p"
    by (simp_all add: ps_def)
  then show "distinct (map m_source ps)" "quorum_count d \<le> length ps"
    "p \<in> set ps \<Longrightarrow> m_round p = pr" "p \<in> set ps \<Longrightarrow> m_value p = pv"
    by (simp_all add: carries_def)
qed

lemma get_single_justified_pr_pvI:
  assumes "filter (\<lambda>m. m_type m = MSG_PREPARE) ms = ps" "distinct (map m_source ps)"
    and "\<forall>p \<in> set ps. carries pr pv p" "quorum_count d \<le> length ps" "ps \<noteq> []"
  shows "get_single_justified_pr_pv d ms = Some (pr, pv)"
  using single_pr_pv_loop_complete [OF assms(2), of "[]" pr pv 0 0 0 ms] assms
  by (simp add: get_single_justified_pr_pv_def)

lemma prepare_sets_ok:
  assumes "distinct (keys sets)" "\<forall>e \<in> set sets. prepare_set_ok M e" "set ms \<subseteq> M"
  shows "\<forall>e \<in> set (prepare_sets ms sets). prepare_set_ok M e"
  using assms
proof (induction ms sets rule: prepare_sets.induct)
  case (1 sets)
  then show ?case by simp
next
  case (2 m ms sets)
  show ?case
  proof (cases "m_type m = MSG_PREPARE")
    case False
    with 2 show ?thesis by simp
  next
    case True
    define key where "key = (m_round m, m_value m)"
    define old where "old = (case map_of sets key of None \<Rightarrow> [] | Some s \<Rightarrow> s)"
    define new where "new = AList.update (m_source m) m old"
    have old: "old = [] \<or> prepare_set_ok M (key, old)"
      using "2.prems"(2) by (auto simp: old_def split: option.split dest: map_of_SomeD)
    then have dist: "distinct (keys old)" by (auto simp: prepare_set_ok_def)
    have "prepare_set_ok M (key, new)"
      using old dist True "2.prems"(3) set_values_update_subset [OF dist]
      by (fastforce simp: prepare_set_ok_def new_def key_def)
    then have "\<forall>e \<in> set (AList.update key new sets). prepare_set_ok M e"
      using "2.prems"(1,2) set_values_update_subset by fast
    with "2.IH"(2) [of key old] True "2.prems" show ?thesis
      by (simp add: key_def old_def new_def Let_def)
  qed
qed

lemma get_prepare_quorumsD:
  assumes "ps \<in> set (get_prepare_quorums d ord all)"
  obtains r v where "set ps \<subseteq> set all" "distinct (map m_source ps)" "quorum_count d \<le> length ps" "ps \<noteq> []"
    "\<forall>p \<in> set ps. m_type p = MSG_PREPARE \<and> carries r v p"
proof -
  from assms obtain i key ms where e: "(key, ms) \<in> set (prepare_sets all [])"
    "quorum_count d \<le> length ms" "ps = map snd (hash_iter (ord (3 + i)) ms)"
    by (auto simp: get_prepare_quorums_def in_set_enumerate_eq)
      (metis length_hash_iter nth_mem set_hash_iter)
  have "prepare_set_ok (set all) (key, ms)"
    using prepare_sets_ok [of "[]" "set all" all] e(1) by auto
  then have ok: "distinct (keys ms)" "ms \<noteq> []"
    "\<forall>(s, m) \<in> set ms. m \<in> set all \<and> m_type m = MSG_PREPARE \<and> m_source m = s \<and> carries (fst key) (snd key) m"
    by (auto simp: prepare_set_ok_def)
  have "map m_source ps = keys (hash_iter (ord (3 + i)) ms)"
    using ok(3) unfolding e(3) by auto
  then have "distinct (map m_source ps)" using ok(1) by simp
  moreover have "\<forall>p \<in> set ps. p \<in> set all \<and> m_type p = MSG_PREPARE \<and> carries (fst key) (snd key) p"
    using ok(3) unfolding e(3) by auto
  ultimately show thesis using that [of "fst key" "snd key"] ok(2) e(2,3) by auto
qed

lemma fplus1_loop_ok:
  assumes "distinct (keys hi)" "\<forall>(s, m) \<in> set hi. m \<in> M \<and> m_type m = MSG_ROUND_CHANGE \<and> r < m_round m \<and> m_source m = s"
    and "set ms \<subseteq> M"
  shows "distinct (keys (fplus1_loop k r ms hi)) \<and>
    (\<forall>(s, m) \<in> set (fplus1_loop k r ms hi). m \<in> M \<and> m_type m = MSG_ROUND_CHANGE \<and> r < m_round m \<and> m_source m = s)"
  using assms
proof (induction k r ms hi rule: fplus1_loop.induct)
  case (1 k r hi)
  then show ?case by simp
next
  case (2 k r m ms hi)
  define hi' where "hi' = AList.update (m_source m) m hi"
  have hi': "distinct (keys hi')"
    "m_type m = MSG_ROUND_CHANGE \<Longrightarrow> r < m_round m \<Longrightarrow>
      \<forall>(s, m) \<in> set hi'. m \<in> M \<and> m_type m = MSG_ROUND_CHANGE \<and> r < m_round m \<and> m_source m = s"
    using "2.prems" set_values_update_subset [OF "2.prems"(1)] by (fastforce simp: hi'_def)+
  show ?case
    using 2 hi' by (auto simp: Let_def hi'_def [symmetric] split: if_splits)
qed

lemma get_fplus1_round_changesD:
  assumes "get_fplus1_round_changes d ord all r = Some frc"
  shows "distinct (map m_source frc)" "faulty_plus_one_count d \<le> length frc"
    "\<forall>m \<in> set frc. m \<in> set all \<and> m_type m = MSG_ROUND_CHANGE \<and> r < m_round m"
proof -
  define hi where "hi = fplus1_loop (faulty_plus_one_count d) r all []"
  from assms have frc: "frc = map snd (hash_iter (ord 2) hi)" "faulty_plus_one_count d \<le> length hi"
    by (auto simp: get_fplus1_round_changes_def hi_def Let_def split: if_splits)
  from fplus1_loop_ok [of "[]" "set all" r all] have hi: "distinct (keys hi)"
    "\<forall>(s, m) \<in> set hi. m \<in> set all \<and> m_type m = MSG_ROUND_CHANGE \<and> r < m_round m \<and> m_source m = s"
    by (simp_all add: hi_def)
  have "map m_source frc = keys (hash_iter (ord 2) hi)" using hi(2) unfolding frc(1) by auto
  then show "distinct (map m_source frc)" using hi(1) by simp
  show "faulty_plus_one_count d \<le> length frc" using frc by simp
  show "\<forall>m \<in> set frc. m \<in> set all \<and> m_type m = MSG_ROUND_CHANGE \<and> r < m_round m"
    using hi(2) unfolding frc(1) by auto
qed

lemma min_round_loop_Inr:
  assumes "\<forall>m \<in> set ms. m_type m = MSG_ROUND_CHANGE \<and> r < m_round m"
  shows "min_round_loop r ms x = Inr (fold (\<lambda>m y. min (m_round m) y) ms x)"
  using assms by (induction r ms x rule: min_round_loop.induct) (auto simp: min_def)

lemma fold_min_le:
  fixes g :: "'a \<Rightarrow> int"
  shows "fold (\<lambda>m y. min (g m) y) ms x \<le> x \<and> (\<forall>m \<in> set ms. fold (\<lambda>m y. min (g m) y) ms x \<le> g m)"
proof (induction ms arbitrary: x)
  case Nil
  then show ?case by simp
next
  case (Cons a ms)
  from Cons [of "min (g a) x"] show ?case by auto
qed

lemma fold_min_mem:
  fixes g :: "'a \<Rightarrow> int"
  shows "fold (\<lambda>m y. min (g m) y) ms x \<in> insert x (g ` set ms)"
proof (induction ms arbitrary: x)
  case Nil
  then show ?case by simp
next
  case (Cons a ms)
  from Cons [of "min (g a) x"] show ?case by (auto simp: min_def split: if_splits)
qed

lemma next_min_round_Inr:
  assumes "valid_definition d" "get_fplus1_round_changes d ord all r = Some frc"
    and "\<forall>m \<in> set frc. m_round m \<le> i64_max"
  obtains rmin where "next_min_round d frc r = Inr rmin" "r < rmin" "rmin \<in> m_round ` set frc"
    "\<forall>m \<in> set frc. rmin \<le> m_round m"
proof -
  note frc = get_fplus1_round_changesD [OF assms(2)]
  let ?rmin = "fold (\<lambda>m y. min (m_round m) y) frc i64_max"
  have "next_min_round d frc r = Inr ?rmin"
    using frc by (simp add: next_min_round_def min_round_loop_Inr)
  moreover have "frc \<noteq> []" using frc(2) faulty_plus_one_count_eq [OF assms(1)] by auto
  then obtain m where m: "m \<in> set frc" by (cases frc) auto
  have "?rmin \<in> m_round ` set frc"
    using fold_min_mem [of m_round frc i64_max] fold_min_le [of m_round frc i64_max] m assms(3)
    by (metis (no_types, lifting) imageI insertE order_antisym)
  ultimately show thesis
    using that [of ?rmin] fold_min_le [of m_round frc i64_max] frc(3) by auto
qed

section \<open>What a justified round-change quorum is\<close>

text \<open>The justification a leader builds is one every receiver accepts.\<close>

lemma filter_round_change_append:
  assumes "\<forall>m \<in> set ps. m_type m = MSG_PREPARE"
  shows "filter_round_change (ms @ ps) r = filter_round_change ms r"
  using assms by (simp add: filter_round_change_def filter_msgs_def filter_empty_conv)

lemma filter_round_change_id:
  assumes "distinct (map m_source ms)" "\<forall>m \<in> set ms. m_type m = MSG_ROUND_CHANGE \<and> m_round m = r"
  shows "filter_round_change ms r = ms"
  using assms by (simp add: filter_round_change_def filter_msgs_def uniq_source_id)

lemma first_someD: "first_some f xs = Some y \<Longrightarrow> \<exists>x \<in> set xs. f x = Some y"
  by (induction xs) (auto split: option.splits)

lemma get_justified_qrc_cases:
  assumes "get_justified_qrc d ord all r = Some js"
  obtains (J1) "distinct (map m_source js)" "quorum_count d \<le> length js"
      "\<forall>m \<in> set js. m \<in> set all \<and> m_type m = MSG_ROUND_CHANGE \<and> m_round m = r \<and> m_prepared_round m = 0 \<and> m_prepared_value m = 0"
    | (J2) qrc ps pr pv where "js = qrc @ ps" "distinct (map m_source qrc)" "quorum_count d \<le> length qrc"
      "\<forall>m \<in> set qrc. m \<in> set all \<and> m_type m = MSG_ROUND_CHANGE \<and> m_round m = r \<and> 0 \<le> m_prepared_round m \<and> m_prepared_round m < r \<and> m_prepared_round m \<le> pr"
      "distinct (map m_source ps)" "quorum_count d \<le> length ps" "ps \<noteq> []" "set ps \<subseteq> set all"
      "\<forall>p \<in> set ps. m_type p = MSG_PREPARE \<and> carries pr pv p"
      "\<exists>rc \<in> set qrc. m_prepared_round rc = pr \<and> m_prepared_value rc = pv"
proof (cases "snd (quorum_null_prepared d all r)")
  case True
  then have js: "js = filter_msgs all MSG_ROUND_CHANGE r None (Some 0) (Some 0)" "quorum_count d \<le> length js"
    using assms by (auto simp: get_justified_qrc_def quorum_null_prepared_def Let_def)
  show thesis
  proof (rule J1)
    show "distinct (map m_source js)" unfolding js(1) by (rule distinct_filter_msgs)
    show "quorum_count d \<le> length js" by (rule js(2))
    show "\<forall>m \<in> set js. m \<in> set all \<and> m_type m = MSG_ROUND_CHANGE \<and> m_round m = r \<and> m_prepared_round m = 0 \<and> m_prepared_value m = 0"
      unfolding js(1) by (meson filter_msgsD)
  qed
next
  case False
  define rcs where "rcs = filter valid_round_change_prepared_round (filter_round_change all r)"
  from False assms obtain ps where ps: "ps \<in> set (get_prepare_quorums d ord all)" "qrc_for_prepares d rcs ps = Some js"
    by (auto simp: get_justified_qrc_def rcs_def Let_def split: prod.splits bool.splits dest!: first_someD)
  from get_prepare_quorumsD [OF ps(1)] obtain pr pv where p: "set ps \<subseteq> set all" "distinct (map m_source ps)"
    "quorum_count d \<le> length ps" "ps \<noteq> []" "\<forall>p \<in> set ps. m_type p = MSG_PREPARE \<and> carries pr pv p" .
  define qrc where "qrc = uniq_source (filter (\<lambda>rc. m_prepared_round rc \<le> pr) rcs)"
  have hd: "m_round (hd ps) = pr" "m_value (hd ps) = pv" using p(4,5) by (auto simp: carries_def)
  from ps(2) p(4) have js: "js = qrc @ ps" "quorum_count d \<le> length qrc"
    "\<exists>rc \<in> set qrc. m_prepared_round rc = pr \<and> m_prepared_value rc = pv"
    by (auto simp: qrc_for_prepares_def qrc_def hd [symmetric] Let_def list_ex_iff split: list.splits if_splits)
  have "m \<in> set rcs \<and> m_prepared_round m \<le> pr" if "m \<in> set qrc" for m
    using uniq_source_subset [OF that [unfolded qrc_def]] by simp
  moreover have "m \<in> set all \<and> m_type m = MSG_ROUND_CHANGE \<and> m_round m = r \<and> 0 \<le> m_prepared_round m \<and> m_prepared_round m < r"
    if "m \<in> set rcs" for m
  proof -
    from that have m: "m \<in> set (filter_msgs all MSG_ROUND_CHANGE r None None None)" "valid_round_change_prepared_round m"
      by (auto simp: rcs_def filter_round_change_def)
    from filter_msgsD(1-3) [OF m(1)] m(2) show ?thesis by (auto simp: valid_round_change_prepared_round_def)
  qed
  ultimately have all: "\<forall>m \<in> set qrc. m \<in> set all \<and> m_type m = MSG_ROUND_CHANGE \<and> m_round m = r
      \<and> 0 \<le> m_prepared_round m \<and> m_prepared_round m < r \<and> m_prepared_round m \<le> pr"
    by blast
  have "distinct (map m_source qrc)" by (simp add: qrc_def distinct_uniq_source)
  from J2 [OF js(1) this js(2) all p(2,3,4,1,5) js(3)] show thesis .
qed

text \<open>
  A PRE-PREPARE that the leader of a round builds from a justified quorum of
  ROUND-CHANGE messages passes the check every receiver runs on it: the receiver finds
  either no prepared value, or exactly the value of the quorum of PREPAREs.
\<close>

lemma contains_justified_qrc_of_qrc:
  assumes r: "0 < r" and q: "get_justified_qrc d ord all r = Some js"
  shows "contains_justified_qrc d js r = Some 0
    \<or> (\<exists>pr pv. get_single_justified_pr_pv d js = Some (pr, pv) \<and> contains_justified_qrc d js r = Some pv)"
  using q
proof (cases rule: get_justified_qrc_cases)
  case J1
  then have rc: "filter_round_change js r = js" by (simp add: filter_round_change_id)
  moreover have "filter valid_round_change_prepared_round js = js"
    using J1(3) r by (simp add: valid_round_change_prepared_round_def)
  ultimately show ?thesis
    using J1(2,3) by (simp add: contains_justified_qrc_def list_all_iff)
next
  case (J2 qrc ps pr pv)
  have rc: "filter_round_change js r = qrc"
    using J2(1,2,4,9) by (simp add: filter_round_change_append filter_round_change_id)
  have valid: "filter valid_round_change_prepared_round qrc = qrc"
    using J2(4) by (simp add: valid_round_change_prepared_round_def)
  have single: "get_single_justified_pr_pv d js = Some (pr, pv)"
    by (rule get_single_justified_pr_pvI [of js ps]) (use J2 in \<open>auto simp: filter_empty_conv\<close>)
  have "\<not> list_ex (\<lambda>rc. m_prepared_round rc > pr) qrc"
    using J2(4) by (auto simp: list_ex_iff)
  moreover have "list_ex (\<lambda>rc. m_prepared_round rc = pr \<and> m_prepared_value rc = pv) qrc"
    using J2(10) by (simp add: list_ex_iff)
  ultimately show ?thesis
    using J2(3) single by (simp add: contains_justified_qrc_def rc valid)
qed

end
