(* ===== verification/Qbft_Run.thy ===== *)
theory Qbft_Run
  imports Qbft_Core
begin

text \<open>
  The state machine of one QBFT process: the function \<open>run\<close> of
  crates/core/src/qbft/mod.rs. The loop variables are the record \<open>qstate\<close>; one
  iteration of the loop is \<open>qbft_step\<close>, which takes the channel that the select picked
  as an event and returns the effects it performed (broadcasts, the decision, timers,
  log calls) with either the next state or the error that ended the run.
\<close>

section \<open>State, events and effects\<close>

datatype 'v request = Request
  (rq_type: int)
  (rq_source: int)
  (rq_round: int)
  (rq_value: 'v)
  (rq_prepared_round: int)
  (rq_prepared_value: 'v)
  (rq_justification: "'v msg list option")

datatype 'v action =
    Broadcast "'v request"
  | Decide 'v "'v msg list"
  | NewTimer int
  | StopTimer
  | LogUponRule int "'v msg" upon_rule
  | LogRoundChange int int upon_rule "'v msg list"
  | LogUnjust "'v msg"

record ('v, 'c) qstate =
  q_round :: int
  q_input_value :: 'v
  q_input_value_source :: 'c
  q_ppj_cache :: "'v msg list option"
  q_prepared_round :: int
  q_prepared_value :: 'v
  q_compare_failure_round :: int
  q_prepared_justification :: "'v msg list option"
  q_commit :: "'v msg list option"
  q_buffer :: "'v buffer"
  q_dedup_rules :: "(upon_rule \<times> int) list"
  q_timer :: "int option"
  q_input_open :: bool

text \<open>
  What happens on the channels of the compare helper: values cached by the callback and
  idle polls, then the event that ends the wait. \<open>CmpErr\<close> carries the values still queued
  when the callback reported, whether it reported an error, and whether the parent token
  was cancelled by then.
\<close>

datatype 'c cmp_event = CmpValue 'c | CmpValueClosed | CmpErrClosed | CmpPoll

datatype 'c cmp_end =
    CmpErr "'c list" bool bool
  | CmpTimer
  | CmpTimerClosed
  | CmpCanceled

datatype 'c cmp_trace = CmpTrace "'c cmp_event list" "'c cmp_end"

text \<open>The environment of one iteration: the transport's answer to a broadcast, the events
  of the compare helper, and the hash-map iteration orders.\<close>

record ('v, 'c) qenv =
  e_broadcast :: "'v request \<Rightarrow> qbft_error option"
  e_compare :: "'v msg \<Rightarrow> 'c \<Rightarrow> 'c cmp_trace"
  e_order :: hash_order

datatype 'v qevent =
    EvInput 'v
  | EvInputClosed
  | EvRecv "'v msg"
  | EvRecvClosed
  | EvTimer
  | EvTimerClosed
  | EvPoll
  | EvCanceled

type_synonym ('v, 'c) flow = "'v action list \<times> (qbft_error + ('v, 'c) qstate)"

definition flow_bind :: "('v, 'c) flow \<Rightarrow> (('v, 'c) qstate \<Rightarrow> ('v, 'c) flow) \<Rightarrow> ('v, 'c) flow" where
  "flow_bind m f =
     (case m of
        (os, Inl e) \<Rightarrow> (os, Inl e)
      | (os, Inr s) \<Rightarrow> (case f s of (os', r) \<Rightarrow> (os @ os', r)))"

section \<open>Helpers of the loop\<close>

definition broadcast_msg ::
  "('v :: zero, 'c) qenv \<Rightarrow> int \<Rightarrow> int \<Rightarrow> 'v \<Rightarrow> 'v msg list option \<Rightarrow> ('v, 'c) qstate \<Rightarrow> ('v, 'c) flow" where
  "broadcast_msg env process t value justification st =
     (let rq = Request t process (q_round st) value 0 0 justification
      in ([Broadcast rq], case e_broadcast env rq of None \<Rightarrow> Inr st | Some e \<Rightarrow> Inl e))"

definition broadcast_round_change ::
  "('v :: zero, 'c) qenv \<Rightarrow> int \<Rightarrow> ('v, 'c) qstate \<Rightarrow> ('v, 'c) flow" where
  "broadcast_round_change env process st =
     (let rq = Request MSG_ROUND_CHANGE process (q_round st) 0 (q_prepared_round st)
                 (q_prepared_value st) (q_prepared_justification st)
      in ([Broadcast rq], case e_broadcast env rq of None \<Rightarrow> Inr st | Some e \<Rightarrow> Inl e))"

definition broadcast_own_pre_prepare ::
  "('v :: zero, 'c) qenv \<Rightarrow> int \<Rightarrow> 'v msg list \<Rightarrow> ('v, 'c) qstate \<Rightarrow> ('v, 'c) flow" where
  "broadcast_own_pre_prepare env process justification st =
     (if q_ppj_cache st \<noteq> None then ([], Inl (Panic ''bug: justification cache must be none''))
      else if q_input_value st = 0 then ([], Inr (st\<lparr>q_ppj_cache := Some justification\<rparr>))
      else broadcast_msg env process MSG_PRE_PREPARE (q_input_value st) (Some justification) st)"

definition buffer_msg :: "'i qbft_definition \<Rightarrow> 'v msg \<Rightarrow> ('v, 'c) qstate \<Rightarrow> ('v, 'c) qstate" where
  "buffer_msg d m st =
     (let old = (case map_of (q_buffer st) (m_source m) of None \<Rightarrow> [] | Some fifo \<Rightarrow> fifo);
          fifo = old @ [m];
          limit = nat (fifo_limit d)
      in st\<lparr>q_buffer := AList.update (m_source m) (drop (length fifo - limit) fifo) (q_buffer st)\<rparr>)"

definition change_round ::
  "('v, 'c) qenv \<Rightarrow> int \<Rightarrow> upon_rule \<Rightarrow> ('v, 'c) qstate \<Rightarrow> ('v, 'c) flow" where
  "change_round env new_round rule st =
     (if q_round st = new_round then ([], Inr st)
      else ([LogRoundChange (q_round st) new_round rule
               (extract_round_messages (e_order env) (q_buffer st) (q_round st))],
            Inr (st\<lparr>q_round := new_round, q_dedup_rules := [], q_ppj_cache := None\<rparr>)))"

text \<open>The pair of calls that stops the running timer and starts one for the current round.\<close>

definition restart_timer :: "('v, 'c) qstate \<Rightarrow> ('v, 'c) flow" where
  "restart_timer st = ([StopTimer, NewTimer (q_round st)], Inr (st\<lparr>q_timer := Some (q_round st)\<rparr>))"

fun compare_values :: "'c cmp_event list \<Rightarrow> 'c \<Rightarrow> 'c" where
  "compare_values [] result = result"
| "compare_values (CmpValue v # es) result = compare_values es v"
| "compare_values (CmpValueClosed # es) result = compare_values es result"
| "compare_values (CmpErrClosed # es) result = compare_values es result"
| "compare_values (CmpPoll # es) result = compare_values es result"

definition compare ::
  "('v, 'c) qenv \<Rightarrow> 'v msg \<Rightarrow> 'c \<Rightarrow> 'c \<times> (qbft_error + unit)" where
  "compare env m input_value_source =
     (case e_compare env m input_value_source of
        CmpTrace es fin \<Rightarrow>
          (let result = compare_values es input_value_source
           in case fin of
                CmpErr queued err canceled \<Rightarrow>
                  (let result = (if queued = [] then result else last queued)
                   in (result, if canceled then Inl ContextCanceled
                               else if err then Inl CompareError else Inr ()))
              | CmpTimer \<Rightarrow> (result, Inl TimeoutError)
              | CmpTimerClosed \<Rightarrow> (result, Inl ChannelError)
              | CmpCanceled \<Rightarrow> (result, Inl ContextCanceled)))"

text \<open>Algorithm 3:1: move to the next round, restart the timer, announce the round change.\<close>

definition on_round_timeout ::
  "('v :: zero, 'c) qenv \<Rightarrow> int \<Rightarrow> ('v, 'c) qstate \<Rightarrow> ('v, 'c) flow" where
  "on_round_timeout env process st =
     (case checked_add_i64 (q_round st) 1 of
        None \<Rightarrow> ([], Inl (Panic ''round permits increment''))
      | Some next_round \<Rightarrow>
          flow_bind (change_round env next_round UPON_ROUND_TIMEOUT st) (\<lambda>st.
          flow_bind (restart_timer st) (\<lambda>st.
          broadcast_round_change env process st)))"

section \<open>The upon rules\<close>

definition on_compare_result ::
  "('v :: zero, 'c) qenv \<Rightarrow> int \<Rightarrow> 'v msg \<Rightarrow> qbft_error + unit \<Rightarrow> ('v, 'c) qstate \<Rightarrow> ('v, 'c) flow" where
  "on_compare_result env process m result st =
     (case result of
        Inr _ \<Rightarrow> broadcast_msg env process MSG_PREPARE (m_value m) None st
      | Inl CompareError \<Rightarrow> ([], Inr (st\<lparr>q_compare_failure_round := m_round m\<rparr>))
      | Inl TimeoutError \<Rightarrow> on_round_timeout env process st
      | Inl ContextCanceled \<Rightarrow> ([], Inl ContextCanceled)
      | Inl e \<Rightarrow> ([], Inl (UnexpectedCompareError e)))"

definition on_justified_pre_prepare ::
  "('v :: zero, 'c) qenv \<Rightarrow> int \<Rightarrow> 'v msg \<Rightarrow> ('v, 'c) qstate \<Rightarrow> ('v, 'c) flow" where
  "on_justified_pre_prepare env process m st =
     flow_bind (change_round env (m_round m) UPON_JUSTIFIED_PRE_PREPARE st) (\<lambda>st.
     flow_bind (restart_timer st) (\<lambda>st.
       case compare env m (q_input_value_source st) of
         (src, result) \<Rightarrow> on_compare_result env process m result (st\<lparr>q_input_value_source := src\<rparr>)))"

definition on_quorum_prepares ::
  "('v :: zero, 'c) qenv \<Rightarrow> int \<Rightarrow> 'v msg \<Rightarrow> 'v msg list option \<Rightarrow> ('v, 'c) qstate \<Rightarrow> ('v, 'c) flow" where
  "on_quorum_prepares env process m justification st =
     (let st = st\<lparr>q_prepared_round := q_round st, q_prepared_value := m_value m,
                  q_prepared_justification := justification\<rparr>
      in broadcast_msg env process MSG_COMMIT (q_prepared_value st) None st)"

definition on_decided ::
  "('v, 'c) qenv \<Rightarrow> upon_rule \<Rightarrow> 'v msg \<Rightarrow> 'v msg list option \<Rightarrow> ('v, 'c) qstate \<Rightarrow> ('v, 'c) flow" where
  "on_decided env rule m justification st =
     flow_bind (change_round env (m_round m) rule st) (\<lambda>st.
       (case justification of
          None \<Rightarrow> ([StopTimer], Inl (Panic ''decision rules always include a justification''))
        | Some js \<Rightarrow> ([StopTimer, Decide (m_value m) js],
                      Inr (st\<lparr>q_commit := Some js, q_timer := None\<rparr>))))"

definition on_fplus1_round_changes ::
  "'i qbft_definition \<Rightarrow> ('v :: zero, 'c) qenv \<Rightarrow> int \<Rightarrow> 'v msg list option \<Rightarrow> ('v, 'c) qstate
     \<Rightarrow> ('v, 'c) flow" where
  "on_fplus1_round_changes d env process justification st =
     (case justification of
        None \<Rightarrow> ([], Inl (Panic ''F+1 rule always includes a justification''))
      | Some js \<Rightarrow>
          (case next_min_round d js (q_round st) of
             Inl e \<Rightarrow> ([], Inl e)
           | Inr r \<Rightarrow>
               flow_bind (change_round env r UPON_F_PLUS1_ROUND_CHANGES st) (\<lambda>st.
               flow_bind (restart_timer st) (\<lambda>st.
               broadcast_round_change env process st))))"

definition on_quorum_round_changes ::
  "'i qbft_definition \<Rightarrow> ('v :: zero, 'c) qenv \<Rightarrow> int \<Rightarrow> 'v msg list option \<Rightarrow> ('v, 'c) qstate
     \<Rightarrow> ('v, 'c) flow" where
  "on_quorum_round_changes d env process justification st =
     (case justification of
        None \<Rightarrow> ([], Inl (Panic ''quorum round change rule always includes a justification''))
      | Some js \<Rightarrow>
          (case get_single_justified_pr_pv d js of
             Some (pr, pv) \<Rightarrow>
               if q_compare_failure_round st \<noteq> pr
               then broadcast_msg env process MSG_PRE_PREPARE pv (Some js) st
               else broadcast_own_pre_prepare env process js st
           | None \<Rightarrow> broadcast_own_pre_prepare env process js st))"

fun on_rule ::
  "'i qbft_definition \<Rightarrow> ('v :: zero, 'c) qenv \<Rightarrow> int \<Rightarrow> upon_rule \<Rightarrow> 'v msg \<Rightarrow> 'v msg list option
     \<Rightarrow> ('v, 'c) qstate \<Rightarrow> ('v, 'c) flow" where
  "on_rule d env process UPON_JUSTIFIED_PRE_PREPARE m js st = on_justified_pre_prepare env process m st"
| "on_rule d env process UPON_QUORUM_PREPARES m js st = on_quorum_prepares env process m js st"
| "on_rule d env process UPON_QUORUM_COMMITS m js st = on_decided env UPON_QUORUM_COMMITS m js st"
| "on_rule d env process UPON_JUSTIFIED_DECIDED m js st = on_decided env UPON_JUSTIFIED_DECIDED m js st"
| "on_rule d env process UPON_F_PLUS1_ROUND_CHANGES m js st = on_fplus1_round_changes d env process js st"
| "on_rule d env process UPON_QUORUM_ROUND_CHANGES m js st = on_quorum_round_changes d env process js st"
| "on_rule d env process UPON_UNJUST_QUORUM_ROUND_CHANGES m js st = ([], Inr st)"
| "on_rule d env process UPON_NOTHING m js st = ([], Inl (Panic ''bug: invalid rule''))"
| "on_rule d env process UPON_ROUND_TIMEOUT m js st = ([], Inl (Panic ''bug: invalid rule''))"

section \<open>One iteration of the loop\<close>

definition on_input ::
  "('v :: zero, 'c) qenv \<Rightarrow> int \<Rightarrow> 'v \<Rightarrow> ('v, 'c) qstate \<Rightarrow> ('v, 'c) flow" where
  "on_input env process iv st =
     (let st = st\<lparr>q_input_value := iv\<rparr>
      in if iv = 0 then ([], Inl ZeroInputValue)
         else flow_bind
           (case q_ppj_cache st of
              None \<Rightarrow> ([], Inr st)
            | Some ppj \<Rightarrow> broadcast_msg env process MSG_PRE_PREPARE iv (Some ppj) st)
           (\<lambda>st. ([], Inr (st\<lparr>q_input_open := False\<rparr>))))"

definition on_recv ::
  "'i qbft_definition \<Rightarrow> ('v :: zero, 'c) qenv \<Rightarrow> 'i \<Rightarrow> int \<Rightarrow> 'v msg \<Rightarrow> ('v, 'c) qstate
     \<Rightarrow> ('v, 'c) flow" where
  "on_recv d env inst process m st =
     (case q_commit st of
        Some (c # cs) \<Rightarrow>
          if m_source m \<noteq> process \<and> m_type m = MSG_ROUND_CHANGE
          then broadcast_msg env process MSG_DECIDED (m_value c) (Some (c # cs)) st
          else ([], Inr st)
      | _ \<Rightarrow>
          (case is_justified d inst m (q_compare_failure_round st) of
             Inl e \<Rightarrow> ([], Inl e)
           | Inr just \<Rightarrow>
               if \<not> just then ([LogUnjust m], Inr st)
               else let st = buffer_msg d m st
                    in case classify d (e_order env) inst (q_round st) process (q_buffer st) m of
                         Inl e \<Rightarrow> ([], Inl e)
                       | Inr (rule, justification) \<Rightarrow>
                           if rule = UPON_NOTHING \<or> (rule, m_round m) \<in> set (q_dedup_rules st)
                           then ([], Inr st)
                           else let st = st\<lparr>q_dedup_rules := (rule, m_round m) # q_dedup_rules st\<rparr>
                                in flow_bind ([LogUponRule (q_round st) m rule], Inr st)
                                     (on_rule d env process rule m justification)))"

text \<open>A select arm on a channel that was replaced by one that never fires is not taken.\<close>

fun event_enabled :: "('v, 'c) qstate \<Rightarrow> 'v qevent \<Rightarrow> bool" where
  "event_enabled st (EvInput v) = q_input_open st"
| "event_enabled st EvInputClosed = q_input_open st"
| "event_enabled st EvTimer = (q_timer st \<noteq> None)"
| "event_enabled st EvTimerClosed = (q_timer st \<noteq> None)"
| "event_enabled st (EvRecv m) = True"
| "event_enabled st EvRecvClosed = True"
| "event_enabled st EvPoll = True"
| "event_enabled st EvCanceled = True"

fun on_event ::
  "'i qbft_definition \<Rightarrow> ('v :: zero, 'c) qenv \<Rightarrow> 'i \<Rightarrow> int \<Rightarrow> 'v qevent \<Rightarrow> ('v, 'c) qstate
     \<Rightarrow> ('v, 'c) flow" where
  "on_event d env inst process (EvInput v) st = on_input env process v st"
| "on_event d env inst process EvInputClosed st = ([], Inl ChannelError)"
| "on_event d env inst process (EvRecv m) st = on_recv d env inst process m st"
| "on_event d env inst process EvRecvClosed st = ([], Inl ChannelError)"
| "on_event d env inst process EvTimer st = on_round_timeout env process st"
| "on_event d env inst process EvTimerClosed st = ([], Inl ChannelError)"
| "on_event d env inst process EvPoll st = ([], Inr st)"
| "on_event d env inst process EvCanceled st = ([], Inl ContextCanceled)"

definition qbft_step ::
  "'i qbft_definition \<Rightarrow> ('v :: zero, 'c) qenv \<Rightarrow> 'i \<Rightarrow> int \<Rightarrow> 'v qevent \<Rightarrow> ('v, 'c) qstate
     \<Rightarrow> ('v, 'c) flow" where
  "qbft_step d env inst process ev st =
     (if event_enabled st ev then on_event d env inst process ev st else ([], Inr st))"

definition initial_state :: "'c \<Rightarrow> ('v :: zero, 'c) qstate" where
  "initial_state src =
     \<lparr>q_round = 1, q_input_value = 0, q_input_value_source = src, q_ppj_cache = None,
      q_prepared_round = 0, q_prepared_value = 0, q_compare_failure_round = 0,
      q_prepared_justification = None, q_commit = None, q_buffer = [], q_dedup_rules = [],
      q_timer = None, q_input_open = True\<rparr>"

text \<open>Algorithm 1:11, before the loop; the argument is the default compare value.\<close>

definition qbft_start ::
  "'i qbft_definition \<Rightarrow> ('v :: zero, 'c) qenv \<Rightarrow> 'i \<Rightarrow> int \<Rightarrow> 'c \<Rightarrow> ('v, 'c) flow" where
  "qbft_start d env inst process src =
     (case validate_definition d of
        Inl e \<Rightarrow> ([], Inl e)
      | Inr _ \<Rightarrow>
          (let st = initial_state src
           in flow_bind
                (if is_leader d inst (q_round st) process
                 then broadcast_own_pre_prepare env process [] st else ([], Inr st))
                (\<lambda>st. ([NewTimer (q_round st)], Inr (st\<lparr>q_timer := Some (q_round st)\<rparr>)))))"

text \<open>The whole run over a list of events with their environments.\<close>

fun qbft_loop ::
  "'i qbft_definition \<Rightarrow> 'i \<Rightarrow> int \<Rightarrow> (('v :: zero, 'c) qenv \<times> 'v qevent) list \<Rightarrow> ('v, 'c) qstate
     \<Rightarrow> ('v, 'c) flow" where
  "qbft_loop d inst process [] st = ([], Inr st)"
| "qbft_loop d inst process ((env, ev) # evs) st =
     flow_bind (qbft_step d env inst process ev st) (qbft_loop d inst process evs)"

end
