(* ===== verification/Qbft_Agreement.thy ===== *)
theory Qbft_Agreement
  imports Qbft_Core
begin

text \<open>
  The abstract voting protocol behind the QBFT core, and its agreement theorem. A process
  is reduced to its round, its prepared round, the round of its last failed comparison and
  whether it has decided; messages are reduced to their signed fields. The theory
  \<open>Qbft_System\<close> shows that the state machine of \<open>Qbft_Run\<close> implements this protocol.
\<close>

section \<open>Votes\<close>

datatype 'v header = Header
  (h_type: int)
  (h_source: int)
  (h_round: int)
  (h_value: 'v)
  (h_prepared_round: int)
  (h_prepared_value: 'v)

definition processes :: "'i qbft_definition \<Rightarrow> int set" where
  "processes d = {0..<nodes d}"

text \<open>A process has voted for a value in a round when it signed such a message; a faulty
  process is taken to have signed everything.\<close>

definition voted :: "int set \<Rightarrow> 'v header set \<Rightarrow> int \<Rightarrow> int \<Rightarrow> int \<Rightarrow> 'v \<Rightarrow> bool" where
  "voted byz H t s r v \<longleftrightarrow>
     s \<in> byz \<or> (\<exists>h \<in> H. h_type h = t \<and> h_source h = s \<and> h_round h = r \<and> h_value h = v)"

definition vote_quorum ::
  "'i qbft_definition \<Rightarrow> int set \<Rightarrow> 'v header set \<Rightarrow> int \<Rightarrow> int \<Rightarrow> 'v \<Rightarrow> bool" where
  "vote_quorum d byz H t r v \<longleftrightarrow>
     (\<exists>S \<subseteq> processes d. quorum_count d \<le> card S \<and> (\<forall>s \<in> S. voted byz H t s r v))"

text \<open>A quorum of round changes into round \<open>r\<close> that permits the proposal \<open>u\<close>: either
  nobody in it has prepared, or \<open>u\<close> is the value of the highest prepared round in it.\<close>

definition justified_proposal ::
  "'i qbft_definition \<Rightarrow> int set \<Rightarrow> ('v :: zero) header set \<Rightarrow> int \<Rightarrow> 'v \<Rightarrow> bool" where
  "justified_proposal d byz H r u \<longleftrightarrow>
     (\<exists>S \<subseteq> processes d. \<exists>rc. quorum_count d \<le> card S
       \<and> (\<forall>s \<in> S. 0 \<le> rc s \<and> rc s < r \<and> (s \<in> byz \<or> (\<exists>h \<in> H. h_type h = MSG_ROUND_CHANGE
            \<and> h_source h = s \<and> h_round h = r \<and> h_prepared_round h = rc s)))
       \<and> ((\<forall>s \<in> S. rc s = 0)
          \<or> (\<exists>pr pv. vote_quorum d byz H MSG_PREPARE pr pv \<and> (\<forall>s \<in> S. rc s \<le> pr)
               \<and> (\<exists>s \<in> S. rc s = pr) \<and> (pv = 0 \<or> u = pv))))"

section \<open>One process\<close>

record anode =
  a_round :: int
  a_prepared_round :: int
  a_compare_failure_round :: int
  a_done :: bool

text \<open>
  A step of process \<open>p\<close> in the presence of the signed messages \<open>H\<close>: the messages it
  signs, the proposals it accepts (round and value) and the values it decides. \<open>cmp p u\<close>
  says whether the local comparison of process \<open>p\<close> accepts the value \<open>u\<close>.
\<close>

inductive anode_step ::
  "'i qbft_definition \<Rightarrow> int set \<Rightarrow> (int \<Rightarrow> 'v \<Rightarrow> bool) \<Rightarrow> ('v :: zero) header set \<Rightarrow> int \<Rightarrow> anode
     \<Rightarrow> 'v header set \<Rightarrow> (int \<times> 'v) set \<Rightarrow> (int \<times> 'v) set \<Rightarrow> anode \<Rightarrow> bool"
  for d byz cmp H p a where
  Other: "\<lbrakk>\<forall>h \<in> S. h_type h \<notin> {MSG_PREPARE, MSG_COMMIT, MSG_ROUND_CHANGE}\<rbrakk>
    \<Longrightarrow> anode_step d byz cmp H p a S {} {} a"
| Round_Change: "\<lbrakk>\<not> a_done a; a_round a < r\<rbrakk>
    \<Longrightarrow> anode_step d byz cmp H p a {Header MSG_ROUND_CHANGE p r v (a_prepared_round a) w} {} {}
          (a\<lparr>a_round := r\<rparr>)"
| Accept: "\<lbrakk>\<not> a_done a; a_round a \<le> r;
      r = 1 \<or> r = a_compare_failure_round a + 1 \<or> justified_proposal d byz H r u; cmp p u\<rbrakk>
    \<Longrightarrow> anode_step d byz cmp H p a {Header MSG_PREPARE p r u x w} {(r, u)} {} (a\<lparr>a_round := r\<rparr>)"
| Accept_Fail: "\<lbrakk>\<not> a_done a; a_round a \<le> r;
      r = 1 \<or> r = a_compare_failure_round a + 1 \<or> justified_proposal d byz H r u; \<not> cmp p u\<rbrakk>
    \<Longrightarrow> anode_step d byz cmp H p a {} {(r, u)} {} (a\<lparr>a_round := r, a_compare_failure_round := r\<rparr>)"
| Commit: "\<lbrakk>\<not> a_done a; vote_quorum d byz H MSG_PREPARE (a_round a) v\<rbrakk>
    \<Longrightarrow> anode_step d byz cmp H p a {Header MSG_COMMIT p (a_round a) v x w} {} {}
          (a\<lparr>a_prepared_round := a_round a\<rparr>)"
| Decide: "\<lbrakk>\<not> a_done a; vote_quorum d byz H MSG_COMMIT r v\<rbrakk>
    \<Longrightarrow> anode_step d byz cmp H p a {} {} {(r, v)} (a\<lparr>a_round := r, a_done := True\<rparr>)"

section \<open>The system\<close>

record 'v asys =
  as_node :: "int \<Rightarrow> anode"
  as_headers :: "'v header set"
  as_accepted :: "int \<Rightarrow> (int \<times> 'v) set"
  as_decided :: "int \<Rightarrow> (int \<times> 'v) set"

definition anode_init :: anode where
  "anode_init = \<lparr>a_round = 1, a_prepared_round = 0, a_compare_failure_round = 0, a_done = False\<rparr>"

definition asys_init :: "'v asys" where
  "asys_init = \<lparr>as_node = (\<lambda>_. anode_init), as_headers = {}, as_accepted = (\<lambda>_. {}), as_decided = (\<lambda>_. {})\<rparr>"

inductive asys_reach ::
  "'i qbft_definition \<Rightarrow> int set \<Rightarrow> (int \<Rightarrow> 'v \<Rightarrow> bool) \<Rightarrow> ('v :: zero) asys \<Rightarrow> bool"
  for d byz cmp where
  Init: "asys_reach d byz cmp asys_init"
| Step: "\<lbrakk>asys_reach d byz cmp s; p \<in> processes d - byz;
     anode_step d byz cmp (as_headers s) p (as_node s p) S A D a'\<rbrakk>
   \<Longrightarrow> asys_reach d byz cmp
        (s\<lparr>as_node := (as_node s)(p := a'), as_headers := as_headers s \<union> S,
           as_accepted := (as_accepted s)(p := as_accepted s p \<union> A),
           as_decided := (as_decided s)(p := as_decided s p \<union> D)\<rparr>)"

section \<open>Invariants\<close>

text \<open>What the messages and accepted proposals recorded so far say about each other, and
  what they say about the state of the process that sent them.\<close>

definition history_ok ::
  "'i qbft_definition \<Rightarrow> int set \<Rightarrow> (int \<Rightarrow> 'v \<Rightarrow> bool) \<Rightarrow> ('v :: zero) header set
     \<Rightarrow> (int \<Rightarrow> (int \<times> 'v) set) \<Rightarrow> (int \<Rightarrow> (int \<times> 'v) set) \<Rightarrow> bool" where
  "history_ok d byz cmp H acc dec \<longleftrightarrow>
     (\<forall>h \<in> H. \<forall>h' \<in> H. h_source h = h_source h' \<longrightarrow> h_type h = MSG_COMMIT \<longrightarrow> h_type h' = MSG_ROUND_CHANGE
        \<longrightarrow> h_round h < h_round h' \<longrightarrow> h_round h \<le> h_prepared_round h')
   \<and> (\<forall>h \<in> H. h_type h = MSG_COMMIT \<longrightarrow> 1 \<le> h_round h \<and> vote_quorum d byz H MSG_PREPARE (h_round h) (h_value h))
   \<and> (\<forall>h \<in> H. h_type h = MSG_PREPARE \<longrightarrow> (h_round h, h_value h) \<in> acc (h_source h) \<and> cmp (h_source h) (h_value h))
   \<and> (\<forall>p r u. (r, u) \<in> acc p \<longrightarrow> r = 1 \<or> (\<exists>u'. (r - 1, u') \<in> acc p \<and> \<not> cmp p u') \<or> justified_proposal d byz H r u)
   \<and> (\<forall>p r v. (r, v) \<in> dec p \<longrightarrow> vote_quorum d byz H MSG_COMMIT r v)"

definition node_tracks_history ::
  "(int \<Rightarrow> 'v \<Rightarrow> bool) \<Rightarrow> 'v header set \<Rightarrow> (int \<times> 'v) set \<Rightarrow> int \<Rightarrow> anode \<Rightarrow> bool" where
  "node_tracks_history cmp H acc p a \<longleftrightarrow> (\<not> a_done a \<longrightarrow>
     1 \<le> a_round a
   \<and> (\<forall>h \<in> H. h_source h = p \<longrightarrow> h_type h = MSG_COMMIT \<longrightarrow> h_round h \<le> a_round a \<and> h_round h \<le> a_prepared_round a)
   \<and> (\<forall>h \<in> H. h_source h = p \<longrightarrow> h_type h = MSG_ROUND_CHANGE \<longrightarrow> h_round h \<le> a_round a)
   \<and> a_prepared_round a \<le> a_round a
   \<and> (a_compare_failure_round a \<noteq> 0 \<longrightarrow> (\<exists>u. (a_compare_failure_round a, u) \<in> acc \<and> \<not> cmp p u)))"

definition asys_inv ::
  "'i qbft_definition \<Rightarrow> int set \<Rightarrow> (int \<Rightarrow> 'v \<Rightarrow> bool) \<Rightarrow> ('v :: zero) asys \<Rightarrow> bool" where
  "asys_inv d byz cmp s \<longleftrightarrow>
     history_ok d byz cmp (as_headers s) (as_accepted s) (as_decided s)
   \<and> (\<forall>p. node_tracks_history cmp (as_headers s) (as_accepted s p) p (as_node s p))"

lemma voted_mono: "voted byz H t s r v \<Longrightarrow> H \<subseteq> H' \<Longrightarrow> voted byz H' t s r v"
  by (auto simp: voted_def)

lemma vote_quorum_mono: "vote_quorum d byz H t r v \<Longrightarrow> H \<subseteq> H' \<Longrightarrow> vote_quorum d byz H' t r v"
  unfolding vote_quorum_def using voted_mono by meson

lemma justified_proposal_mono:
  assumes "justified_proposal d byz H r u" "H \<subseteq> H'"
  shows "justified_proposal d byz H' r u"
proof -
  from assms(1) obtain S rc where S: "S \<subseteq> processes d" "quorum_count d \<le> card S"
    "\<forall>s \<in> S. 0 \<le> rc s \<and> rc s < r \<and> (s \<in> byz \<or> (\<exists>h \<in> H. h_type h = MSG_ROUND_CHANGE
            \<and> h_source h = s \<and> h_round h = r \<and> h_prepared_round h = rc s))"
    "(\<forall>s \<in> S. rc s = 0) \<or> (\<exists>pr pv. vote_quorum d byz H MSG_PREPARE pr pv \<and> (\<forall>s \<in> S. rc s \<le> pr)
               \<and> (\<exists>s \<in> S. rc s = pr) \<and> (pv = 0 \<or> u = pv))"
    unfolding justified_proposal_def by blast
  have "(\<forall>s \<in> S. rc s = 0) \<or> (\<exists>pr pv. vote_quorum d byz H' MSG_PREPARE pr pv \<and> (\<forall>s \<in> S. rc s \<le> pr)
               \<and> (\<exists>s \<in> S. rc s = pr) \<and> (pv = 0 \<or> u = pv))"
    using S(4) vote_quorum_mono [OF _ assms(2)] by blast
  moreover have "\<forall>s \<in> S. 0 \<le> rc s \<and> rc s < r \<and> (s \<in> byz \<or> (\<exists>h \<in> H'. h_type h = MSG_ROUND_CHANGE
            \<and> h_source h = s \<and> h_round h = r \<and> h_prepared_round h = rc s))"
    using S(3) assms(2) by blast
  ultimately show ?thesis using S(1,2) unfolding justified_proposal_def by blast
qed

lemma asys_inv_init: "asys_inv d byz cmp asys_init"
  by (simp add: asys_inv_def asys_init_def anode_init_def history_ok_def node_tracks_history_def)


lemma history_ok_extend:
  assumes ok: "history_ok d byz cmp H acc dec"
    and commits: "\<And>h. h \<in> S \<Longrightarrow> h_type h = MSG_COMMIT \<Longrightarrow>
        1 \<le> h_round h \<and> vote_quorum d byz H MSG_PREPARE (h_round h) (h_value h)"
    and locked: "\<And>h h'. h \<in> H \<union> S \<Longrightarrow> h' \<in> H \<union> S \<Longrightarrow> h \<in> S \<or> h' \<in> S \<Longrightarrow> h_source h = h_source h' \<Longrightarrow>
        h_type h = MSG_COMMIT \<Longrightarrow> h_type h' = MSG_ROUND_CHANGE \<Longrightarrow> h_round h < h_round h' \<Longrightarrow>
        h_round h \<le> h_prepared_round h'"
    and prepares: "\<And>h. h \<in> S \<Longrightarrow> h_type h = MSG_PREPARE \<Longrightarrow>
        (h_round h, h_value h) \<in> (acc(p := acc p \<union> A)) (h_source h) \<and> cmp (h_source h) (h_value h)"
    and accepted: "\<And>r u. (r, u) \<in> A \<Longrightarrow>
        r = 1 \<or> (\<exists>u'. (r - 1, u') \<in> acc p \<and> \<not> cmp p u') \<or> justified_proposal d byz H r u"
    and decided: "\<And>r v. (r, v) \<in> D \<Longrightarrow> vote_quorum d byz H MSG_COMMIT r v"
  shows "history_ok d byz cmp (H \<union> S) (acc(p := acc p \<union> A)) (dec(p := dec p \<union> D))"
proof -
  have vq: "vote_quorum d byz (H \<union> S) t r v" if "vote_quorum d byz H t r v" for t r v
    using vote_quorum_mono [OF that] by simp
  have jp: "justified_proposal d byz (H \<union> S) r u" if "justified_proposal d byz H r u" for r u
    using justified_proposal_mono [OF that] by simp
  note ok' = ok [unfolded history_ok_def]
  show ?thesis
    unfolding history_ok_def
  proof (intro conjI)
    show "\<forall>h\<in>H \<union> S. \<forall>h'\<in>H \<union> S. h_source h = h_source h' \<longrightarrow> h_type h = MSG_COMMIT \<longrightarrow>
        h_type h' = MSG_ROUND_CHANGE \<longrightarrow> h_round h < h_round h' \<longrightarrow> h_round h \<le> h_prepared_round h'"
      using ok' locked by blast
    show "\<forall>h\<in>H \<union> S. h_type h = MSG_COMMIT \<longrightarrow>
        1 \<le> h_round h \<and> vote_quorum d byz (H \<union> S) MSG_PREPARE (h_round h) (h_value h)"
      using ok' commits vq by blast
    show "\<forall>h\<in>H \<union> S. h_type h = MSG_PREPARE \<longrightarrow>
        (h_round h, h_value h) \<in> (acc(p := acc p \<union> A)) (h_source h) \<and> cmp (h_source h) (h_value h)"
    proof (intro ballI impI)
      fix h assume "h \<in> H \<union> S" "h_type h = MSG_PREPARE"
      then show "(h_round h, h_value h) \<in> (acc(p := acc p \<union> A)) (h_source h) \<and> cmp (h_source h) (h_value h)"
        using ok' prepares [of h] by (cases "h \<in> S") auto
    qed
    show "\<forall>p' r u. (r, u) \<in> (acc(p := acc p \<union> A)) p' \<longrightarrow> r = 1 \<or>
        (\<exists>u'. (r - 1, u') \<in> (acc(p := acc p \<union> A)) p' \<and> \<not> cmp p' u') \<or> justified_proposal d byz (H \<union> S) r u"
      using ok' accepted jp by (auto split: if_splits) metis+
    show "\<forall>p' r v. (r, v) \<in> (dec(p := dec p \<union> D)) p' \<longrightarrow> vote_quorum d byz (H \<union> S) MSG_COMMIT r v"
      using ok' decided vq by (auto split: if_splits)
  qed
qed

lemma anode_step_history:
  assumes "anode_step d byz cmp H p a S A D a'" "history_ok d byz cmp H acc dec"
    "node_tracks_history cmp H (acc p) p a"
  shows "history_ok d byz cmp (H \<union> S) (acc(p := acc p \<union> A)) (dec(p := dec p \<union> D))"
  using assms(1)
proof cases
  case Other
  then show ?thesis
    by (intro history_ok_extend [OF assms(2)]) auto
next
  case (Round_Change r v w)
  then show ?thesis
    using assms(3) by (intro history_ok_extend [OF assms(2)]) (auto simp: node_tracks_history_def)
next
  case (Accept r u x w)
  then show ?thesis
    using assms(3) by (intro history_ok_extend [OF assms(2)]) (auto simp: node_tracks_history_def)
next
  case (Accept_Fail r u)
  then show ?thesis
    using assms(3) by (intro history_ok_extend [OF assms(2)]) (auto simp: node_tracks_history_def)
next
  case (Commit v x w)
  then show ?thesis
    using assms(3) by (intro history_ok_extend [OF assms(2)]) (auto simp: node_tracks_history_def)
next
  case (Decide r v)
  then show ?thesis
    by (intro history_ok_extend [OF assms(2)]) auto
qed

lemma anode_step_tracks:
  assumes "anode_step d byz cmp H p a S A D a'" "node_tracks_history cmp H acc p a"
  shows "node_tracks_history cmp (H \<union> S) (acc \<union> A) p a'"
  using assms by cases (auto simp: node_tracks_history_def)

lemma anode_step_sources:
  assumes "anode_step d byz cmp H p a S A D a'" "h \<in> S"
    "h_type h \<in> {MSG_PREPARE, MSG_COMMIT, MSG_ROUND_CHANGE}"
  shows "h_source h = p"
  using assms by cases auto

lemma asys_reach_inv: "asys_reach d byz cmp s \<Longrightarrow> asys_inv d byz cmp s"
proof (induction rule: asys_reach.induct)
  case Init
  show ?case by (rule asys_inv_init)
next
  case (Step s p S A D a')
  have inv: "history_ok d byz cmp (as_headers s) (as_accepted s) (as_decided s)"
    "\<And>q. node_tracks_history cmp (as_headers s) (as_accepted s q) q (as_node s q)"
    using Step.IH by (simp_all add: asys_inv_def)
  have "node_tracks_history cmp (as_headers s \<union> S) (as_accepted s q) q (as_node s q)" if "q \<noteq> p" for q
    using inv(2) [of q] anode_step_sources [OF Step.hyps(3)] that
    by (fastforce simp: node_tracks_history_def)
  then show ?case
    using anode_step_history [OF Step.hyps(3) inv(1) inv(2)] anode_step_tracks [OF Step.hyps(3) inv(2)]
    by (simp add: asys_inv_def)
qed

section \<open>Agreement\<close>

definition no_equivocation :: "(int \<Rightarrow> (int \<times> 'v) set) \<Rightarrow> int set \<Rightarrow> bool" where
  "no_equivocation acc P \<longleftrightarrow> (\<forall>p \<in> P. \<forall>r u u'. (r, u) \<in> acc p \<longrightarrow> (r, u') \<in> acc p \<longrightarrow> u = u')"

lemma finite_processes [simp]: "finite (processes d)"
  by (simp add: processes_def)

lemma card_processes [simp]: "card (processes d) = nat (nodes d)"
  by (simp add: processes_def)


text \<open>The facts of one final state from which agreement follows.\<close>

definition safe_history ::
  "'i qbft_definition \<Rightarrow> int set \<Rightarrow> (int \<Rightarrow> 'v \<Rightarrow> bool) \<Rightarrow> ('v :: zero) header set
     \<Rightarrow> (int \<Rightarrow> (int \<times> 'v) set) \<Rightarrow> (int \<Rightarrow> (int \<times> 'v) set) \<Rightarrow> bool" where
  "safe_history d byz cmp H acc dec \<longleftrightarrow>
     valid_definition d \<and> card (byz \<inter> processes d) \<le> faulty_count d
   \<and> history_ok d byz cmp H acc dec \<and> no_equivocation acc (processes d - byz)"

lemma quorums_share_honest:
  assumes "safe_history d byz cmp H acc dec" "S \<subseteq> processes d" "S' \<subseteq> processes d"
    "quorum_count d \<le> card S" "quorum_count d \<le> card S'"
  shows "\<exists>p \<in> S \<inter> S'. p \<in> processes d - byz"
  using qbft.honest_in_intersection [of d "processes d" S S' byz] assms
  by (auto simp: safe_history_def)

lemma prepare_accepted:
  assumes "safe_history d byz cmp H acc dec" "voted byz H MSG_PREPARE p r v" "p \<notin> byz"
  shows "(r, v) \<in> acc p \<and> cmp p v"
  using assms by (auto simp: safe_history_def history_ok_def voted_def)

lemma accepted_unique:
  assumes "safe_history d byz cmp H acc dec" "p \<in> processes d - byz" "(r, u) \<in> acc p" "(r, u') \<in> acc p"
  shows "u = u'"
  using assms unfolding safe_history_def no_equivocation_def by blast

lemma prepare_quorum_unique:
  assumes "safe_history d byz cmp H acc dec"
    "vote_quorum d byz H MSG_PREPARE r v" "vote_quorum d byz H MSG_PREPARE r w"
  shows "v = w"
proof -
  from assms(2,3) obtain S S' where S: "S \<subseteq> processes d" "quorum_count d \<le> card S"
      "\<forall>s \<in> S. voted byz H MSG_PREPARE s r v"
    and S': "S' \<subseteq> processes d" "quorum_count d \<le> card S'" "\<forall>s \<in> S'. voted byz H MSG_PREPARE s r w"
    unfolding vote_quorum_def by blast
  obtain p where p: "p \<in> S" "p \<in> S'" "p \<in> processes d - byz"
    using quorums_share_honest [OF assms(1) S(1) S'(1) S(2) S'(2)] by blast
  have "(r, v) \<in> acc p" "(r, w) \<in> acc p"
    using prepare_accepted [OF assms(1)] S(3) S'(3) p by blast+
  then show ?thesis by (rule accepted_unique [OF assms(1) p(3)])
qed

lemma commit_quorum_prepared:
  assumes "safe_history d byz cmp H acc dec" "vote_quorum d byz H MSG_COMMIT r v"
  shows "1 \<le> r \<and> vote_quorum d byz H MSG_PREPARE r v"
proof -
  from assms(2) obtain S where S: "S \<subseteq> processes d" "quorum_count d \<le> card S"
    "\<forall>s \<in> S. voted byz H MSG_COMMIT s r v"
    unfolding vote_quorum_def by blast
  obtain p where p: "p \<in> S" "p \<in> processes d - byz"
    using quorums_share_honest [OF assms(1) S(1) S(1) S(2) S(2)] by blast
  with S(3) obtain h where "h \<in> H" "h_type h = MSG_COMMIT" "h_round h = r" "h_value h = v"
    unfolding voted_def by blast
  then show ?thesis using assms(1) unfolding safe_history_def history_ok_def by blast
qed

text \<open>A commit quorum for \<open>v\<close> in round \<open>r\<close> locks every later justified proposal to \<open>v\<close>, as
  long as the prepare quorums of the rounds in between are for \<open>v\<close>.\<close>

lemma justified_proposal_locked:
  assumes safe: "safe_history d byz cmp H acc dec" and commit: "vote_quorum d byz H MSG_COMMIT r v"
    and "v \<noteq> 0" and just: "justified_proposal d byz H r' u" and "r < r'"
    and between: "\<And>k w. r < k \<Longrightarrow> k < r' \<Longrightarrow> vote_quorum d byz H MSG_PREPARE k w \<Longrightarrow> w = v"
  shows "u = v"
proof -
  from commit obtain C where C: "C \<subseteq> processes d" "quorum_count d \<le> card C"
      "\<forall>s \<in> C. voted byz H MSG_COMMIT s r v"
    unfolding vote_quorum_def by blast
  from just obtain S rc where S: "S \<subseteq> processes d" "quorum_count d \<le> card S"
    "\<forall>s \<in> S. 0 \<le> rc s \<and> rc s < r' \<and> (s \<in> byz \<or> (\<exists>h \<in> H. h_type h = MSG_ROUND_CHANGE
            \<and> h_source h = s \<and> h_round h = r' \<and> h_prepared_round h = rc s))"
    and J: "(\<forall>s \<in> S. rc s = 0) \<or> (\<exists>pr pv. vote_quorum d byz H MSG_PREPARE pr pv \<and> (\<forall>s \<in> S. rc s \<le> pr)
               \<and> (\<exists>s \<in> S. rc s = pr) \<and> (pv = 0 \<or> u = pv))"
    unfolding justified_proposal_def by blast
  obtain p where p: "p \<in> S" "p \<in> C" "p \<notin> byz"
    using quorums_share_honest [OF safe S(1) C(1) S(2) C(2)] by blast
  from p C(3) obtain c where c: "c \<in> H" "h_type c = MSG_COMMIT" "h_source c = p" "h_round c = r"
    unfolding voted_def by blast
  from p S(3) obtain h where h: "h \<in> H" "h_type h = MSG_ROUND_CHANGE" "h_source h = p"
      "h_round h = r'" "h_prepared_round h = rc p"
    by blast
  have "1 \<le> r" using commit_quorum_prepared [OF safe commit] by simp
  have lock: "\<forall>h \<in> H. \<forall>h' \<in> H. h_source h = h_source h' \<longrightarrow> h_type h = MSG_COMMIT \<longrightarrow>
      h_type h' = MSG_ROUND_CHANGE \<longrightarrow> h_round h < h_round h' \<longrightarrow> h_round h \<le> h_prepared_round h'"
    using safe unfolding safe_history_def history_ok_def by blast
  have prepared: "r \<le> rc p"
    using lock [rule_format, OF c(1) h(1)] c h \<open>r < r'\<close> by simp
  with J p \<open>1 \<le> r\<close> obtain pr pv where pr: "vote_quorum d byz H MSG_PREPARE pr pv" "\<forall>s \<in> S. rc s \<le> pr"
      "\<exists>s \<in> S. rc s = pr" "pv = 0 \<or> u = pv"
    by fastforce
  have "r \<le> pr" "pr < r'" using pr(2,3) p(1) prepared S(3) by (force, blast)
  then have "pv = v"
    using between [OF _ _ pr(1)] prepare_quorum_unique [OF safe _ pr(1)]
      commit_quorum_prepared [OF safe commit] by (cases "pr = r") auto
  then show ?thesis using pr(4) \<open>v \<noteq> 0\<close> by blast
qed

text \<open>The lock itself, by induction on the distance from the deciding round: later prepare
  quorums are for the decided value, and the preparers of that value accept nothing else.\<close>

lemma accepted_locked:
  assumes safe: "safe_history d byz cmp H acc dec" and commit: "vote_quorum d byz H MSG_COMMIT r v"
    and "v \<noteq> 0" and "p \<in> processes d - byz" and prep: "voted byz H MSG_PREPARE p r v" and "r < r'"
    and acc: "(r', u) \<in> acc p"
    and before: "\<And>u'. r < r' - 1 \<Longrightarrow> (r' - 1, u') \<in> acc p \<Longrightarrow> u' = v"
    and between: "\<And>k w. r < k \<Longrightarrow> k < r' \<Longrightarrow> vote_quorum d byz H MSG_PREPARE k w \<Longrightarrow> w = v"
  shows "u = v"
proof -
  have pa: "(r, v) \<in> acc p" "cmp p v"
    using prepare_accepted [OF safe prep] assms(4) by auto
  have r1: "1 \<le> r" using commit_quorum_prepared [OF safe commit] by simp
  have "r' = 1 \<or> (\<exists>u'. (r' - 1, u') \<in> acc p \<and> \<not> cmp p u') \<or> justified_proposal d byz H r' u"
    using safe acc unfolding safe_history_def history_ok_def by blast
  then consider (fail) u' where "(r' - 1, u') \<in> acc p" "\<not> cmp p u'" | (just) "justified_proposal d byz H r' u"
    using r1 \<open>r < r'\<close> by auto
  then show ?thesis
  proof cases
    case fail
    have "u' = v"
    proof (cases "r' - 1 = r")
      case True
      then show ?thesis using accepted_unique [OF safe assms(4)] fail(1) pa(1) by blast
    next
      case False
      then show ?thesis using before fail(1) \<open>r < r'\<close> by simp
    qed
    then show ?thesis using fail(2) pa(2) by simp
  next
    case just
    then show ?thesis
      by (rule justified_proposal_locked [OF safe commit \<open>v \<noteq> 0\<close> _ \<open>r < r'\<close> between])
  qed
qed

lemma commit_locks:
  assumes safe: "safe_history d byz cmp H acc dec" and commit: "vote_quorum d byz H MSG_COMMIT r v"
    and "v \<noteq> 0"
  shows "(\<forall>w. vote_quorum d byz H MSG_PREPARE (r + 1 + int k) w \<longrightarrow> w = v)
       \<and> (\<forall>p u. p \<in> processes d - byz \<longrightarrow> voted byz H MSG_PREPARE p r v \<longrightarrow>
            (r + 1 + int k, u) \<in> acc p \<longrightarrow> u = v)"
proof (induction k rule: less_induct)
  case (less k)
  let ?r = "r + 1 + int k"
  have between: "w = v" if "r < j" "j < ?r" "vote_quorum d byz H MSG_PREPARE j w" for j w
    using less.IH [of "nat (j - r - 1)"] that by auto
  have before: "u' = v" if "p \<in> processes d - byz" "voted byz H MSG_PREPARE p r v"
      "r < ?r - 1" "(?r - 1, u') \<in> acc p" for p u'
    using less.IH [of "k - 1"] that by (auto simp: of_nat_diff)
  have accepted: "u = v" if "p \<in> processes d - byz" "voted byz H MSG_PREPARE p r v" "(?r, u) \<in> acc p" for p u
    by (rule accepted_locked [OF safe commit \<open>v \<noteq> 0\<close> that(1,2) _ that(3) before [OF that(1,2)] between]) auto
  have "w = v" if "vote_quorum d byz H MSG_PREPARE ?r w" for w
  proof -
    from that obtain S where S: "S \<subseteq> processes d" "quorum_count d \<le> card S"
        "\<forall>s \<in> S. voted byz H MSG_PREPARE s ?r w"
      unfolding vote_quorum_def by blast
    from commit_quorum_prepared [OF safe commit] obtain C where C: "C \<subseteq> processes d"
        "quorum_count d \<le> card C" "\<forall>s \<in> C. voted byz H MSG_PREPARE s r v"
      unfolding vote_quorum_def by blast
    obtain p where p: "p \<in> S" "p \<in> C" "p \<in> processes d - byz"
      using quorums_share_honest [OF safe S(1) C(1) S(2) C(2)] by blast
    have "(?r, w) \<in> acc p" using prepare_accepted [OF safe] S(3) p by blast
    then show ?thesis using accepted p C(3) by blast
  qed
  with accepted show ?case by blast
qed

lemma commit_quorums_agree:
  assumes safe: "safe_history d byz cmp H acc dec"
    and c: "vote_quorum d byz H MSG_COMMIT r v" "vote_quorum d byz H MSG_COMMIT r' v'" "v \<noteq> 0" "v' \<noteq> 0"
  shows "v = v'"
proof -
  have later: "w = u" if "vote_quorum d byz H MSG_COMMIT j u" "vote_quorum d byz H MSG_COMMIT k w"
      "u \<noteq> 0" "j < k" for j k u w
    using commit_locks [OF safe that(1,3), of "nat (k - j - 1)"] commit_quorum_prepared [OF safe that(2)]
      \<open>j < k\<close> by simp
  show ?thesis
  proof (cases r r' rule: linorder_cases)
    case less
    then show ?thesis using later [OF c(1,2,3)] by simp
  next
    case equal
    then show ?thesis
      using prepare_quorum_unique [OF safe] commit_quorum_prepared [OF safe] c by blast
  next
    case greater
    then show ?thesis using later [OF c(2,1,4)] by simp
  qed
qed

lemma abstract_agreement:
  assumes "asys_reach d byz cmp s" "valid_definition d" "card (byz \<inter> processes d) \<le> faulty_count d"
    "no_equivocation (as_accepted s) (processes d - byz)"
    "(r, v) \<in> as_decided s p" "(r', v') \<in> as_decided s p'" "v \<noteq> 0" "v' \<noteq> 0"
  shows "v = v'"
proof -
  have inv: "history_ok d byz cmp (as_headers s) (as_accepted s) (as_decided s)"
    using asys_reach_inv [OF assms(1)] by (simp add: asys_inv_def)
  then have safe: "safe_history d byz cmp (as_headers s) (as_accepted s) (as_decided s)"
    using assms(2-4) by (simp add: safe_history_def)
  have "vote_quorum d byz (as_headers s) MSG_COMMIT r v" "vote_quorum d byz (as_headers s) MSG_COMMIT r' v'"
    using inv assms(5,6) unfolding history_ok_def by blast+
  then show ?thesis by (rule commit_quorums_agree [OF safe _ _ assms(7,8)])
qed

end
