(* ===== verification/Qbft_System.thy ===== *)
theory Qbft_System
  imports Qbft_Run Qbft_Agreement
begin

text \<open>
  A cluster of processes that run the QBFT core. Honest processes execute the state machine
  of \<open>Qbft_Run\<close>; up to the tolerated number of processes is faulty and may send anything
  under its own identity. The state machine implements the voting protocol of
  \<open>Qbft_Agreement\<close>, which gives agreement on the decided value.
\<close>

section \<open>Messages on the wire\<close>

definition header_of :: "'v msg \<Rightarrow> 'v header" where
  "header_of m = Header (m_type m) (m_source m) (m_round m) (m_value m) (m_prepared_round m) (m_prepared_value m)"

fun header_of_action :: "'v action \<Rightarrow> 'v header set" where
  "header_of_action (Broadcast rq) =
     {Header (rq_type rq) (rq_source rq) (rq_round rq) (rq_value rq) (rq_prepared_round rq) (rq_prepared_value rq)}"
| "header_of_action _ = {}"

definition headers_of :: "'v action list \<Rightarrow> 'v header set" where
  "headers_of os = \<Union> (header_of_action ` set os)"

fun decision_of_action :: "'v action \<Rightarrow> 'v set" where
  "decision_of_action (Decide v js) = {v}"
| "decision_of_action _ = {}"

definition decisions_of :: "'v action list \<Rightarrow> 'v set" where
  "decisions_of os = \<Union> (decision_of_action ` set os)"

text \<open>Signatures: a message that names an honest process as its source was signed by it.\<close>

definition authentic :: "'i qbft_definition \<Rightarrow> int set \<Rightarrow> 'v header set \<Rightarrow> 'v msg \<Rightarrow> bool" where
  "authentic d byz H m \<longleftrightarrow> m_source m \<in> processes d \<and> in_i64 (m_round m)
     \<and> (m_source m \<in> byz \<or> header_of m \<in> H)"

text \<open>The wire format carries one level of justification.\<close>

definition deliverable :: "'i qbft_definition \<Rightarrow> int set \<Rightarrow> 'v header set \<Rightarrow> 'v msg \<Rightarrow> bool" where
  "deliverable d byz H m \<longleftrightarrow> authentic d byz H m
     \<and> (\<forall>j \<in> set (m_justification m). authentic d byz H j \<and> m_justification j = [])"

fun event_deliverable :: "'i qbft_definition \<Rightarrow> int set \<Rightarrow> 'v header set \<Rightarrow> 'v qevent \<Rightarrow> bool" where
  "event_deliverable d byz H (EvRecv m) = deliverable d byz H m"
| "event_deliverable d byz H _ = True"

text \<open>The compare callback of process \<open>p\<close> accepts exactly the values in \<open>cmp p\<close>, whenever it
  answers.\<close>

definition compare_agrees :: "('v \<Rightarrow> bool) \<Rightarrow> ('v, 'c) qenv \<Rightarrow> bool" where
  "compare_agrees ok env \<longleftrightarrow> (\<forall>m src.
     (snd (compare env m src) = Inr () \<longrightarrow> ok (m_value m))
   \<and> (snd (compare env m src) = Inl CompareError \<longrightarrow> \<not> ok (m_value m)))"

fun proposals_of :: "'v qevent \<Rightarrow> (int \<times> 'v) set" where
  "proposals_of (EvRecv m) = (if m_type m = MSG_PRE_PREPARE then {(m_round m, m_value m)} else {})"
| "proposals_of _ = {}"

section \<open>The cluster\<close>

record ('v, 'c) sys =
  s_node :: "int \<Rightarrow> ('v, 'c) qstate option"
  s_started :: "int set"
  s_headers :: "'v header set"
  s_proposals :: "int \<Rightarrow> (int \<times> 'v) set"
  s_decided :: "int \<Rightarrow> 'v set"

definition sys_init :: "('v, 'c) sys" where
  "sys_init = \<lparr>s_node = (\<lambda>_. None), s_started = {}, s_headers = {}, s_proposals = (\<lambda>_. {}), s_decided = (\<lambda>_. {})\<rparr>"

definition sys_update :: "int \<Rightarrow> ('v, 'c) flow \<Rightarrow> (int \<times> 'v) set \<Rightarrow> ('v, 'c) sys \<Rightarrow> ('v, 'c) sys" where
  "sys_update p fl R s =
     s\<lparr>s_node := (s_node s)(p := (case snd fl of Inl e \<Rightarrow> None | Inr st \<Rightarrow> Some st)),
       s_started := insert p (s_started s),
       s_headers := s_headers s \<union> headers_of (fst fl),
       s_proposals := (s_proposals s)(p := s_proposals s p \<union> R),
       s_decided := (s_decided s)(p := s_decided s p \<union> decisions_of (fst fl))\<rparr>"

inductive sys_reach ::
  "'i qbft_definition \<Rightarrow> 'i \<Rightarrow> int set \<Rightarrow> (int \<Rightarrow> 'v \<Rightarrow> bool) \<Rightarrow> ('v :: zero, 'c) sys \<Rightarrow> bool"
  for d inst byz cmp where
  Init: "sys_reach d inst byz cmp sys_init"
| Start: "\<lbrakk>sys_reach d inst byz cmp s; p \<in> processes d - byz; p \<notin> s_started s\<rbrakk>
    \<Longrightarrow> sys_reach d inst byz cmp (sys_update p (qbft_start d env inst p src) {} s)"
| Step: "\<lbrakk>sys_reach d inst byz cmp s; p \<in> processes d - byz; s_node s p = Some st;
      event_deliverable d byz (s_headers s) ev; compare_agrees (cmp p) env\<rbrakk>
    \<Longrightarrow> sys_reach d inst byz cmp (sys_update p (qbft_step d env inst p ev st) (proposals_of ev) s)"

section \<open>Schedules\<close>

text \<open>A schedule is a list of starts and events; running one checks that every delivered
  message is authentic.\<close>

datatype ('v, 'c) sched =
    Begin int "('v, 'c) qenv" 'c
  | Handle int "('v, 'c) qenv" "'v qevent"

fun sched_env :: "('v, 'c) sched \<Rightarrow> int \<times> ('v, 'c) qenv" where
  "sched_env (Begin p env src) = (p, env)"
| "sched_env (Handle p env ev) = (p, env)"

fun sys_run ::
  "'i qbft_definition \<Rightarrow> 'i \<Rightarrow> int set \<Rightarrow> ('v :: zero, 'c) sched list \<Rightarrow> ('v, 'c) sys \<Rightarrow> ('v, 'c) sys option" where
  "sys_run d inst byz [] s = Some s"
| "sys_run d inst byz (Begin p env src # xs) s =
     (if p \<in> processes d - byz \<and> p \<notin> s_started s
      then sys_run d inst byz xs (sys_update p (qbft_start d env inst p src) {} s) else None)"
| "sys_run d inst byz (Handle p env ev # xs) s =
     (case s_node s p of
        None \<Rightarrow> None
      | Some st \<Rightarrow>
          if p \<in> processes d - byz \<and> event_deliverable d byz (s_headers s) ev
          then sys_run d inst byz xs (sys_update p (qbft_step d env inst p ev st) (proposals_of ev) s)
          else None)"

text \<open>An environment in which every broadcast succeeds and every comparison accepts.\<close>

definition plain_env :: "(int, unit) qenv" where
  "plain_env = \<lparr>e_broadcast = (\<lambda>_. None), e_compare = (\<lambda>_ _. CmpTrace [] (CmpErr [] False False)),
     e_order = (\<lambda>_ n. [0..<n])\<rparr>"

text \<open>Four processes; process 3 is faulty and leads round 2.\<close>

definition four_nodes :: "unit qbft_definition" where
  "four_nodes = \<lparr>is_leader = (\<lambda>_ r p. p = (1 + r) mod 4), nodes = 4, fifo_limit = 100\<rparr>"

definition votes :: "int \<Rightarrow> int \<Rightarrow> int \<Rightarrow> int list \<Rightarrow> int msg list" where
  "votes t r v ss = map (\<lambda>s. Msg t s r v 0 0 []) ss"

definition recvs :: "int \<Rightarrow> int msg list \<Rightarrow> (int, unit) sched list" where
  "recvs p ms = map (\<lambda>m. Handle p plain_env (EvRecv m)) ms"

text \<open>A run in which processes 0 and 1 decide the value 7 in round 1.\<close>

definition happy_run :: "(int, unit) sched list" where
  "happy_run = map (\<lambda>p. Begin p plain_env ()) [0, 1, 2] @ [Handle 2 plain_env (EvInput 7)]
     @ concat (map (\<lambda>p. recvs p [Msg MSG_PRE_PREPARE 2 1 7 0 0 []]) [0, 1, 2])
     @ concat (map (\<lambda>p. recvs p (votes MSG_PREPARE 1 7 [0, 1, 2])) [0, 1, 2])
     @ concat (map (\<lambda>p. recvs p (votes MSG_COMMIT 1 7 [0, 1, 2])) [0, 1])"

text \<open>A run in which the faulty leader of round 2 sends the PRE-PREPAREs of 7 and 9 to process
  2, which is still in round 1, the one of 7 to process 1 and the one of 9 to process 0.\<close>

definition equivocal_pre_prepare :: "int \<Rightarrow> int msg" where
  "equivocal_pre_prepare v =
     Msg MSG_PRE_PREPARE 3 2 v 0 0 (map (\<lambda>s. Msg MSG_ROUND_CHANGE s 2 0 0 0 []) [0, 1, 3])"

definition third_round_changes :: "int msg list" where
  "third_round_changes =
     [Msg MSG_ROUND_CHANGE 3 3 0 0 0 [],
      Msg MSG_ROUND_CHANGE 2 3 0 2 7 (votes MSG_PREPARE 2 7 [1, 2, 3]),
      Msg MSG_ROUND_CHANGE 0 3 0 2 9 (votes MSG_PREPARE 2 9 [0, 2, 3])]"

definition third_pre_prepare :: "int msg" where
  "third_pre_prepare = Msg MSG_PRE_PREPARE 0 3 9 0 0
     ([Msg MSG_ROUND_CHANGE 3 3 0 0 0 [], Msg MSG_ROUND_CHANGE 2 3 0 2 7 [], Msg MSG_ROUND_CHANGE 0 3 0 2 9 []]
      @ votes MSG_PREPARE 2 9 [0, 2, 3])"

definition equivocation_run :: "(int, unit) sched list" where
  "equivocation_run = map (\<lambda>p. Begin p plain_env ()) [0, 1, 2]
     @ [Handle 0 plain_env EvTimer, Handle 1 plain_env EvTimer]
     @ recvs 2 [equivocal_pre_prepare 7, equivocal_pre_prepare 9]
     @ recvs 1 [equivocal_pre_prepare 7] @ recvs 0 [equivocal_pre_prepare 9]
     @ recvs 1 (votes MSG_PREPARE 2 7 [1, 2, 3]) @ recvs 2 (votes MSG_PREPARE 2 7 [1, 2, 3])
     @ recvs 0 (votes MSG_PREPARE 2 9 [0, 2, 3]) @ recvs 1 (votes MSG_COMMIT 2 7 [1, 2, 3])
     @ [Handle 0 plain_env EvTimer, Handle 2 plain_env EvTimer]
     @ recvs 0 third_round_changes @ recvs 0 [third_pre_prepare] @ recvs 2 [third_pre_prepare]
     @ recvs 0 (votes MSG_PREPARE 3 9 [0, 2, 3]) @ recvs 2 (votes MSG_PREPARE 3 9 [0, 2, 3])
     @ recvs 0 (votes MSG_COMMIT 3 9 [0, 2, 3])"

section \<open>The abstraction\<close>

definition decided :: "('v, 'c) qstate \<Rightarrow> bool" where
  "decided st \<longleftrightarrow> (case q_commit st of Some (c # cs) \<Rightarrow> True | _ \<Rightarrow> False)"

definition abs_node :: "('v, 'c) qstate \<Rightarrow> anode" where
  "abs_node st = \<lparr>a_round = q_round st, a_prepared_round = q_prepared_round st,
     a_compare_failure_round = q_compare_failure_round st, a_done = decided st\<rparr>"

definition buffer_ok :: "'i qbft_definition \<Rightarrow> int set \<Rightarrow> 'v header set \<Rightarrow> 'v buffer \<Rightarrow> bool" where
  "buffer_ok d byz H buf \<longleftrightarrow> (\<forall>(src, ms) \<in> set buf. \<forall>m \<in> set ms. deliverable d byz H m)"

definition node_ok :: "'i qbft_definition \<Rightarrow> int set \<Rightarrow> 'v header set \<Rightarrow> ('v, 'c) qstate \<Rightarrow> bool" where
  "node_ok d byz H st \<longleftrightarrow> buffer_ok d byz H (q_buffer st) \<and> distinct (keys (q_buffer st))
     \<and> (decided st \<longrightarrow> q_timer st = None)"

text \<open>A flow of the state machine from \<open>st\<close> is a step of the abstract node.\<close>

definition simulates ::
  "'i qbft_definition \<Rightarrow> int set \<Rightarrow> (int \<Rightarrow> 'v \<Rightarrow> bool) \<Rightarrow> ('v :: zero) header set \<Rightarrow> int \<Rightarrow> (int \<times> 'v) set
     \<Rightarrow> anode \<Rightarrow> ('v, 'c) flow \<Rightarrow> bool" where
  "simulates d byz cmp H p R a fl \<longleftrightarrow>
     (\<exists>A D a'. anode_step d byz cmp H p a (headers_of (fst fl)) A D a' \<and> A \<subseteq> R
        \<and> decisions_of (fst fl) \<subseteq> snd ` D
        \<and> (\<forall>st'. snd fl = Inr st' \<longrightarrow> a' = abs_node st' \<and> node_ok d byz (H \<union> headers_of (fst fl)) st'))"

section \<open>Quorums of received messages\<close>

lemma headers_of_simps [simp]:
  "headers_of [] = {}" "headers_of (x # xs) = header_of_action x \<union> headers_of xs"
  "headers_of (xs @ ys) = headers_of xs \<union> headers_of ys"
  by (auto simp: headers_of_def)

lemma decisions_of_simps [simp]:
  "decisions_of [] = {}" "decisions_of (x # xs) = decision_of_action x \<union> decisions_of xs"
  "decisions_of (xs @ ys) = decisions_of xs \<union> decisions_of ys"
  by (auto simp: decisions_of_def)

lemma authentic_mono: "authentic d byz H m \<Longrightarrow> authentic d byz (H \<union> S) m"
  by (auto simp: authentic_def)

lemma deliverable_mono: "deliverable d byz H m \<Longrightarrow> deliverable d byz (H \<union> S) m"
  by (simp add: deliverable_def authentic_mono)

lemma buffer_ok_mono: "buffer_ok d byz H b \<Longrightarrow> buffer_ok d byz (H \<union> S) b"
  by (auto simp: buffer_ok_def deliverable_mono)

lemma vote_quorumI:
  assumes "distinct (map m_source ms)" "quorum_count d \<le> length ms"
    and ms: "\<And>m. m \<in> set ms \<Longrightarrow> authentic d byz H m \<and> m_type m = t \<and> m_round m = r \<and> m_value m = v"
  shows "vote_quorum d byz H t r v"
  unfolding vote_quorum_def
proof (intro exI conjI)
  show "m_source ` set ms \<subseteq> processes d" using ms by (auto simp: authentic_def)
  show "quorum_count d \<le> card (m_source ` set ms)"
    using assms(2) distinct_length_card_image [OF assms(1)] by simp
  have "voted byz H t (m_source m) r v" if "m \<in> set ms" for m
    using ms [OF that] by (fastforce simp: authentic_def voted_def header_of_def)
  then show "\<forall>s \<in> m_source ` set ms. voted byz H t s r v" by blast
qed

lemma filter_vote_quorum:
  assumes "\<And>m. m \<in> set all \<Longrightarrow> authentic d byz H m"
    and "quorum_count d \<le> length (filter_msgs all t r (Some v) None None)"
  shows "vote_quorum d byz H t r v"
  using distinct_filter_msgs assms(2)
proof (rule vote_quorumI)
  fix m assume "m \<in> set (filter_msgs all t r (Some v) None None)"
  then show "authentic d byz H m \<and> m_type m = t \<and> m_round m = r \<and> m_value m = v"
    using assms(1) filter_msgsD(1-4) by metis
qed

lemma source_choice:
  assumes "distinct (map m_source ms)"
  obtains f where "\<And>m. m \<in> set ms \<Longrightarrow> f (m_source m) = m"
proof -
  have "inj_on m_source (set ms)" using assms by (simp add: distinct_map)
  then have "the_inv_into (set ms) m_source (m_source m) = m" if "m \<in> set ms" for m
    using that by (rule the_inv_into_f_f)
  then show thesis by (rule that)
qed


lemma contains_justified_qrc_proposal:
  assumes auth: "\<And>m. m \<in> set js \<Longrightarrow> authentic d byz H m"
    and qrc: "contains_justified_qrc d js r = Some w" and w: "w = 0 \<or> u = w"
  shows "justified_proposal d byz H r u"
proof -
  define q where "q = filter valid_round_change_prepared_round (filter_round_change js r)"
  have q: "m \<in> set js \<and> m_type m = MSG_ROUND_CHANGE \<and> m_round m = r \<and> 0 \<le> m_prepared_round m \<and> m_prepared_round m < r"
    if "m \<in> set q" for m
    using that filter_msgsD(1-3) [of m js MSG_ROUND_CHANGE r None None None]
    by (auto simp: q_def filter_round_change_def valid_round_change_prepared_round_def)
  have dist: "distinct (map m_source q)"
    unfolding q_def filter_round_change_def by (rule distinct_map_filter) (rule distinct_filter_msgs)
  obtain f where f: "\<And>m. m \<in> set q \<Longrightarrow> f (m_source m) = m"
    using source_choice [OF dist] by blast
  define rc where "rc s = m_prepared_round (f s)" for s
  have rc: "rc (m_source m) = m_prepared_round m" if "m \<in> set q" for m
    using f [OF that] by (simp add: rc_def)
  have len: "quorum_count d \<le> length q"
    and J: "(\<forall>m \<in> set q. m_prepared_round m = 0) \<or>
      (\<exists>pr. get_single_justified_pr_pv d js = Some (pr, w) \<and> (\<forall>m \<in> set q. m_prepared_round m \<le> pr)
         \<and> (\<exists>m \<in> set q. m_prepared_round m = pr))"
    using qrc unfolding contains_justified_qrc_def q_def [symmetric]
    by (auto simp: Let_def list_all_iff list_ex_iff not_less split: if_splits option.splits prod.splits)
  have votes: "vote_quorum d byz H MSG_PREPARE pr w" if "get_single_justified_pr_pv d js = Some (pr, w)" for pr
    using get_single_justified_pr_pvD [OF that] auth by (intro vote_quorumI) auto
  show ?thesis
    unfolding justified_proposal_def
  proof (intro exI [of _ "m_source ` set q"] exI [of _ rc] conjI)
    show "m_source ` set q \<subseteq> processes d" using q auth by (auto simp: authentic_def)
    show "quorum_count d \<le> card (m_source ` set q)"
      using len distinct_length_card_image [OF dist] by simp
    have "0 \<le> rc (m_source m) \<and> rc (m_source m) < r \<and> (m_source m \<in> byz \<or> (\<exists>h \<in> H. h_type h = MSG_ROUND_CHANGE
       \<and> h_source h = m_source m \<and> h_round h = r \<and> h_prepared_round h = rc (m_source m)))" if "m \<in> set q" for m
      using q [OF that] auth [of m] by (fastforce simp: rc [OF that] authentic_def header_of_def)
    then show "\<forall>s \<in> m_source ` set q. 0 \<le> rc s \<and> rc s < r \<and> (s \<in> byz \<or> (\<exists>h \<in> H. h_type h = MSG_ROUND_CHANGE
       \<and> h_source h = s \<and> h_round h = r \<and> h_prepared_round h = rc s))" by blast
    show "(\<forall>s \<in> m_source ` set q. rc s = 0) \<or> (\<exists>pr pv. vote_quorum d byz H MSG_PREPARE pr pv
       \<and> (\<forall>s \<in> m_source ` set q. rc s \<le> pr) \<and> (\<exists>s \<in> m_source ` set q. rc s = pr) \<and> (pv = 0 \<or> u = pv))"
      using J
    proof (elim disjE exE conjE)
      assume "\<forall>m \<in> set q. m_prepared_round m = 0"
      then show ?thesis using rc by simp
    next
      fix pr
      assume "get_single_justified_pr_pv d js = Some (pr, w)" "\<forall>m \<in> set q. m_prepared_round m \<le> pr"
        "\<exists>m \<in> set q. m_prepared_round m = pr"
      then show ?thesis
        using votes w rc by (intro disjI2 exI [of _ pr] exI [of _ w]) auto
    qed
  qed
qed

lemma pre_prepare_justified:
  assumes "is_justified d inst m cfr = Inr True" "m_type m = MSG_PRE_PREPARE" "deliverable d byz H m"
  shows "m_round m = 1 \<or> m_round m = cfr + 1 \<or> justified_proposal d byz H (m_round m) (m_value m)"
  using assms contains_justified_qrc_proposal [of "m_justification m" d byz H "m_round m" _ "m_value m"]
  by (auto simp: is_justified_def is_justified_pre_prepare_def deliverable_def checked_add_i64_def
      split: if_splits option.splits)

lemma decided_justified:
  assumes "is_justified d inst m cfr = Inr True" "m_type m = MSG_DECIDED" "deliverable d byz H m"
    and "0 < quorum_count d"
  shows "vote_quorum d byz H MSG_COMMIT (m_round m) (m_value m) \<and> m_justification m \<noteq> []"
  using assms filter_vote_quorum [of "m_justification m" d byz H MSG_COMMIT "m_round m" "m_value m"]
  by (auto simp: is_justified_def is_justified_decided_def deliverable_def filter_msgs_def uniq_source_def)

lemma flatten_authentic:
  assumes "flatten ord buf = Inr all" "buffer_ok d byz H buf" "m \<in> set all"
  shows "authentic d byz H m"
  using flatten_Inr [OF assms(1,3)] assms(2) by (fastforce simp: buffer_ok_def deliverable_def)

text \<open>What each rule of the classification stands for.\<close>

lemma classify_pre_prepare:
  assumes "classify d ord inst r p buf m = Inr (UPON_JUSTIFIED_PRE_PREPARE, js)"
  shows "m_type m = MSG_PRE_PREPARE \<and> r \<le> m_round m"
  using assms by (auto simp: classify_def res_bind_def Let_def split: if_splits sum.splits option.splits)

lemma classify_quorum_prepares:
  assumes "classify d ord inst r p buf m = Inr (UPON_QUORUM_PREPARES, js)" "buffer_ok d byz H buf"
  shows "m_round m = r \<and> vote_quorum d byz H MSG_PREPARE r (m_value m)"
proof -
  from assms(1) obtain all where "flatten ord buf = Inr all" "m_round m = r"
    "quorum_count d \<le> length (filter_by_round_and_value all MSG_PREPARE (m_round m) (m_value m))"
    by (auto simp: classify_def res_bind_def Let_def split: if_splits sum.splits option.splits)
  then show ?thesis
    using filter_vote_quorum [OF flatten_authentic [OF _ assms(2)]] by (simp add: filter_by_round_and_value_def)
qed

lemma classify_quorum_commits:
  assumes "classify d ord inst r p buf m = Inr (UPON_QUORUM_COMMITS, js)" "buffer_ok d byz H buf" "0 < quorum_count d"
  shows "vote_quorum d byz H MSG_COMMIT (m_round m) (m_value m) \<and> (\<exists>c cs. js = Some (c # cs))"
proof -
  from assms(1) obtain all where all: "flatten ord buf = Inr all"
    "js = Some (filter_by_round_and_value all MSG_COMMIT (m_round m) (m_value m))"
    "quorum_count d \<le> length (filter_by_round_and_value all MSG_COMMIT (m_round m) (m_value m))"
    by (auto simp: classify_def res_bind_def Let_def split: if_splits sum.splits option.splits)
  moreover have "filter_by_round_and_value all MSG_COMMIT (m_round m) (m_value m) \<noteq> []"
    using all(3) assms(3) by auto
  ultimately show ?thesis
    using filter_vote_quorum [OF flatten_authentic [OF all(1) assms(2)]]
    by (simp add: filter_by_round_and_value_def neq_Nil_conv)
qed

lemma classify_justified_decided:
  assumes "classify d ord inst r p buf m = Inr (UPON_JUSTIFIED_DECIDED, js)"
  shows "m_type m = MSG_DECIDED \<and> js = Some (m_justification m)"
  using assms by (auto simp: classify_def res_bind_def Let_def split: if_splits sum.splits option.splits)

lemma classify_fplus1:
  assumes "classify d ord inst r p buf m = Inr (UPON_F_PLUS1_ROUND_CHANGES, js)" "buffer_ok d byz H buf"
    "valid_definition d"
  shows "\<exists>frc r'. js = Some frc \<and> next_min_round d frc r = Inr r' \<and> r < r'"
proof -
  from assms(1) obtain all frc where all: "flatten ord buf = Inr all" "js = Some frc"
    "get_fplus1_round_changes d ord all r = Some frc"
    by (auto simp: classify_def res_bind_def Let_def split: if_splits sum.splits option.splits dest: sym)
  have "\<forall>m \<in> set frc. m_round m \<le> i64_max"
    using get_fplus1_round_changesD(3) [OF all(3)] flatten_authentic [OF all(1) assms(2)]
    by (auto simp: authentic_def in_i64_def)
  then show ?thesis using next_min_round_Inr [OF assms(3) all(3)] all(2) by metis
qed


section \<open>The state machine implements the abstract protocol\<close>

lemma node_ok_mono: "node_ok d byz H st \<Longrightarrow> node_ok d byz (H \<union> S) st"
  by (simp add: node_ok_def buffer_ok_mono)

lemma simulatesI:
  assumes "anode_step d byz cmp H p a S A D a'" "headers_of (fst fl) = S" "A \<subseteq> R"
    "decisions_of (fst fl) \<subseteq> snd ` D"
    "\<And>st'. snd fl = Inr st' \<Longrightarrow> a' = abs_node st' \<and> node_ok d byz H st'"
  shows "simulates d byz cmp H p R a fl"
  using assms node_ok_mono unfolding simulates_def by blast

text \<open>A flow that signs no vote and leaves the abstract state alone.\<close>

lemma simulates_other:
  assumes "\<forall>h \<in> headers_of (fst fl). h_type h \<notin> {MSG_PREPARE, MSG_COMMIT, MSG_ROUND_CHANGE}"
    "decisions_of (fst fl) = {}"
    "\<And>st'. snd fl = Inr st' \<Longrightarrow> abs_node st' = a \<and> node_ok d byz H st'"
  shows "simulates d byz cmp H p R a fl"
  by (rule simulatesI [OF anode_step.Other [OF assms(1)] refl]) (use assms(2,3) in auto)

lemma broadcast_msg_simps [simp]:
  "fst (broadcast_msg env p t v js st) = [Broadcast (Request t p (q_round st) v 0 0 js)]"
  "snd (broadcast_msg env p t v js st) = Inr st' \<Longrightarrow> st' = st"
  by (auto simp: broadcast_msg_def Let_def split: option.splits)

lemma broadcast_round_change_simps [simp]:
  "fst (broadcast_round_change env p st) =
     [Broadcast (Request MSG_ROUND_CHANGE p (q_round st) 0 (q_prepared_round st) (q_prepared_value st) (q_prepared_justification st))]"
  "snd (broadcast_round_change env p st) = Inr st' \<Longrightarrow> st' = st"
  by (auto simp: broadcast_round_change_def Let_def split: option.splits)

lemma flow_bind_simps [simp]:
  "flow_bind (os, Inr st) f = (os @ fst (f st), snd (f st))"
  "flow_bind (os, Inl e) f = (os, Inl e)"
  by (simp_all add: flow_bind_def split: prod.splits)

text \<open>The state after a change of round and a restart of the timer.\<close>

definition enter_round :: "int \<Rightarrow> ('v, 'c) qstate \<Rightarrow> ('v, 'c) qstate" where
  "enter_round r st = (if q_round st = r then st else st\<lparr>q_round := r, q_dedup_rules := [], q_ppj_cache := None\<rparr>)"

lemma enter_round_simps [simp]:
  "q_round (enter_round r st) = r" "q_prepared_round (enter_round r st) = q_prepared_round st"
  "q_compare_failure_round (enter_round r st) = q_compare_failure_round st"
  "q_commit (enter_round r st) = q_commit st" "q_buffer (enter_round r st) = q_buffer st"
  "q_timer (enter_round r st) = q_timer st"
  "q_input_value_source (enter_round r st) = q_input_value_source st"
  by (simp_all add: enter_round_def)

lemma change_round_then:
  "\<exists>l. headers_of l = {} \<and> decisions_of l = {} \<and>
     flow_bind (change_round env r rule st) f = (l @ fst (f (enter_round r st)), snd (f (enter_round r st)))"
proof (cases "q_round st = r")
  case True
  then show ?thesis by (intro exI [of _ "[]"]) (simp add: change_round_def enter_round_def)
next
  case False
  then show ?thesis
    by (intro exI [of _ "fst (change_round env r rule st)"]) (simp add: change_round_def enter_round_def)
qed

lemma restart_timer_then:
  "flow_bind (restart_timer st) f =
     (StopTimer # NewTimer (q_round st) # fst (f (st\<lparr>q_timer := Some (q_round st)\<rparr>)),
      snd (f (st\<lparr>q_timer := Some (q_round st)\<rparr>)))"
  by (simp add: restart_timer_def)

text \<open>A change of round, a restart of the timer and then some continuation.\<close>

lemma new_round_then:
  "\<exists>l. headers_of l = {} \<and> decisions_of l = {} \<and>
     flow_bind (change_round env r rule st) (\<lambda>st. flow_bind (restart_timer st) f) =
       (l @ fst (f (enter_round r st\<lparr>q_timer := Some r\<rparr>)), snd (f (enter_round r st\<lparr>q_timer := Some r\<rparr>)))"
proof -
  obtain l where "headers_of l = {}" "decisions_of l = {}"
    "flow_bind (change_round env r rule st) (\<lambda>st. flow_bind (restart_timer st) f) =
      (l @ fst (flow_bind (restart_timer (enter_round r st)) f), snd (flow_bind (restart_timer (enter_round r st)) f))"
    using change_round_then by blast
  then show ?thesis
    by (intro exI [of _ "l @ [StopTimer, NewTimer r]"]) (simp add: restart_timer_then)
qed

lemma decided_simps [simp]:
  "decided (st\<lparr>q_timer := t\<rparr>) = decided st" "decided (enter_round r st) = decided st"
  "decided (st\<lparr>q_input_value_source := src\<rparr>) = decided st"
  "decided (st\<lparr>q_compare_failure_round := x\<rparr>) = decided st"
  "decided (st\<lparr>q_dedup_rules := ds\<rparr>) = decided st"
  "decided (st\<lparr>q_commit := Some (c # cs)\<rparr>)"
  by (simp_all add: decided_def)

text \<open>A round change, from a state whose round was last recorded as \<open>x\<close>.\<close>

lemma round_change_simulates:
  assumes "\<not> decided st" "node_ok d byz H st" "x < r"
  shows "simulates d byz cmp H p R ((abs_node st)\<lparr>a_round := x\<rparr>)
    (flow_bind (change_round env r rule st) (\<lambda>st. flow_bind (restart_timer st) (broadcast_round_change env p)))"
proof -
  let ?st = "enter_round r st\<lparr>q_timer := Some r\<rparr>"
  obtain l where l: "headers_of l = {}" "decisions_of l = {}"
    "flow_bind (change_round env r rule st) (\<lambda>st. flow_bind (restart_timer st) (broadcast_round_change env p))
      = (l @ fst (broadcast_round_change env p ?st), snd (broadcast_round_change env p ?st))"
    using new_round_then by blast
  have step: "anode_step d byz cmp H p ((abs_node st)\<lparr>a_round := x\<rparr>)
      {Header MSG_ROUND_CHANGE p r 0 (a_prepared_round ((abs_node st)\<lparr>a_round := x\<rparr>)) (q_prepared_value ?st)} {} {}
      ((abs_node st)\<lparr>a_round := x\<rparr>\<lparr>a_round := r\<rparr>)"
    using assms by (intro anode_step.Round_Change) (auto simp: abs_node_def)
  show ?thesis
    unfolding l(3)
    by (rule simulatesI [OF step])
      (use assms l(1,2) in \<open>auto simp: abs_node_def node_ok_def dest!: broadcast_round_change_simps(2)\<close>)
qed

lemma round_timeout_simulates:
  assumes "\<not> decided st" "node_ok d byz H st" "x \<le> q_round st"
  shows "simulates d byz cmp H p R ((abs_node st)\<lparr>a_round := x\<rparr>) (on_round_timeout env p st)"
proof (cases "checked_add_i64 (q_round st) 1")
  case None
  then show ?thesis by (intro simulates_other) (auto simp: on_round_timeout_def)
next
  case (Some r)
  then have "x < r" using assms(3) by (auto simp: checked_add_i64_def split: if_splits)
  from round_change_simulates [OF assms(1,2) this] show ?thesis unfolding on_round_timeout_def Some option.case .
qed

lemma simulates_prefix:
  assumes "simulates d byz cmp H p R a (os, res)" "headers_of l = {}" "decisions_of l = {}"
  shows "simulates d byz cmp H p R a (l @ os, res)"
  using assms by (simp add: simulates_def)


lemma compare_result_simulates:
  fixes st :: "('v :: zero, 'c) qstate"
  assumes "\<not> decided st" "node_ok d byz H st" "x \<le> q_round st" "q_round st = m_round m"
    and just: "m_round m = 1 \<or> m_round m = q_compare_failure_round st + 1
      \<or> justified_proposal d byz H (m_round m) (m_value m)"
    and cmp: "res = Inr () \<longrightarrow> cmp p (m_value m)" "res = Inl CompareError \<longrightarrow> \<not> cmp p (m_value m)"
  shows "simulates d byz cmp H p {(m_round m, m_value m)} ((abs_node st)\<lparr>a_round := x\<rparr>) (on_compare_result env p m res st)"
proof -
  let ?r = "m_round m" and ?a = "(abs_node st)\<lparr>a_round := x\<rparr>"
  have guard: "\<not> a_done ?a" "a_round ?a \<le> ?r"
    "?r = 1 \<or> ?r = a_compare_failure_round ?a + 1 \<or> justified_proposal d byz H ?r (m_value m)"
    using assms(1,3,4) just by (simp_all add: abs_node_def)
  consider (ok) "res = Inr ()" | (fail) "res = Inl CompareError" | (timeout) "res = Inl TimeoutError"
    | (other) e where "res = Inl e" "e \<noteq> CompareError" "e \<noteq> TimeoutError"
    by (cases res) auto
  then show ?thesis
  proof cases
    case ok
    show ?thesis
      by (rule simulatesI [OF anode_step.Accept [OF guard, of cmp p 0 0]])
        (use ok cmp assms in \<open>auto simp: on_compare_result_def abs_node_def dest!: broadcast_msg_simps(2)\<close>)
  next
    case fail
    show ?thesis
      by (rule simulatesI [OF anode_step.Accept_Fail [OF guard]])
        (use fail cmp assms in \<open>auto simp: on_compare_result_def abs_node_def node_ok_def\<close>)
  next
    case timeout
    then show ?thesis
      using round_timeout_simulates [OF assms(1,2,3)] by (simp add: on_compare_result_def)
  next
    case other
    then show ?thesis
      by (intro simulates_other) (auto simp: on_compare_result_def split: qbft_error.splits)
  qed
qed

lemma pre_prepare_simulates:
  fixes st :: "('v :: zero, 'c) qstate"
  assumes "\<not> decided st" "node_ok d byz H st" "q_round st \<le> m_round m" "compare_agrees (cmp p) env"
    and just: "m_round m = 1 \<or> m_round m = q_compare_failure_round st + 1
      \<or> justified_proposal d byz H (m_round m) (m_value m)"
  shows "simulates d byz cmp H p {(m_round m, m_value m)} (abs_node st) (on_justified_pre_prepare env p m st)"
proof -
  define st2 where "st2 = enter_round (m_round m) st\<lparr>q_timer := Some (m_round m)\<rparr>"
  obtain src res where cmp: "compare env m (q_input_value_source st2) = (src, res)"
    by (cases "compare env m (q_input_value_source st2)") auto
  define st3 where "st3 = st2\<lparr>q_input_value_source := src\<rparr>"
  have ok: "\<not> decided st3" "node_ok d byz H st3" "abs_node st = (abs_node st3)\<lparr>a_round := q_round st\<rparr>"
    "q_round st3 = m_round m" "q_compare_failure_round st3 = q_compare_failure_round st"
    using assms(1,2) by (auto simp: node_ok_def st3_def st2_def abs_node_def)
  have cmp': "res = Inr () \<longrightarrow> cmp p (m_value m)" "res = Inl CompareError \<longrightarrow> \<not> cmp p (m_value m)"
    using assms(4) cmp unfolding compare_agrees_def by (metis snd_conv)+
  let ?k = "\<lambda>st. case compare env m (q_input_value_source st) of
    (src, result) \<Rightarrow> on_compare_result env p m result (st\<lparr>q_input_value_source := src\<rparr>)"
  obtain l where l: "headers_of l = {}" "decisions_of l = {}"
    "on_justified_pre_prepare env p m st = (l @ fst (?k st2), snd (?k st2))"
    using new_round_then [of env "m_round m" UPON_JUSTIFIED_PRE_PREPARE st ?k]
    unfolding on_justified_pre_prepare_def st2_def by blast
  have k: "?k st2 = on_compare_result env p m res st3" by (simp add: cmp st3_def)
  have "simulates d byz cmp H p {(m_round m, m_value m)} (abs_node st) (on_compare_result env p m res st3)"
    unfolding ok(3) by (rule compare_result_simulates) (use ok assms(3) just cmp' in auto)
  then show ?thesis
    unfolding l(3) k by (intro simulates_prefix [OF _ l(1,2)]) simp
qed


lemma quorum_prepares_simulates:
  assumes "\<not> decided st" "node_ok d byz H st" "vote_quorum d byz H MSG_PREPARE (q_round st) (m_value m)"
  shows "simulates d byz cmp H p R (abs_node st) (on_quorum_prepares env p m js st)"
proof (rule simulatesI [OF anode_step.Commit])
  show "\<not> a_done (abs_node st)" "vote_quorum d byz H MSG_PREPARE (a_round (abs_node st)) (m_value m)"
    using assms by (simp_all add: abs_node_def)
  show "headers_of (fst (on_quorum_prepares env p m js st)) =
      {Header MSG_COMMIT p (a_round (abs_node st)) (m_value m) 0 0}"
    by (simp add: on_quorum_prepares_def abs_node_def Let_def)
qed (use assms in \<open>auto simp: on_quorum_prepares_def abs_node_def node_ok_def decided_def Let_def dest!: broadcast_msg_simps(2)\<close>)

lemma decided_simulates:
  assumes "\<not> decided st" "node_ok d byz H st" "vote_quorum d byz H MSG_COMMIT (m_round m) (m_value m)"
    "js = Some (c # cs)"
  shows "simulates d byz cmp H p R (abs_node st) (on_decided env rule m js st)"
proof -
  let ?st = "enter_round (m_round m) st\<lparr>q_commit := Some (c # cs), q_timer := None\<rparr>"
  obtain l where l: "headers_of l = {}" "decisions_of l = {}"
    "on_decided env rule m js st = (l @ [StopTimer, Decide (m_value m) (c # cs)], Inr ?st)"
    using change_round_then [of env "m_round m" rule st "\<lambda>st. ([StopTimer, Decide (m_value m) (c # cs)],
      Inr (st\<lparr>q_commit := Some (c # cs), q_timer := None\<rparr>))"]
    by (auto simp: on_decided_def assms(4))
  have "anode_step d byz cmp H p (abs_node st) {} {} {(m_round m, m_value m)}
      ((abs_node st)\<lparr>a_round := m_round m, a_done := True\<rparr>)"
    using assms by (intro anode_step.Decide) (auto simp: abs_node_def)
  then show ?thesis
    by (rule simulatesI) (use l assms(2) in \<open>auto simp: abs_node_def node_ok_def decided_def\<close>)
qed

lemma fplus1_simulates:
  assumes "\<not> decided st" "node_ok d byz H st" "js = Some frc" "next_min_round d frc (q_round st) = Inr r'" "q_round st < r'"
  shows "simulates d byz cmp H p R (abs_node st) (on_fplus1_round_changes d env p js st)"
  using round_change_simulates [OF assms(1,2,5), of cmp p R env UPON_F_PLUS1_ROUND_CHANGES] assms(3,4)
  by (simp add: on_fplus1_round_changes_def abs_node_def)

lemma own_pre_prepare_simulates:
  assumes "node_ok d byz H st"
  shows "simulates d byz cmp H p R (abs_node st) (broadcast_own_pre_prepare env p js st)"
  using assms by (intro simulates_other)
    (auto simp: broadcast_own_pre_prepare_def abs_node_def node_ok_def decided_def dest!: broadcast_msg_simps(2) split: if_splits)

lemma broadcast_simulates:
  assumes "node_ok d byz H st" "t \<notin> {MSG_PREPARE, MSG_COMMIT, MSG_ROUND_CHANGE}"
  shows "simulates d byz cmp H p R (abs_node st) (broadcast_msg env p t v js st)"
  using assms by (intro simulates_other) (auto dest!: broadcast_msg_simps(2))

lemma quorum_round_changes_simulates:
  assumes "node_ok d byz H st"
  shows "simulates d byz cmp H p R (abs_node st) (on_quorum_round_changes d env p js st)"
  using own_pre_prepare_simulates [OF assms] broadcast_simulates [OF assms, of MSG_PRE_PREPARE]
  by (auto simp: on_quorum_round_changes_def intro: simulates_other split: option.splits)

lemma silent_simulates:
  assumes "node_ok d byz H st" "headers_of os = {}" "decisions_of os = {}"
  shows "simulates d byz cmp H p R (abs_node st) (os, Inl e)" "simulates d byz cmp H p R (abs_node st) (os, Inr st)"
  using assms by (auto intro: simulates_other)

text \<open>Every rule the classification can return is a step of the abstract node.\<close>

lemma rule_simulates:
  fixes st :: "('v :: zero, 'c) qstate"
  assumes valid: "valid_definition d" and "\<not> decided st" and ok: "node_ok d byz H st"
    and "deliverable d byz H m" and "compare_agrees (cmp p) env"
    and just: "is_justified d inst m (q_compare_failure_round st) = Inr True"
    and cl: "classify d ord inst (q_round st) p (q_buffer st) m = Inr (rule, js)"
  shows "simulates d byz cmp H p (proposals_of (EvRecv m)) (abs_node st) (on_rule d env p rule m js st)"
proof -
  have q: "0 < quorum_count d" using qbft.quorum_positive [OF valid] .
  have buf: "buffer_ok d byz H (q_buffer st)" using ok by (simp add: node_ok_def)
  show ?thesis
  proof (cases rule)
    case UPON_NOTHING
    then show ?thesis by (simp add: silent_simulates [OF ok])
  next
    case UPON_JUSTIFIED_PRE_PREPARE
    with cl have "m_type m = MSG_PRE_PREPARE" "q_round st \<le> m_round m"
      using classify_pre_prepare [of d ord inst "q_round st" p "q_buffer st" m js] by simp_all
    then show ?thesis
      using pre_prepare_simulates [where env = env and m = m, OF assms(2,3)] pre_prepare_justified [OF just _ assms(4)] assms(5)
        UPON_JUSTIFIED_PRE_PREPARE by simp
  next
    case UPON_QUORUM_PREPARES
    with cl have "vote_quorum d byz H MSG_PREPARE (q_round st) (m_value m)"
      using classify_quorum_prepares [of d ord inst "q_round st" p "q_buffer st" m js, OF _ buf] by simp
    then show ?thesis using quorum_prepares_simulates [OF assms(2,3)] UPON_QUORUM_PREPARES by simp
  next
    case UPON_QUORUM_COMMITS
    with cl classify_quorum_commits [OF _ buf q] show ?thesis
      using decided_simulates [OF assms(2,3)] by fastforce
  next
    case UPON_UNJUST_QUORUM_ROUND_CHANGES
    then show ?thesis by (simp add: silent_simulates [OF ok])
  next
    case UPON_F_PLUS1_ROUND_CHANGES
    with cl classify_fplus1 [OF _ buf valid] show ?thesis
      using fplus1_simulates [OF assms(2,3)] by fastforce
  next
    case UPON_QUORUM_ROUND_CHANGES
    then show ?thesis using quorum_round_changes_simulates [OF ok] by simp
  next
    case UPON_JUSTIFIED_DECIDED
    with cl have "m_type m = MSG_DECIDED" "js = Some (m_justification m)"
      using classify_justified_decided [of d ord inst "q_round st" p "q_buffer st" m js] by simp_all
    then show ?thesis
      using decided_simulates [OF assms(2,3)] decided_justified [OF just _ assms(4) q] UPON_JUSTIFIED_DECIDED
      by (auto simp: neq_Nil_conv)
  next
    case UPON_ROUND_TIMEOUT
    then show ?thesis by (simp add: silent_simulates [OF ok])
  qed
qed

lemma buffer_msg_node_ok:
  assumes "node_ok d byz H st" "deliverable d byz H m"
  shows "node_ok d byz H (buffer_msg d m st)"
proof -
  define fifo where "fifo = (case map_of (q_buffer st) (m_source m) of None \<Rightarrow> [] | Some fifo \<Rightarrow> fifo) @ [m]"
  define new where "new = drop (length fifo - nat (fifo_limit d)) fifo"
  have dist: "distinct (keys (q_buffer st))" and buf: "buffer_ok d byz H (q_buffer st)"
    using assms(1) by (simp_all add: node_ok_def)
  have "deliverable d byz H x" if "x \<in> set fifo" for x
  proof (cases "map_of (q_buffer st) (m_source m)")
    case None
    then show ?thesis using that assms(2) by (simp add: fifo_def)
  next
    case (Some old)
    then show ?thesis using that buf assms(2) map_of_SomeD [OF Some] by (auto simp: buffer_ok_def fifo_def)
  qed
  then have "\<forall>x \<in> set new. deliverable d byz H x" unfolding new_def by (meson in_set_dropD)
  then have "buffer_ok d byz H (AList.update (m_source m) new (q_buffer st))"
    using set_values_update_subset [OF dist, of _ _ "m_source m" new] buf
    unfolding buffer_ok_def by blast
  moreover have "buffer_msg d m st = st\<lparr>q_buffer := AList.update (m_source m) new (q_buffer st)\<rparr>"
    unfolding buffer_msg_def Let_def fifo_def new_def ..
  ultimately show ?thesis
    using assms(1) dist by (simp add: node_ok_def decided_def distinct_update)
qed


lemma buffer_msg_simps [simp]:
  "q_round (buffer_msg d m st) = q_round st" "q_compare_failure_round (buffer_msg d m st) = q_compare_failure_round st"
  "q_prepared_round (buffer_msg d m st) = q_prepared_round st" "decided (buffer_msg d m st) = decided st"
  "q_dedup_rules (buffer_msg d m st) = q_dedup_rules st"
  by (simp_all add: buffer_msg_def Let_def decided_def)

lemma recv_simulates:
  fixes st :: "('v :: zero, 'c) qstate"
  assumes valid: "valid_definition d" and ok: "node_ok d byz H st"
    and "deliverable d byz H m" and "compare_agrees (cmp p) env"
  shows "simulates d byz cmp H p (proposals_of (EvRecv m)) (abs_node st) (on_recv d env inst p m st)"
proof (cases "decided st")
  case True
  then obtain c cs where "q_commit st = Some (c # cs)" by (auto simp: decided_def split: option.splits list.splits)
  then show ?thesis
    using broadcast_simulates [OF ok, of MSG_DECIDED] by (auto simp: on_recv_def silent_simulates [OF ok])
next
  case False
  define st1 where "st1 = buffer_msg d m st"
  have ok1: "node_ok d byz H st1" "\<not> decided st1" "abs_node st = abs_node st1"
    "q_compare_failure_round st1 = q_compare_failure_round st"
    using buffer_msg_node_ok [OF ok assms(3)] False by (simp_all add: st1_def abs_node_def)
  define inner where "inner = (case classify d (e_order env) inst (q_round st1) p (q_buffer st1) m of
      Inl e \<Rightarrow> ([], Inl e)
    | Inr (rule, js) \<Rightarrow> if rule = UPON_NOTHING \<or> (rule, m_round m) \<in> set (q_dedup_rules st1) then ([], Inr st1)
        else let st = st1\<lparr>q_dedup_rules := (rule, m_round m) # q_dedup_rules st1\<rparr>
             in flow_bind ([LogUponRule (q_round st) m rule], Inr st) (on_rule d env p rule m js))"
  have recv: "on_recv d env inst p m st = (case is_justified d inst m (q_compare_failure_round st) of
      Inl e \<Rightarrow> ([], Inl e) | Inr just \<Rightarrow> if \<not> just then ([LogUnjust m], Inr st) else inner)"
    using False unfolding on_recv_def inner_def st1_def decided_def Let_def by (auto split: option.splits list.splits)
  have "simulates d byz cmp H p (proposals_of (EvRecv m)) (abs_node st) inner"
    if just: "is_justified d inst m (q_compare_failure_round st) = Inr True"
  proof (cases "classify d (e_order env) inst (q_round st1) p (q_buffer st1) m")
    case (Inl e)
    then show ?thesis by (simp add: inner_def silent_simulates [OF ok])
  next
    case (Inr rj)
    obtain rule js where rj: "rj = (rule, js)" by (cases rj)
    define st2 where "st2 = st1\<lparr>q_dedup_rules := (rule, m_round m) # q_dedup_rules st1\<rparr>"
    have "simulates d byz cmp H p (proposals_of (EvRecv m)) (abs_node st2) (on_rule d env p rule m js st2)"
      by (rule rule_simulates [OF valid, where inst = inst and ord = "e_order env"])
        (use ok1 assms(3,4) just Inr rj in \<open>auto simp: st2_def node_ok_def\<close>)
    moreover have "abs_node st = abs_node st2" using ok1(3) by (simp add: st2_def abs_node_def)
    ultimately show ?thesis
      using silent_simulates(2) [OF ok1(1), of "[]"] ok1(3)
      by (auto simp: inner_def Inr rj Let_def st2_def [symmetric]
          intro!: simulates_prefix [where l = "[LogUponRule r m rule]" for r, simplified])
  qed
  then show ?thesis
    unfolding recv by (auto simp: silent_simulates [OF ok] split: sum.splits)
qed

lemma input_simulates:
  assumes "node_ok d byz H st"
  shows "simulates d byz cmp H p R (abs_node st) (on_input env p v st)"
proof (rule simulates_other)
  let ?fl = "on_input env p v st"
  have st': "st' = st\<lparr>q_input_value := v, q_input_open := False\<rparr>" if "snd ?fl = Inr st'" for st'
    using that by (auto simp: on_input_def broadcast_msg_def Let_def split: option.splits if_splits)
  show "abs_node st' = abs_node st \<and> node_ok d byz H st'" if "snd ?fl = Inr st'" for st'
    using assms unfolding st' [OF that] by (simp add: abs_node_def node_ok_def decided_def)
qed (auto simp: on_input_def broadcast_msg_def flow_bind_def Let_def split: option.splits if_splits)

lemma step_simulates:
  assumes "valid_definition d" "node_ok d byz H st" "event_deliverable d byz H ev" "compare_agrees (cmp p) env"
  shows "simulates d byz cmp H p (proposals_of ev) (abs_node st) (qbft_step d env inst p ev st)"
proof (cases "event_enabled st ev")
  case True
  then have step: "qbft_step d env inst p ev st = on_event d env inst p ev st" by (simp add: qbft_step_def)
  show ?thesis
    unfolding step
  proof (cases ev)
    case (EvInput v)
    show "simulates d byz cmp H p (proposals_of ev) (abs_node st) (on_event d env inst p ev st)"
      using EvInput input_simulates [OF assms(2)] by simp
  next
    case EvTimer
    then have "\<not> decided st" using True assms(2) by (auto simp: node_ok_def)
    then show "simulates d byz cmp H p (proposals_of ev) (abs_node st) (on_event d env inst p ev st)"
      using round_timeout_simulates [of st d byz H "q_round st"] assms(2) EvTimer by (simp add: abs_node_def)
  qed (use assms recv_simulates [OF assms(1,2)] in \<open>auto simp: silent_simulates\<close>)
next
  case False
  then show ?thesis using assms(2) by (simp add: qbft_step_def silent_simulates)
qed

lemma start_simulates: "simulates d byz cmp H p {} anode_init (qbft_start d env inst p src)"
  by (rule simulates_other)
    (auto simp: anode_init_def qbft_start_def initial_state_def broadcast_own_pre_prepare_def abs_node_def node_ok_def buffer_ok_def
      flow_bind_def broadcast_msg_def decided_def Let_def split: sum.splits if_splits option.splits)


section \<open>Agreement of the cluster\<close>

definition sys_simulates ::
  "'i qbft_definition \<Rightarrow> int set \<Rightarrow> (int \<Rightarrow> 'v \<Rightarrow> bool) \<Rightarrow> ('v :: zero, 'c) sys \<Rightarrow> 'v asys \<Rightarrow> bool" where
  "sys_simulates d byz cmp s a \<longleftrightarrow>
     asys_reach d byz cmp a \<and> as_headers a = s_headers s
   \<and> (\<forall>p st. s_node s p = Some st \<longrightarrow> as_node a p = abs_node st \<and> node_ok d byz (s_headers s) st)
   \<and> (\<forall>p. p \<notin> s_started s \<longrightarrow> as_node a p = anode_init)
   \<and> (\<forall>p. as_accepted a p \<subseteq> s_proposals s p \<and> s_decided s p \<subseteq> snd ` as_decided a p)"

lemma sys_update_simulates:
  assumes sim: "sys_simulates d byz cmp s a" and p: "p \<in> processes d - byz"
    and fl: "simulates d byz cmp (s_headers s) p R (as_node a p) fl"
  shows "\<exists>a'. sys_simulates d byz cmp (sys_update p fl R s) a'"
proof -
  from fl obtain A D n where step: "anode_step d byz cmp (s_headers s) p (as_node a p) (headers_of (fst fl)) A D n"
    and A: "A \<subseteq> R" and D: "decisions_of (fst fl) \<subseteq> snd ` D"
    and n: "\<And>st'. snd fl = Inr st' \<Longrightarrow> n = abs_node st' \<and> node_ok d byz (s_headers s \<union> headers_of (fst fl)) st'"
    unfolding simulates_def by blast
  define a' where "a' = a\<lparr>as_node := (as_node a)(p := n), as_headers := as_headers a \<union> headers_of (fst fl),
    as_accepted := (as_accepted a)(p := as_accepted a p \<union> A), as_decided := (as_decided a)(p := as_decided a p \<union> D)\<rparr>"
  have "asys_reach d byz cmp a'"
    unfolding a'_def using sim step p by (intro asys_reach.Step) (auto simp: sys_simulates_def)
  moreover have "as_node a' q = abs_node st \<and> node_ok d byz (s_headers s \<union> headers_of (fst fl)) st"
    if "s_node (sys_update p fl R s) q = Some st" for q st
    using that n sim
    by (cases "q = p") (auto simp: sys_update_def a'_def sys_simulates_def node_ok_mono split: sum.splits)
  ultimately have "sys_simulates d byz cmp (sys_update p fl R s) a'"
    using sim A D by (auto simp: sys_simulates_def sys_update_def a'_def image_Un)
  then show ?thesis by blast
qed

lemma sys_reach_simulates:
  assumes "valid_definition d" "sys_reach d inst byz cmp s"
  shows "\<exists>a. sys_simulates d byz cmp s a"
  using assms(2)
proof (induction rule: sys_reach.induct)
  case Init
  have "sys_simulates d byz cmp sys_init asys_init"
    using asys_reach.Init [of d byz cmp] by (simp add: sys_simulates_def sys_init_def asys_init_def)
  then show ?case by blast
next
  case (Start s p env src)
  then obtain a where a: "sys_simulates d byz cmp s a" by blast
  have "as_node a p = anode_init" using a Start.hyps(3) by (simp add: sys_simulates_def)
  then show ?case
    by (intro sys_update_simulates [OF a Start.hyps(2)]) (simp add: start_simulates)
next
  case (Step s p st ev env)
  then obtain a where a: "sys_simulates d byz cmp s a" by blast
  with Step.hyps(3) have st: "as_node a p = abs_node st" "node_ok d byz (s_headers s) st"
    by (auto simp: sys_simulates_def)
  show ?case
    by (intro sys_update_simulates [OF a Step.hyps(2)])
      (simp add: st(1) step_simulates [where cmp = cmp and p = p, OF assms(1) st(2) Step.hyps(4,5)])
qed

lemma no_equivocation_subset:
  "no_equivocation acc P \<Longrightarrow> (\<And>p. acc' p \<subseteq> acc p) \<Longrightarrow> no_equivocation acc' P"
  unfolding no_equivocation_def by blast

lemma sys_run_reach:
  assumes "sys_run d inst byz xs s = Some s'" "sys_reach d inst byz cmp s"
    "\<And>x p env. x \<in> set xs \<Longrightarrow> sched_env x = (p, env) \<Longrightarrow> compare_agrees (cmp p) env"
  shows "sys_reach d inst byz cmp s'"
  using assms
proof (induction d inst byz xs s rule: sys_run.induct)
  case (1 d inst byz s)
  then show ?case by simp
next
  case (2 d inst byz p env src xs s)
  have hyp: "p \<in> processes d - byz \<and> p \<notin> s_started s" using "2.prems"(1) by (auto split: if_splits)
  show ?case
    by (rule "2.IH" [OF hyp]) (use "2.prems" hyp sys_reach.Start [OF "2.prems"(2)] in \<open>auto split: if_splits\<close>)
next
  case (3 d inst byz p env ev xs s)
  then obtain st where st: "s_node s p = Some st"
    and hyp: "p \<in> processes d - byz \<and> event_deliverable d byz (s_headers s) ev"
    by (auto split: option.splits if_splits)
  have "compare_agrees (cmp p) env" using "3.prems"(3) by force
  then have "sys_reach d inst byz cmp (sys_update p (qbft_step d env inst p ev st) (proposals_of ev) s)"
    using "3.prems"(2) hyp st by (intro sys_reach.Step) auto
  then show ?case
    by (intro "3.IH" [OF st hyp]) (use "3.prems" hyp st in auto)
qed

lemma plain_env_agrees: "compare_agrees (\<lambda>v. True) plain_env"
  by (simp add: compare_agrees_def compare_def plain_env_def Let_def)

lemma plain_sched_envs:
  "list_all (\<lambda>x. snd (sched_env x) = plain_env) xs \<Longrightarrow> x \<in> set xs \<Longrightarrow> sched_env x = (p, env) \<Longrightarrow> env = plain_env"
  by (auto simp: list_all_iff)

lemma sched_env_simps [simp]:
  "list_all (\<lambda>x. snd (sched_env x) = plain_env) (recvs p ms)"
  by (simp add: recvs_def list_all_iff)

text \<open>A run of four processes in the plain environment is a run of the cluster.\<close>

lemma plain_run_reach:
  assumes "sys_run four_nodes () {3} xs sys_init = Some s" "list_all (\<lambda>x. snd (sched_env x) = plain_env) xs"
  shows "sys_reach four_nodes () {3} (\<lambda>_ _. True) s"
  using sys_run_reach [OF assms(1) sys_reach.Init] plain_sched_envs [OF assms(2)] plain_env_agrees by metis

lemma happy_run_outcome:
  "\<exists>s. sys_run four_nodes () {3} happy_run sys_init = Some s \<and> s_decided s 0 = {7} \<and> s_decided s 1 = {7}
     \<and> (\<forall>p \<in> {0, 1, 2}. s_proposals s p = {(1, 7)})"
proof -
  have "map_option (\<lambda>s. (s_decided s 0, s_decided s 1, map (s_proposals s) [0, 1, 2]))
      (sys_run four_nodes () {3} happy_run sys_init) = Some ({7}, {7}, [{(1, 7)}, {(1, 7)}, {(1, 7)}])"
    by code_simp
  then show ?thesis by auto
qed

lemma equivocation_run_outcome:
  "\<exists>s. sys_run four_nodes () {3} equivocation_run sys_init = Some s \<and> s_decided s 0 = {9} \<and> s_decided s 1 = {7}"
proof -
  have "map_option (\<lambda>s. (s_decided s 0, s_decided s 1))
      (sys_run four_nodes () {3} equivocation_run sys_init) = Some ({9}, {7})"
    by code_simp
  then show ?thesis by auto
qed

lemma four_nodes_valid:
  "valid_definition four_nodes" "faulty_count four_nodes = 1" "processes four_nodes - {3} = {0, 1, 2}"
  "card ({3} \<inter> processes four_nodes) = 1"
proof -
  show valid: "valid_definition four_nodes" by (simp add: valid_definition_def four_nodes_def)
  show "faulty_count four_nodes = 1" using faulty_count_eq [OF valid] by (simp add: four_nodes_def)
  show "processes four_nodes - {3} = {0, 1, 2}" by (auto simp: processes_def four_nodes_def)
  show "card ({3} \<inter> processes four_nodes) = 1" by (simp add: processes_def four_nodes_def)
qed

text \<open>
  C1. Agreement. In a cluster of processes that run the QBFT core, with at most the
  tolerated number of faulty processes, two honest processes never decide different
  (non-null) values, whatever the order in which messages, timeouts and inputs arrive,
  provided that no process is handed two PRE-PREPAREs of one round with different values.
\<close>

theorem qbft_agreement:
  assumes "valid_definition d" "card (byz \<inter> processes d) \<le> faulty_count d"
    and "sys_reach d inst byz cmp s"
    and "no_equivocation (s_proposals s) (processes d - byz)"
    and "v \<in> s_decided s p" "v' \<in> s_decided s p'" "v \<noteq> 0" "v' \<noteq> 0"
  shows "v = v'"
proof -
  obtain a where a: "sys_simulates d byz cmp s a" using sys_reach_simulates [OF assms(1,3)] by blast
  have "no_equivocation (as_accepted a) (processes d - byz)"
    using a by (intro no_equivocation_subset [OF assms(4)]) (simp add: sys_simulates_def)
  moreover have "v \<in> snd ` as_decided a p" "v' \<in> snd ` as_decided a p'"
    using a assms(5,6) by (auto simp: sys_simulates_def)
  then obtain r r' where "(r, v) \<in> as_decided a p" "(r', v') \<in> as_decided a p'" by auto
  ultimately show ?thesis
    using abstract_agreement [OF _ assms(1,2)] a assms(7,8) by (auto simp: sys_simulates_def)
qed


theorem qbft_agreement_witness:
  "\<exists>s :: (int, unit) sys. sys_reach four_nodes () {3} (\<lambda>_ _. True) s
     \<and> {v \<in> s_decided s 0. v \<noteq> 0} = {7} \<and> {v \<in> s_decided s 1. v \<noteq> 0} = {7}"
proof -
  obtain s where run: "sys_run four_nodes () {3} happy_run sys_init = Some s"
    and dec: "s_decided s 0 = {7}" "s_decided s 1 = {7}" and pp: "\<forall>p \<in> {0, 1, 2}. s_proposals s p = {(1, 7)}"
    using happy_run_outcome by blast
  have reach: "sys_reach four_nodes () {3} (\<lambda>_ _. True) s"
    by (rule plain_run_reach [OF run]) (simp add: happy_run_def)
  have "no_equivocation (s_proposals s) (processes four_nodes - {3})"
    unfolding four_nodes_valid(3) no_equivocation_def using pp by auto
  from qbft_agreement [OF four_nodes_valid(1) _ reach this, of _ 0 7 1]
  have "v = 7" if "v \<in> s_decided s 0" "v \<noteq> 0" for v
    using that dec four_nodes_valid(2,4) by simp
  then show ?thesis using reach dec by (intro exI [of _ s]) auto
qed

text \<open>
  C2. The restriction to non-equivocating leaders in the agreement property is needed: a
  faulty leader of round 2 that sends two PRE-PREPAREs to a process still in round 1 makes
  that process send two PREPAREs, and with one faulty process out of four two honest
  processes decide different values. The rule-deduplication entry of the first PRE-PREPARE
  is recorded before the change of round, which clears it.
\<close>

theorem qbft_equivocation_breaks_agreement:
  "valid_definition four_nodes \<and> card ({3} \<inter> processes four_nodes) \<le> faulty_count four_nodes
   \<and> (\<exists>s :: (int, unit) sys. sys_reach four_nodes () {3} (\<lambda>_ _. True) s \<and> s_decided s 0 = {9} \<and> s_decided s 1 = {7})"
proof -
  obtain s where run: "sys_run four_nodes () {3} equivocation_run sys_init = Some s"
    and dec: "s_decided s 0 = {9}" "s_decided s 1 = {7}"
    using equivocation_run_outcome by blast
  have "sys_reach four_nodes () {3} (\<lambda>_ _. True) s"
    by (rule plain_run_reach [OF run]) (simp add: equivocation_run_def)
  then show ?thesis using dec four_nodes_valid by auto
qed

end
