(* ===== verification/Qbft_Node.thy ===== *)
theory Qbft_Node
  imports Qbft_System
begin

text \<open>
  What one process of the QBFT core does over a whole run: at most one COMMIT per round, at
  most one decision, rounds that only grow before the decision, a bounded message buffer,
  and the proposals a leader builds being accepted by every receiver.
\<close>

section \<open>Vocabulary\<close>

text \<open>A message as the wire layer delivers it: known sources, 64-bit rounds and flat
  justifications.\<close>

definition wire_event :: "'i qbft_definition \<Rightarrow> 'v qevent \<Rightarrow> bool" where
  "wire_event d ev \<longleftrightarrow> event_deliverable d UNIV {} ev"

fun commit_of :: "'v action \<Rightarrow> (int \<times> 'v) list" where
  "commit_of (Broadcast rq) = (if rq_type rq = MSG_COMMIT then [(rq_round rq, rq_value rq)] else [])"
| "commit_of _ = []"

definition commits_of :: "'v action list \<Rightarrow> (int \<times> 'v) list" where
  "commits_of os = concat (map commit_of os)"

fun decision_list :: "'v action \<Rightarrow> ('v \<times> 'v msg list) list" where
  "decision_list (Decide v js) = [(v, js)]"
| "decision_list _ = []"

definition decides_of :: "'v action list \<Rightarrow> ('v \<times> 'v msg list) list" where
  "decides_of os = concat (map decision_list os)"

text \<open>A list of messages that contains a quorum of COMMITs for a value in one round.\<close>

definition commit_certificate :: "'i qbft_definition \<Rightarrow> 'v msg list \<Rightarrow> 'v \<Rightarrow> bool" where
  "commit_certificate d js v \<longleftrightarrow> (\<exists>r. quorum_count d \<le> length (filter_msgs js MSG_COMMIT r (Some v) None None))"

definition buffer_bounded :: "'i qbft_definition \<Rightarrow> 'v buffer \<Rightarrow> bool" where
  "buffer_bounded d buf \<longleftrightarrow> distinct (keys buf)
     \<and> (\<forall>(src, ms) \<in> set buf. length ms \<le> nat (fifo_limit d) \<and> (\<forall>m \<in> set ms. m_source m = src))"

definition node_inv :: "'i qbft_definition \<Rightarrow> int set \<Rightarrow> 'v header set \<Rightarrow> ('v, 'c) qstate \<Rightarrow> bool" where
  "node_inv d byz H st \<longleftrightarrow> node_ok d byz H st \<and> buffer_bounded d (q_buffer st)
     \<and> (\<not> decided st \<longrightarrow> q_commit st = None \<and> 1 \<le> q_round st
          \<and> 0 \<le> q_prepared_round st \<and> q_prepared_round st \<le> q_round st)"

text \<open>The effect of one step on votes, decisions, round and recorded rules.\<close>

definition quiet_effect :: "('v, 'c) qstate \<Rightarrow> ('v, 'c) flow \<Rightarrow> bool" where
  "quiet_effect st fl \<longleftrightarrow> commits_of (fst fl) = [] \<and> decides_of (fst fl) = []
     \<and> (\<forall>st'. snd fl = Inr st' \<longrightarrow> decided st' = decided st \<and> (\<not> decided st \<longrightarrow>
          q_round st < q_round st' \<or> q_round st = q_round st' \<and> set (q_dedup_rules st) \<subseteq> set (q_dedup_rules st')))"

definition commit_effect :: "('v, 'c) qstate \<Rightarrow> ('v, 'c) flow \<Rightarrow> bool" where
  "commit_effect st fl \<longleftrightarrow> \<not> decided st \<and> (\<exists>v. commits_of (fst fl) = [(q_round st, v)]) \<and> decides_of (fst fl) = []
     \<and> (UPON_QUORUM_PREPARES, q_round st) \<notin> set (q_dedup_rules st)
     \<and> (\<forall>st'. snd fl = Inr st' \<longrightarrow> \<not> decided st' \<and> q_round st' = q_round st
          \<and> insert (UPON_QUORUM_PREPARES, q_round st) (set (q_dedup_rules st)) \<subseteq> set (q_dedup_rules st'))"

definition decide_effect :: "'i qbft_definition \<Rightarrow> ('v, 'c) qstate \<Rightarrow> ('v, 'c) flow \<Rightarrow> bool" where
  "decide_effect d st fl \<longleftrightarrow> \<not> decided st \<and> commits_of (fst fl) = []
     \<and> (\<exists>v js. decides_of (fst fl) = [(v, js)] \<and> commit_certificate d js v)
     \<and> (\<forall>st'. snd fl = Inr st' \<longrightarrow> decided st')"

definition step_effect :: "'i qbft_definition \<Rightarrow> ('v, 'c) qstate \<Rightarrow> ('v, 'c) flow \<Rightarrow> bool" where
  "step_effect d st fl \<longleftrightarrow> quiet_effect st fl \<or> commit_effect st fl \<or> decide_effect d st fl"

section \<open>The effect of the handlers\<close>

lemma commits_of_simps [simp]:
  "commits_of [] = []" "commits_of (x # xs) = commit_of x @ commits_of xs"
  "commits_of (xs @ ys) = commits_of xs @ commits_of ys"
  by (simp_all add: commits_of_def)

lemma decides_of_simps [simp]:
  "decides_of [] = []" "decides_of (x # xs) = decision_list x @ decides_of xs"
  "decides_of (xs @ ys) = decides_of xs @ decides_of ys"
  by (simp_all add: decides_of_def)

lemma decided_updates [simp]:
  "decided (st\<lparr>q_round := r\<rparr>) = decided st" "decided (st\<lparr>q_ppj_cache := c\<rparr>) = decided st"
  "decided (st\<lparr>q_input_value := v\<rparr>) = decided st" "decided (st\<lparr>q_input_open := b\<rparr>) = decided st"
  "decided (st\<lparr>q_prepared_round := r\<rparr>) = decided st" "decided (st\<lparr>q_prepared_value := v\<rparr>) = decided st"
  "decided (st\<lparr>q_prepared_justification := js\<rparr>) = decided st"
  by (simp_all add: decided_def)

lemma change_round_effect:
  "\<exists>l. commits_of l = [] \<and> decides_of l = [] \<and>
     flow_bind (change_round env r rule st) f = (l @ fst (f (enter_round r st)), snd (f (enter_round r st)))"
proof (cases "q_round st = r")
  case True
  then show ?thesis by (intro exI [of _ "[]"]) (simp add: change_round_def enter_round_def)
next
  case False
  then show ?thesis
    by (intro exI [of _ "fst (change_round env r rule st)"]) (simp add: change_round_def enter_round_def)
qed

lemma new_round_effect:
  "\<exists>l. commits_of l = [] \<and> decides_of l = [] \<and>
     flow_bind (change_round env r rule st) (\<lambda>st. flow_bind (restart_timer st) f) =
       (l @ fst (f (enter_round r st\<lparr>q_timer := Some r\<rparr>)), snd (f (enter_round r st\<lparr>q_timer := Some r\<rparr>)))"
proof -
  obtain l where "commits_of l = []" "decides_of l = []"
    "flow_bind (change_round env r rule st) (\<lambda>st. flow_bind (restart_timer st) f) =
      (l @ fst (flow_bind (restart_timer (enter_round r st)) f), snd (flow_bind (restart_timer (enter_round r st)) f))"
    using change_round_effect by blast
  then show ?thesis
    by (intro exI [of _ "l @ [StopTimer, NewTimer r]"]) (simp add: restart_timer_then)
qed

lemma round_change_quiet:
  assumes "q_round st0 < r" "decided st = decided st0"
  shows "quiet_effect st0 (flow_bind (change_round env r rule st)
    (\<lambda>st. flow_bind (restart_timer st) (broadcast_round_change env p)))"
proof -
  let ?st = "enter_round r st\<lparr>q_timer := Some r\<rparr>"
  obtain l where l: "commits_of l = []" "decides_of l = []"
    "flow_bind (change_round env r rule st) (\<lambda>st. flow_bind (restart_timer st) (broadcast_round_change env p))
      = (l @ fst (broadcast_round_change env p ?st), snd (broadcast_round_change env p ?st))"
    using new_round_effect by blast
  show ?thesis
    unfolding l(3) quiet_effect_def using assms l(1,2) by (auto dest!: broadcast_round_change_simps(2))
qed

lemma round_timeout_quiet:
  assumes "q_round st0 \<le> q_round st" "decided st = decided st0"
  shows "quiet_effect st0 (on_round_timeout env p st)"
proof (cases "checked_add_i64 (q_round st) 1")
  case None
  then show ?thesis by (simp add: on_round_timeout_def quiet_effect_def)
next
  case (Some r)
  then have "q_round st0 < r" using assms(1) by (auto simp: checked_add_i64_def split: if_splits)
  from round_change_quiet [OF this assms(2)] show ?thesis unfolding on_round_timeout_def Some option.case .
qed

lemma compare_result_quiet:
  assumes "q_round st0 < q_round st \<or> q_round st0 = q_round st \<and> set (q_dedup_rules st0) \<subseteq> set (q_dedup_rules st)"
    and "decided st = decided st0"
  shows "quiet_effect st0 (on_compare_result env p m res st)"
proof -
  consider (ok) u where "res = Inr u" | (fail) "res = Inl CompareError" | (timeout) "res = Inl TimeoutError"
    | (other) e where "res = Inl e" "e \<noteq> CompareError" "e \<noteq> TimeoutError"
    by (cases res) auto
  then show ?thesis
  proof cases
    case ok
    then show ?thesis
      using assms by (auto simp: on_compare_result_def quiet_effect_def dest!: broadcast_msg_simps(2))
  next
    case fail
    then show ?thesis using assms by (auto simp: on_compare_result_def quiet_effect_def)
  next
    case timeout
    have "q_round st0 \<le> q_round st" using assms(1) by auto
    from round_timeout_quiet [OF this assms(2)] timeout show ?thesis by (simp add: on_compare_result_def)
  next
    case other
    then show ?thesis by (auto simp: on_compare_result_def quiet_effect_def split: qbft_error.splits)
  qed
qed

lemma quiet_prefix:
  "quiet_effect st (os, res) \<Longrightarrow> commits_of l = [] \<Longrightarrow> decides_of l = [] \<Longrightarrow> quiet_effect st (l @ os, res)"
  by (simp add: quiet_effect_def)

lemma pre_prepare_quiet:
  assumes "q_round st0 = q_round st" "set (q_dedup_rules st0) \<subseteq> set (q_dedup_rules st)" "decided st = decided st0"
    and "q_round st \<le> m_round m"
  shows "quiet_effect st0 (on_justified_pre_prepare env p m st)"
proof -
  define st2 where "st2 = enter_round (m_round m) st\<lparr>q_timer := Some (m_round m)\<rparr>"
  let ?k = "\<lambda>st. case compare env m (q_input_value_source st) of
    (src, result) \<Rightarrow> on_compare_result env p m result (st\<lparr>q_input_value_source := src\<rparr>)"
  obtain l where l: "commits_of l = []" "decides_of l = []"
    "on_justified_pre_prepare env p m st = (l @ fst (?k st2), snd (?k st2))"
    using new_round_effect [of env "m_round m" UPON_JUSTIFIED_PRE_PREPARE st ?k]
    unfolding on_justified_pre_prepare_def st2_def by blast
  have "quiet_effect st0 (?k st2)"
    using assms by (auto simp: st2_def enter_round_def intro!: compare_result_quiet split: prod.splits)
  then show ?thesis unfolding l(3) by (intro quiet_prefix [OF _ l(1,2)]) simp
qed

lemma quiet_broadcast:
  assumes "t \<noteq> MSG_COMMIT" "q_round st0 = q_round st" "set (q_dedup_rules st0) \<subseteq> set (q_dedup_rules st)"
    "decided st = decided st0"
  shows "quiet_effect st0 (broadcast_msg env p t v js st)"
  using assms by (auto simp: quiet_effect_def dest!: broadcast_msg_simps(2))

lemma own_pre_prepare_quiet:
  assumes "q_round st0 = q_round st" "set (q_dedup_rules st0) \<subseteq> set (q_dedup_rules st)" "decided st = decided st0"
  shows "quiet_effect st0 (broadcast_own_pre_prepare env p js st)"
  using assms quiet_broadcast [of MSG_PRE_PREPARE st0 st]
  by (auto simp: broadcast_own_pre_prepare_def quiet_effect_def decided_def)

lemma quorum_round_changes_quiet:
  assumes "q_round st0 = q_round st" "set (q_dedup_rules st0) \<subseteq> set (q_dedup_rules st)" "decided st = decided st0"
  shows "quiet_effect st0 (on_quorum_round_changes d env p js st)"
  using own_pre_prepare_quiet [OF assms] quiet_broadcast [OF _ assms, of MSG_PRE_PREPARE]
  by (auto simp: on_quorum_round_changes_def quiet_effect_def split: option.splits)

lemma quorum_prepares_commit:
  assumes "q_round st0 = q_round st" "\<not> decided st" "\<not> decided st0"
    "insert (UPON_QUORUM_PREPARES, q_round st) (set (q_dedup_rules st0)) \<subseteq> set (q_dedup_rules st)"
    "(UPON_QUORUM_PREPARES, q_round st) \<notin> set (q_dedup_rules st0)"
  shows "commit_effect st0 (on_quorum_prepares env p m js st)"
  using assms by (auto simp: commit_effect_def on_quorum_prepares_def decided_def Let_def dest!: broadcast_msg_simps(2))

lemma decided_decides:
  assumes "\<not> decided st0" "js = Some (c # cs)" "commit_certificate d (c # cs) (m_value m)"
  shows "decide_effect d st0 (on_decided env rule m js st)"
proof -
  obtain l where l: "commits_of l = []" "decides_of l = []"
    "on_decided env rule m js st = (l @ [StopTimer, Decide (m_value m) (c # cs)],
       Inr (enter_round (m_round m) st\<lparr>q_commit := Some (c # cs), q_timer := None\<rparr>))"
    using change_round_effect [of env "m_round m" rule st "\<lambda>st. ([StopTimer, Decide (m_value m) (c # cs)],
      Inr (st\<lparr>q_commit := Some (c # cs), q_timer := None\<rparr>))"]
    by (auto simp: on_decided_def assms(2))
  show ?thesis
    unfolding l(3) decide_effect_def using assms l(1,2) by (simp add: decided_def)
qed

lemma filter_msgs_idem:
  "filter_msgs (filter_msgs ms t r v pr pv) t r v pr pv = filter_msgs ms t r v pr pv"
proof -
  have "filter (\<lambda>m. m_type m = t \<and> m_round m = r
       \<and> (case v of None \<Rightarrow> True | Some v \<Rightarrow> m_value m = v)
       \<and> (case pv of None \<Rightarrow> True | Some v \<Rightarrow> m_prepared_value m = v)
       \<and> (case pr of None \<Rightarrow> True | Some x \<Rightarrow> m_prepared_round m = x)) (filter_msgs ms t r v pr pv)
    = filter_msgs ms t r v pr pv"
    using filter_msgsD [of _ ms t r v pr pv]
    by (intro filter_True) (auto split: option.splits)
  then show ?thesis
    unfolding filter_msgs_def [of "filter_msgs ms t r v pr pv"]
    by (simp add: uniq_source_id distinct_filter_msgs)
qed

lemma classify_commit_certificate:
  assumes "classify d ord inst r p buf m = Inr (UPON_QUORUM_COMMITS, js)" "0 < quorum_count d"
  shows "\<exists>c cs. js = Some (c # cs) \<and> commit_certificate d (c # cs) (m_value m)"
proof -
  from assms(1) obtain all where all:
    "js = Some (filter_by_round_and_value all MSG_COMMIT (m_round m) (m_value m))"
    "quorum_count d \<le> length (filter_by_round_and_value all MSG_COMMIT (m_round m) (m_value m))"
    by (auto simp: classify_def res_bind_def Let_def split: if_splits sum.splits option.splits)
  moreover from this have "commit_certificate d (filter_by_round_and_value all MSG_COMMIT (m_round m) (m_value m)) (m_value m)"
    unfolding commit_certificate_def filter_by_round_and_value_def by (intro exI [of _ "m_round m"]) (simp add: filter_msgs_idem)
  moreover have "filter_by_round_and_value all MSG_COMMIT (m_round m) (m_value m) \<noteq> []"
    using all(2) assms(2) by auto
  ultimately show ?thesis by (auto simp: neq_Nil_conv)
qed

lemma decided_certificate:
  assumes "is_justified d inst m cfr = Inr True" "m_type m = MSG_DECIDED" "0 < quorum_count d"
  shows "\<exists>c cs. m_justification m = c # cs \<and> commit_certificate d (c # cs) (m_value m)"
proof -
  have len: "quorum_count d \<le> length (filter_msgs (m_justification m) MSG_COMMIT (m_round m) (Some (m_value m)) None None)"
    using assms by (auto simp: is_justified_def is_justified_decided_def)
  moreover have "m_justification m \<noteq> []"
    using len assms(3) by (auto simp: filter_msgs_def uniq_source_def)
  ultimately show ?thesis unfolding commit_certificate_def by (auto simp: neq_Nil_conv)
qed

text \<open>Every rule has one of the three effects, relative to the state before the rule was
  recorded.\<close>

lemma rule_effect:
  assumes valid: "valid_definition d" and "\<not> decided st" and ok: "node_ok d byz H st"
    and st0: "q_round st0 = q_round st" "\<not> decided st0"
      "q_dedup_rules st = (rule, m_round m) # q_dedup_rules st0" "(rule, m_round m) \<notin> set (q_dedup_rules st0)"
    and just: "is_justified d inst m cfr = Inr True"
    and cl: "classify d ord inst (q_round st) p (q_buffer st) m = Inr (rule, js)"
  shows "step_effect d st0 (on_rule d env p rule m js st)"
proof -
  have q: "0 < quorum_count d" using qbft.quorum_positive [OF valid] .
  have buf: "buffer_ok d byz H (q_buffer st)" using ok by (simp add: node_ok_def)
  have sub: "set (q_dedup_rules st0) \<subseteq> set (q_dedup_rules st)" "decided st = decided st0"
    using st0 assms(2) by auto
  have silent: "quiet_effect st0 ([], Inl e :: qbft_error + ('b, 'c) qstate)" "quiet_effect st0 ([], Inr st)" for e
    using sub st0 by (auto simp: quiet_effect_def)
  show ?thesis
  proof (cases rule)
    case UPON_JUSTIFIED_PRE_PREPARE
    then show ?thesis
      using pre_prepare_quiet [OF st0(1) sub] classify_pre_prepare [of d ord inst "q_round st" p "q_buffer st" m js] cl
      by (simp add: step_effect_def)
  next
    case UPON_QUORUM_PREPARES
    then have "m_round m = q_round st"
      using classify_quorum_prepares [of d ord inst "q_round st" p "q_buffer st" m js, OF _ buf] cl by simp
    then show ?thesis
      using quorum_prepares_commit [OF st0(1) assms(2) st0(2)] st0 UPON_QUORUM_PREPARES
      by (simp add: step_effect_def subset_insertI2)
  next
    case UPON_QUORUM_COMMITS
    then show ?thesis
      using classify_commit_certificate [OF _ q] cl decided_decides [OF st0(2)] by (fastforce simp: step_effect_def)
  next
    case UPON_F_PLUS1_ROUND_CHANGES
    then obtain frc r' where "js = Some frc" "next_min_round d frc (q_round st) = Inr r'" "q_round st0 < r'"
      using classify_fplus1 [OF _ buf valid] cl st0(1) by fastforce
    then show ?thesis
      using round_change_quiet [of st0 r' st] sub(2) UPON_F_PLUS1_ROUND_CHANGES
      by (simp add: step_effect_def on_fplus1_round_changes_def)
  next
    case UPON_QUORUM_ROUND_CHANGES
    then show ?thesis by (simp add: step_effect_def quorum_round_changes_quiet [OF st0(1) sub])
  next
    case UPON_JUSTIFIED_DECIDED
    then have "m_type m = MSG_DECIDED" "js = Some (m_justification m)"
      using classify_justified_decided [of d ord inst "q_round st" p "q_buffer st" m js] cl by simp_all
    then show ?thesis
      using decided_certificate [OF just _ q] decided_decides [OF st0(2)] UPON_JUSTIFIED_DECIDED
      by (fastforce simp: step_effect_def)
  qed (use silent in \<open>simp_all add: step_effect_def\<close>)
qed

lemma step_effect_prefix:
  assumes "step_effect d st (os, res)" "commits_of l = []" "decides_of l = []"
  shows "step_effect d st (l @ os, res)"
  using assms by (simp add: step_effect_def quiet_effect_def commit_effect_def decide_effect_def)

lemma silent_quiet:
  "decided st' = decided st \<Longrightarrow> q_round st' = q_round st \<Longrightarrow> q_dedup_rules st' = q_dedup_rules st \<Longrightarrow>
     commits_of os = [] \<Longrightarrow> decides_of os = [] \<Longrightarrow> step_effect d st (os, Inr st')"
  "commits_of os = [] \<Longrightarrow> decides_of os = [] \<Longrightarrow> step_effect d st (os, Inl e)"
  by (simp_all add: step_effect_def quiet_effect_def)

lemma recv_effect:
  assumes valid: "valid_definition d" and ok: "node_ok d byz H st" and "deliverable d byz H m"
  shows "step_effect d st (on_recv d env inst p m st)"
proof (cases "decided st")
  case True
  then obtain c cs where "q_commit st = Some (c # cs)" by (auto simp: decided_def split: option.splits list.splits)
  then show ?thesis
    using quiet_broadcast [of MSG_DECIDED st st] by (auto simp: on_recv_def step_effect_def quiet_effect_def)
next
  case False
  define st1 where "st1 = buffer_msg d m st"
  have ok1: "node_ok d byz H st1" "\<not> decided st1" "q_round st1 = q_round st" "q_dedup_rules st1 = q_dedup_rules st"
    using buffer_msg_node_ok [OF ok] assms(3) False by (simp_all add: st1_def deliverable_def)
  define inner where "inner = (case classify d (e_order env) inst (q_round st1) p (q_buffer st1) m of
      Inl e \<Rightarrow> ([], Inl e)
    | Inr (rule, js) \<Rightarrow> if rule = UPON_NOTHING \<or> (rule, m_round m) \<in> set (q_dedup_rules st1) then ([], Inr st1)
        else let st = st1\<lparr>q_dedup_rules := (rule, m_round m) # q_dedup_rules st1\<rparr>
             in flow_bind ([LogUponRule (q_round st) m rule], Inr st) (on_rule d env p rule m js))"
  have recv: "on_recv d env inst p m st = (case is_justified d inst m (q_compare_failure_round st) of
      Inl e \<Rightarrow> ([], Inl e) | Inr just \<Rightarrow> if \<not> just then ([LogUnjust m], Inr st) else inner)"
    using False unfolding on_recv_def inner_def st1_def decided_def Let_def by (auto split: option.splits list.splits)
  have "step_effect d st inner" if just: "is_justified d inst m (q_compare_failure_round st) = Inr True"
  proof (cases "classify d (e_order env) inst (q_round st1) p (q_buffer st1) m")
    case (Inl e)
    then show ?thesis by (simp add: inner_def silent_quiet)
  next
    case (Inr rj)
    obtain rule js where rj: "rj = (rule, js)" by (cases rj)
    define st2 where "st2 = st1\<lparr>q_dedup_rules := (rule, m_round m) # q_dedup_rules st1\<rparr>"
    have "step_effect d st (on_rule d env p rule m js st2)" if "(rule, m_round m) \<notin> set (q_dedup_rules st1)"
      by (rule rule_effect [OF valid, where inst = inst and ord = "e_order env"])
        (use that ok1 False assms(3) just Inr rj in \<open>auto simp: st2_def node_ok_def\<close>)
    then show ?thesis
      unfolding inner_def Inr rj using False ok1
      by (auto simp: Let_def st2_def silent_quiet
          intro!: step_effect_prefix [where l = "[LogUponRule r m rule]" for r, simplified])
  qed
  then show ?thesis unfolding recv by (auto simp: silent_quiet split: sum.splits)
qed

lemma step_effect:
  assumes "valid_definition d" "node_ok d byz H st" "event_deliverable d byz H ev"
  shows "step_effect d st (qbft_step d env inst p ev st)"
proof (cases "event_enabled st ev")
  case True
  then have step: "qbft_step d env inst p ev st = on_event d env inst p ev st" by (simp add: qbft_step_def)
  show ?thesis
    unfolding step
  proof (cases ev)
    case (EvInput v)
    have "step_effect d st (on_input env p v st)"
      by (auto simp: on_input_def broadcast_msg_def flow_bind_def Let_def silent_quiet split: option.splits)
    then show "step_effect d st (on_event d env inst p ev st)" using EvInput by simp
  next
    case EvTimer
    then show "step_effect d st (on_event d env inst p ev st)"
      by (simp add: step_effect_def round_timeout_quiet)
  qed (use assms recv_effect [OF assms(1,2)] in \<open>auto simp: silent_quiet\<close>)
next
  case False
  then show ?thesis by (simp add: qbft_step_def silent_quiet)
qed

section \<open>The invariant of a process\<close>

definition keeps_inv :: "'i qbft_definition \<Rightarrow> int set \<Rightarrow> 'v header set \<Rightarrow> ('v, 'c) flow \<Rightarrow> bool" where
  "keeps_inv d byz H fl \<longleftrightarrow> (\<forall>st'. snd fl = Inr st' \<longrightarrow> node_inv d byz H st')"

lemma keeps_inv_simps [simp]: "keeps_inv d byz H (os, Inl e)" "keeps_inv d byz H (os, Inr st) \<longleftrightarrow> node_inv d byz H st"
  by (simp_all add: keeps_inv_def)

lemma keeps_inv_prefix [simp]: "keeps_inv d byz H (l @ fst fl, snd fl) = keeps_inv d byz H fl"
  by (simp add: keeps_inv_def)

lemma keeps_inv_broadcast [simp]:
  "node_inv d byz H st \<Longrightarrow> keeps_inv d byz H (broadcast_msg env p t v js st)"
  "node_inv d byz H st \<Longrightarrow> keeps_inv d byz H (broadcast_round_change env p st)"
  by (auto simp: keeps_inv_def dest: broadcast_msg_simps(2) broadcast_round_change_simps(2))

lemma node_inv_updates [simp]:
  "node_inv d byz H (st\<lparr>q_input_value_source := src\<rparr>) = node_inv d byz H st"
  "node_inv d byz H (st\<lparr>q_compare_failure_round := r\<rparr>) = node_inv d byz H st"
  "node_inv d byz H (st\<lparr>q_dedup_rules := ds\<rparr>) = node_inv d byz H st"
  "node_inv d byz H (st\<lparr>q_ppj_cache := c\<rparr>) = node_inv d byz H st"
  "node_inv d byz H (st\<lparr>q_input_value := v\<rparr>) = node_inv d byz H st"
  "node_inv d byz H (st\<lparr>q_input_open := b\<rparr>) = node_inv d byz H st"
  by (simp_all add: node_inv_def node_ok_def)

lemma node_inv_enter_round:
  assumes "node_inv d byz H st" "\<not> decided st" "q_round st \<le> r"
  shows "node_inv d byz H (enter_round r st\<lparr>q_timer := Some r\<rparr>)"
  using assms by (auto simp: node_inv_def node_ok_def)

lemma new_round_keeps_inv:
  assumes "node_inv d byz H st" "\<not> decided st" "q_round st \<le> r"
    "\<And>st'. st' = enter_round r st\<lparr>q_timer := Some r\<rparr> \<Longrightarrow> keeps_inv d byz H (f st')"
  shows "keeps_inv d byz H (flow_bind (change_round env r rule st) (\<lambda>st. flow_bind (restart_timer st) f))"
proof -
  obtain l where l: "flow_bind (change_round env r rule st) (\<lambda>st. flow_bind (restart_timer st) f) =
       (l @ fst (f (enter_round r st\<lparr>q_timer := Some r\<rparr>)), snd (f (enter_round r st\<lparr>q_timer := Some r\<rparr>)))"
    using new_round_then by blast
  show ?thesis unfolding l using assms(4) by simp
qed

lemma round_timeout_keeps_inv:
  assumes "node_inv d byz H st" "\<not> decided st"
  shows "keeps_inv d byz H (on_round_timeout env p st)"
proof (cases "checked_add_i64 (q_round st) 1")
  case None
  then show ?thesis by (simp add: on_round_timeout_def)
next
  case (Some r)
  then have r: "q_round st \<le> r" by (auto simp: checked_add_i64_def split: if_splits)
  have "keeps_inv d byz H (flow_bind (change_round env r UPON_ROUND_TIMEOUT st)
      (\<lambda>st. flow_bind (restart_timer st) (broadcast_round_change env p)))"
    by (rule new_round_keeps_inv [OF assms r]) (simp add: node_inv_enter_round [OF assms r])
  then show ?thesis unfolding on_round_timeout_def Some option.case .
qed

lemma pre_prepare_keeps_inv:
  assumes "node_inv d byz H st" "\<not> decided st" "q_round st \<le> m_round m"
  shows "keeps_inv d byz H (on_justified_pre_prepare env p m st)"
  unfolding on_justified_pre_prepare_def
proof (rule new_round_keeps_inv [OF assms])
  fix st' assume st': "st' = enter_round (m_round m) st\<lparr>q_timer := Some (m_round m)\<rparr>"
  then have inv: "node_inv d byz H st'" "\<not> decided st'" using node_inv_enter_round [OF assms] assms(2) by auto
  show "keeps_inv d byz H (case compare env m (q_input_value_source st') of
      (src, result) \<Rightarrow> on_compare_result env p m result (st'\<lparr>q_input_value_source := src\<rparr>))"
    using inv round_timeout_keeps_inv [of d byz H "st'\<lparr>q_input_value_source := src\<rparr>" env p for src]
    by (auto simp: on_compare_result_def split: prod.splits sum.splits qbft_error.splits)
qed

lemma rule_keeps_inv:
  assumes valid: "valid_definition d" and "\<not> decided st" and inv: "node_inv d byz H st"
    and just: "is_justified d inst m cfr = Inr True"
    and cl: "classify d ord inst (q_round st) p (q_buffer st) m = Inr (rule, js)"
  shows "keeps_inv d byz H (on_rule d env p rule m js st)"
proof -
  have q: "0 < quorum_count d" using qbft.quorum_positive [OF valid] .
  have buf: "buffer_ok d byz H (q_buffer st)" using inv by (simp add: node_inv_def node_ok_def)
  have decide: "keeps_inv d byz H (on_decided env r m (Some (c # cs)) st)" for r c cs
    using inv by (auto simp: on_decided_def change_round_def flow_bind_def node_inv_def node_ok_def decided_def)
  show ?thesis
  proof (cases rule)
    case UPON_JUSTIFIED_PRE_PREPARE
    then show ?thesis
      using pre_prepare_keeps_inv [OF inv assms(2)] classify_pre_prepare [of d ord inst "q_round st" p "q_buffer st" m js] cl
      by simp
  next
    case UPON_QUORUM_PREPARES
    have "node_inv d byz H (st\<lparr>q_prepared_round := q_round st, q_prepared_value := m_value m, q_prepared_justification := js\<rparr>)"
      using inv assms(2) by (simp add: node_inv_def node_ok_def)
    then show ?thesis using UPON_QUORUM_PREPARES by (simp add: on_quorum_prepares_def Let_def)
  next
    case UPON_QUORUM_COMMITS
    then show ?thesis using classify_commit_certificate [OF _ q] cl decide by fastforce
  next
    case UPON_F_PLUS1_ROUND_CHANGES
    then obtain frc r' where r': "js = Some frc" "next_min_round d frc (q_round st) = Inr r'" "q_round st \<le> r'"
      using classify_fplus1 [OF _ buf valid] cl by fastforce
    have "keeps_inv d byz H (flow_bind (change_round env r' UPON_F_PLUS1_ROUND_CHANGES st)
        (\<lambda>st. flow_bind (restart_timer st) (broadcast_round_change env p)))"
      by (rule new_round_keeps_inv [OF inv assms(2) r'(3)]) (simp add: node_inv_enter_round [OF inv assms(2) r'(3)])
    then show ?thesis using r' UPON_F_PLUS1_ROUND_CHANGES by (simp add: on_fplus1_round_changes_def)
  next
    case UPON_QUORUM_ROUND_CHANGES
    then show ?thesis
      using inv by (auto simp: on_quorum_round_changes_def broadcast_own_pre_prepare_def split: option.splits)
  next
    case UPON_JUSTIFIED_DECIDED
    then have "m_type m = MSG_DECIDED" "js = Some (m_justification m)"
      using classify_justified_decided [of d ord inst "q_round st" p "q_buffer st" m js] cl by simp_all
    then show ?thesis using decided_certificate [OF just _ q] decide UPON_JUSTIFIED_DECIDED by fastforce
  qed (use inv in simp_all)
qed

lemma buffer_msg_bounded:
  assumes "buffer_bounded d (q_buffer st)"
  shows "buffer_bounded d (q_buffer (buffer_msg d m st))"
proof -
  define fifo where "fifo = (case map_of (q_buffer st) (m_source m) of None \<Rightarrow> [] | Some fifo \<Rightarrow> fifo) @ [m]"
  define new where "new = drop (length fifo - nat (fifo_limit d)) fifo"
  have dist: "distinct (keys (q_buffer st))" using assms by (simp add: buffer_bounded_def)
  have "m_source x = m_source m" if "x \<in> set fifo" for x
  proof (cases "map_of (q_buffer st) (m_source m)")
    case None
    then show ?thesis using that by (simp add: fifo_def)
  next
    case (Some old)
    then show ?thesis using that assms map_of_SomeD [OF Some] by (auto simp: buffer_bounded_def fifo_def)
  qed
  then have "\<forall>x \<in> set new. m_source x = m_source m" unfolding new_def by (meson in_set_dropD)
  moreover have "length new \<le> nat (fifo_limit d)" by (simp add: new_def)
  ultimately have "\<forall>(src, ms) \<in> set (AList.update (m_source m) new (q_buffer st)).
      length ms \<le> nat (fifo_limit d) \<and> (\<forall>x \<in> set ms. m_source x = src)"
    using set_values_update_subset [OF dist, of _ _ "m_source m" new] assms unfolding buffer_bounded_def by fastforce
  moreover have "q_buffer (buffer_msg d m st) = AList.update (m_source m) new (q_buffer st)"
    by (simp add: buffer_msg_def Let_def fifo_def new_def)
  ultimately show ?thesis using dist by (simp add: buffer_bounded_def distinct_update)
qed

lemma buffer_msg_inv:
  assumes "node_inv d byz H st" "deliverable d byz H m"
  shows "node_inv d byz H (buffer_msg d m st)"
  using assms buffer_msg_node_ok [of d byz H st m] buffer_msg_bounded [of d st m]
  by (simp add: node_inv_def deliverable_def) (simp add: buffer_msg_def Let_def)

lemma recv_keeps_inv:
  assumes valid: "valid_definition d" and inv: "node_inv d byz H st" and "deliverable d byz H m"
  shows "keeps_inv d byz H (on_recv d env inst p m st)"
proof (cases "decided st")
  case True
  then show ?thesis using inv by (auto simp: on_recv_def decided_def split: option.splits list.splits)
next
  case False
  define st1 where "st1 = buffer_msg d m st"
  have ok1: "node_inv d byz H st1" "\<not> decided st1"
    using buffer_msg_inv [OF inv assms(3)] False by (simp_all add: st1_def)
  have "keeps_inv d byz H (on_rule d env p rule m js (st1\<lparr>q_dedup_rules := (rule, m_round m) # q_dedup_rules st1\<rparr>))"
    if "is_justified d inst m (q_compare_failure_round st) = Inr True"
      "classify d (e_order env) inst (q_round st1) p (q_buffer st1) m = Inr (rule, js)" for rule js
    by (rule rule_keeps_inv [OF valid _ _ that(1), where ord = "e_order env"]) (use that ok1 in auto)
  then show ?thesis
    using False ok1 inv unfolding on_recv_def Let_def st1_def [symmetric]
    by (auto simp: keeps_inv_def decided_def split: option.splits list.splits sum.splits prod.splits if_splits)
qed

lemma step_keeps_inv:
  assumes "valid_definition d" "node_inv d byz H st" "event_deliverable d byz H ev"
  shows "keeps_inv d byz H (qbft_step d env inst p ev st)"
proof (cases "event_enabled st ev")
  case True
  then have step: "qbft_step d env inst p ev st = on_event d env inst p ev st" by (simp add: qbft_step_def)
  show ?thesis
    unfolding step
  proof (cases ev)
    case (EvInput v)
    have "st' = st\<lparr>q_input_value := v, q_input_open := False\<rparr>" if "snd (on_input env p v st) = Inr st'" for st'
      using that by (auto simp: on_input_def broadcast_msg_def Let_def split: option.splits if_splits)
    then show "keeps_inv d byz H (on_event d env inst p ev st)" using EvInput assms(2) by (auto simp: keeps_inv_def)
  next
    case EvTimer
    then have "\<not> decided st" using True assms(2) by (auto simp: node_inv_def node_ok_def)
    then show "keeps_inv d byz H (on_event d env inst p ev st)" using round_timeout_keeps_inv [OF assms(2)] EvTimer by simp
  qed (use assms recv_keeps_inv [OF assms(1,2)] in auto)
next
  case False
  then show ?thesis using assms(2) by (simp add: qbft_step_def)
qed

lemma start_inv:
  assumes "qbft_start d env inst p src = (os, Inr st)"
  shows "node_inv d byz H st \<and> \<not> decided st \<and> commits_of os = [] \<and> decides_of os = [] \<and> q_dedup_rules st = []"
  using assms
  by (auto simp: qbft_start_def initial_state_def broadcast_own_pre_prepare_def node_inv_def node_ok_def buffer_ok_def
      buffer_bounded_def flow_bind_def broadcast_msg_def decided_def Let_def
      split: sum.splits if_splits option.splits)

section \<open>Whole runs\<close>

text \<open>What the effects of a run so far say about the state it has reached.\<close>

definition run_trace_ok :: "'i qbft_definition \<Rightarrow> 'v action list \<Rightarrow> bool" where
  "run_trace_ok d os \<longleftrightarrow> distinct (map fst (commits_of os)) \<and> length (decides_of os) \<le> 1
     \<and> (\<forall>(v, js) \<in> set (decides_of os). commit_certificate d js v)"

definition trace_matches :: "'v action list \<Rightarrow> ('v, 'c) qstate \<Rightarrow> bool" where
  "trace_matches os st \<longleftrightarrow> (\<not> decided st \<longrightarrow> decides_of os = [] \<and>
     (\<forall>(r, v) \<in> set (commits_of os). r < q_round st
        \<or> r = q_round st \<and> (UPON_QUORUM_PREPARES, r) \<in> set (q_dedup_rules st)))"

lemma trace_matches_later:
  assumes "trace_matches os st" "\<not> decided st' \<Longrightarrow> \<not> decided st"
    "\<not> decided st' \<Longrightarrow> q_round st < q_round st'
      \<or> q_round st = q_round st' \<and> set (q_dedup_rules st) \<subseteq> set (q_dedup_rules st')"
  shows "trace_matches os st'"
  unfolding trace_matches_def
proof (intro impI conjI ballI)
  assume nd: "\<not> decided st'"
  then show "decides_of os = []" using assms(1,2) by (simp add: trace_matches_def)
  fix x assume x: "x \<in> set (commits_of os)"
  obtain r v where rv: "x = (r, v)" by (cases x)
  have "r < q_round st \<or> r = q_round st \<and> (UPON_QUORUM_PREPARES, r) \<in> set (q_dedup_rules st)"
    using assms(1) assms(2) [OF nd] x rv by (auto simp: trace_matches_def)
  then show "case x of (r, v) \<Rightarrow> r < q_round st' \<or> r = q_round st' \<and> (UPON_QUORUM_PREPARES, r) \<in> set (q_dedup_rules st')"
    using assms(3) [OF nd] rv by auto
qed

lemma step_trace:
  assumes "step_effect d st (os, res)" "run_trace_ok d os0" "trace_matches os0 st"
  shows "run_trace_ok d (os0 @ os) \<and> (\<forall>st'. res = Inr st' \<longrightarrow> trace_matches (os0 @ os) st')"
  using assms(1) unfolding step_effect_def
proof (elim disjE)
  assume q: "quiet_effect st (os, res)"
  then have "commits_of os = []" "decides_of os = []" by (simp_all add: quiet_effect_def)
  moreover have "trace_matches os0 st'" if "res = Inr st'" for st'
    by (rule trace_matches_later [OF assms(3)]) (use q that in \<open>auto simp: quiet_effect_def\<close>)
  ultimately show ?thesis using assms(2) by (simp add: run_trace_ok_def trace_matches_def)
next
  assume "commit_effect st (os, res)"
  then obtain v where c: "\<not> decided st" "commits_of os = [(q_round st, v)]" "decides_of os = []"
    "(UPON_QUORUM_PREPARES, q_round st) \<notin> set (q_dedup_rules st)"
    and st': "\<And>st'. res = Inr st' \<Longrightarrow> \<not> decided st' \<and> q_round st' = q_round st
      \<and> insert (UPON_QUORUM_PREPARES, q_round st) (set (q_dedup_rules st)) \<subseteq> set (q_dedup_rules st')"
    unfolding commit_effect_def fst_conv snd_conv by blast
  have "q_round st \<notin> fst ` set (commits_of os0)"
  proof
    assume "q_round st \<in> fst ` set (commits_of os0)"
    then obtain w where "(q_round st, w) \<in> set (commits_of os0)" by auto
    then show False using assms(3) c(1,4) unfolding trace_matches_def by blast
  qed
  then have "run_trace_ok d (os0 @ os)" using assms(2) c by (simp add: run_trace_ok_def)
  moreover have "trace_matches (os0 @ os) st'" if "res = Inr st'" for st'
  proof -
    have "trace_matches os0 st'"
      by (rule trace_matches_later [OF assms(3)]) (use st' [OF that] c(1) in auto)
    then show ?thesis using st' [OF that] c by (simp add: trace_matches_def)
  qed
  ultimately show ?thesis by blast
next
  assume "decide_effect d st (os, res)"
  then show ?thesis using assms(2,3) by (auto simp: decide_effect_def run_trace_ok_def trace_matches_def)
qed

lemma loop_trace:
  assumes "valid_definition d" "\<forall>(env, ev) \<in> set evs. event_deliverable d byz H ev"
    and "node_inv d byz H st" "run_trace_ok d os0" "trace_matches os0 st"
    and "qbft_loop d inst p evs st = (os, res)"
  shows "run_trace_ok d (os0 @ os) \<and> (\<forall>st'. res = Inr st' \<longrightarrow> node_inv d byz H st' \<and> trace_matches (os0 @ os) st')"
  using assms(2-)
proof (induction evs arbitrary: st os0 os)
  case Nil
  then show ?case by auto
next
  case (Cons e evs)
  obtain env ev where e: "e = (env, ev)" by (cases e)
  obtain os1 res1 where step: "qbft_step d env inst p ev st = (os1, res1)" by (cases "qbft_step d env inst p ev st")
  have wire: "event_deliverable d byz H ev" using Cons.prems(1) e by simp
  have ok: "node_ok d byz H st" using Cons.prems(2) by (simp add: node_inv_def)
  note trace = step_trace [OF step_effect [OF assms(1) ok wire, where env = env and inst = inst and p = p, unfolded step]
      Cons.prems(3,4)]
  show ?case
  proof (cases res1)
    case (Inl x)
    then show ?thesis using trace Cons.prems(5) e step by (auto simp: flow_bind_def)
  next
    case (Inr st1)
    have inv1: "node_inv d byz H st1"
      using step_keeps_inv [OF assms(1) Cons.prems(2) wire, of env inst p] step Inr by (simp add: keeps_inv_def)
    obtain os2 where os: "os = os1 @ os2" "qbft_loop d inst p evs st1 = (os2, res)"
      using Cons.prems(5) e step Inr by (auto simp: flow_bind_def split: prod.splits)
    then show ?thesis
      using Cons.IH [of st1 "os0 @ os1" os2] trace Inr inv1 Cons.prems(1) by simp
  qed
qed

text \<open>A whole run: the start, then the loop over a list of events.\<close>

definition qbft_run ::
  "'i qbft_definition \<Rightarrow> ('v :: zero, 'c) qenv \<Rightarrow> 'i \<Rightarrow> int \<Rightarrow> 'c \<Rightarrow> (('v, 'c) qenv \<times> 'v qevent) list
     \<Rightarrow> ('v, 'c) flow" where
  "qbft_run d env inst p src evs = flow_bind (qbft_start d env inst p src) (qbft_loop d inst p evs)"

lemma run_trace:
  assumes "valid_definition d" "\<forall>(env, ev) \<in> set evs. wire_event d ev" "qbft_run d env inst p src evs = (os, res)"
  shows "run_trace_ok d os \<and> (\<forall>st'. res = Inr st' \<longrightarrow> node_inv d UNIV {} st' \<and> trace_matches os st')"
proof -
  obtain os1 res1 where start: "qbft_start d env inst p src = (os1, res1)" by (cases "qbft_start d env inst p src")
  show ?thesis
  proof (cases res1)
    case (Inl e)
    have "commits_of os1 = [] \<and> decides_of os1 = []"
      using start Inl by (auto simp: qbft_start_def broadcast_own_pre_prepare_def flow_bind_def broadcast_msg_def Let_def
        split: sum.splits if_splits option.splits)
    then show ?thesis using assms(3) start Inl by (auto simp: qbft_run_def flow_bind_def run_trace_ok_def)
  next
    case (Inr st)
    have inv: "node_inv d UNIV {} st" "run_trace_ok d os1" "trace_matches os1 st"
      using start_inv [OF start [unfolded Inr]] by (simp_all add: run_trace_ok_def trace_matches_def)
    obtain os2 where "os = os1 @ os2" "qbft_loop d inst p evs st = (os2, res)"
      using assms(3) start Inr by (auto simp: qbft_run_def flow_bind_def split: prod.splits)
    then show ?thesis using loop_trace [OF assms(1) _ inv] assms(2) by (simp add: wire_event_def)
  qed
qed

text \<open>The events of process 0 in a run of four processes: the proposal of 7, then a quorum of
  PREPAREs and one of COMMITs.\<close>

definition sample_events :: "((int, unit) qenv \<times> int qevent) list" where
  "sample_events = map (\<lambda>m. (plain_env, EvRecv m))
     (Msg MSG_PRE_PREPARE 2 1 7 0 0 [] # votes MSG_PREPARE 1 7 [0, 1, 2] @ votes MSG_COMMIT 1 7 [0, 1, 2])"

lemma sample_events_wire: "\<forall>(env, ev) \<in> set sample_events. wire_event four_nodes ev"
  by (simp add: sample_events_def votes_def wire_event_def deliverable_def authentic_def processes_def four_nodes_def
      in_i64_def i64_min_def i64_max_def)

lemma sample_run:
  "commits_of (fst (qbft_run four_nodes plain_env () 0 () sample_events)) = [(1, 7)]"
  "map fst (decides_of (fst (qbft_run four_nodes plain_env () 0 () sample_events))) = [7]"
  by code_simp+

text \<open>
  C3. Over a whole run a process broadcasts at most one COMMIT per round, whatever messages
  it receives.
\<close>

theorem qbft_commit_once_per_round:
  assumes "valid_definition d" "\<forall>(env, ev) \<in> set evs. wire_event d ev"
  shows "distinct (map fst (commits_of (fst (qbft_run d env inst p src evs))))"
  using run_trace [OF assms] by (metis prod.collapse run_trace_ok_def)

theorem qbft_commit_once_per_round_witness:
  "distinct (map fst (commits_of (fst (qbft_run four_nodes plain_env () 0 () sample_events))))
   \<and> commits_of (fst (qbft_run four_nodes plain_env () 0 () sample_events)) = [(1, 7)]"
  using qbft_commit_once_per_round [OF four_nodes_valid(1) sample_events_wire] sample_run(1) by blast

text \<open>
  C4. Over a whole run a process decides at most once, and the messages it hands to the
  decision callback contain a quorum of COMMITs from distinct sources for the decided value.
\<close>

theorem qbft_decides_once_with_quorum:
  assumes "valid_definition d" "\<forall>(env, ev) \<in> set evs. wire_event d ev"
    and "decs = decides_of (fst (qbft_run d env inst p src evs))"
  shows "length decs \<le> 1 \<and> (\<forall>(v, js) \<in> set decs. commit_certificate d js v)"
  using run_trace [OF assms(1,2), of env inst p src] assms(3) unfolding run_trace_ok_def by (metis prod.collapse)

theorem qbft_decides_once_with_quorum_witness:
  "list_all (\<lambda>(v, js). commit_certificate four_nodes js v)
     (decides_of (fst (qbft_run four_nodes plain_env () 0 () sample_events)))
   \<and> map fst (decides_of (fst (qbft_run four_nodes plain_env () 0 () sample_events))) = [7]"
  using qbft_decides_once_with_quorum [OF four_nodes_valid(1) sample_events_wire refl] sample_run(2)
  by (simp add: list_all_iff)

text \<open>
  C5. Every state a process reaches satisfies the invariant of the run loop: each source
  holds at most \<open>fifo_limit\<close> buffered messages, all of that source; a decided process has no
  timer; an undecided one is in a positive round, not before its prepared round.
\<close>

theorem qbft_run_invariant:
  assumes "valid_definition d" "\<forall>(env, ev) \<in> set evs. wire_event d ev"
    and "snd (qbft_run d env inst p src evs) = Inr st"
  shows "buffer_bounded d (q_buffer st) \<and> (decided st \<longrightarrow> q_timer st = None)
    \<and> (\<not> decided st \<longrightarrow> 1 \<le> q_round st \<and> 0 \<le> q_prepared_round st \<and> q_prepared_round st \<le> q_round st)"
  using run_trace [OF assms(1,2), of env inst p src] assms(3)
  by (cases "qbft_run d env inst p src evs") (auto simp: node_inv_def node_ok_def)

theorem qbft_run_invariant_witness:
  "\<exists>st. snd (qbft_run four_nodes plain_env () 0 () sample_events) = Inr st \<and> buffer_bounded four_nodes (q_buffer st)"
proof -
  have "(case snd (qbft_run four_nodes plain_env () 0 () sample_events) of Inl e \<Rightarrow> False | Inr st \<Rightarrow> True)"
    by code_simp
  then obtain st where "snd (qbft_run four_nodes plain_env () 0 () sample_events) = Inr st"
    by (auto split: sum.splits)
  then show ?thesis
    using qbft_run_invariant [OF four_nodes_valid(1) sample_events_wire, of plain_env "()" 0 "()" st] by blast
qed

section \<open>Absence of panics\<close>

definition calm :: "('v, 'c) flow \<Rightarrow> bool" where
  "calm fl \<longleftrightarrow> (\<forall>s. snd fl \<noteq> Inl (Panic s))"

definition env_calm :: "('v, 'c) qenv \<Rightarrow> bool" where
  "env_calm env \<longleftrightarrow> (\<forall>rq s. e_broadcast env rq \<noteq> Some (Panic s))"

text \<open>The headers that are not round changes into round 1; no process that follows the
  protocol sends such a round change.\<close>

definition no_first_round_change :: "'v header set" where
  "no_first_round_change = {h. \<not> (h_type h = MSG_ROUND_CHANGE \<and> h_round h = 1)}"

text \<open>A cached justification belongs to the start of round 1 or to a recorded quorum of round
  changes of the current round.\<close>

definition cache_ok :: "('v, 'c) qstate \<Rightarrow> bool" where
  "cache_ok st \<longleftrightarrow> (q_ppj_cache st \<noteq> None \<longrightarrow>
     q_round st = 1 \<or> (UPON_QUORUM_ROUND_CHANGES, q_round st) \<in> set (q_dedup_rules st))"

definition calm_with_cache :: "('v, 'c) flow \<Rightarrow> bool" where
  "calm_with_cache fl \<longleftrightarrow> calm fl \<and> (\<forall>st'. snd fl = Inr st' \<longrightarrow> cache_ok st')"

lemma calm_simps [simp]:
  "calm_with_cache (os, Inr st) \<longleftrightarrow> cache_ok st" "calm_with_cache (os, Inl e) \<longleftrightarrow> (\<forall>s. e \<noteq> Panic s)"
  "calm_with_cache (l @ fst fl, snd fl) \<longleftrightarrow> calm_with_cache fl"
  "calm_with_cache (x # l @ fst fl, snd fl) \<longleftrightarrow> calm_with_cache fl"
  "calm_with_cache (x # fst fl, snd fl) \<longleftrightarrow> calm_with_cache fl"
  by (simp_all add: calm_with_cache_def calm_def)

lemma calm_broadcast [simp]:
  "env_calm env \<Longrightarrow> cache_ok st \<Longrightarrow> calm_with_cache (broadcast_msg env p t v js st)"
  "env_calm env \<Longrightarrow> cache_ok st \<Longrightarrow> calm_with_cache (broadcast_round_change env p st)"
  by (auto simp: broadcast_msg_def broadcast_round_change_def env_calm_def Let_def split: option.splits)

lemma cache_ok_updates [simp]:
  "cache_ok (st\<lparr>q_timer := t\<rparr>) = cache_ok st" "cache_ok (st\<lparr>q_input_value_source := src\<rparr>) = cache_ok st"
  "cache_ok (st\<lparr>q_compare_failure_round := r\<rparr>) = cache_ok st" "cache_ok (st\<lparr>q_input_value := v\<rparr>) = cache_ok st"
  "cache_ok (st\<lparr>q_input_open := b\<rparr>) = cache_ok st" "cache_ok (st\<lparr>q_commit := c\<rparr>) = cache_ok st"
  "cache_ok (st\<lparr>q_prepared_round := r, q_prepared_value := v, q_prepared_justification := js\<rparr>) = cache_ok st"
  "cache_ok st \<Longrightarrow> cache_ok (enter_round r st)" "cache_ok (buffer_msg d m st) = cache_ok st"
  "cache_ok st \<Longrightarrow> cache_ok (st\<lparr>q_dedup_rules := x # q_dedup_rules st\<rparr>)"
  by (auto simp: cache_ok_def enter_round_def buffer_msg_def Let_def)

lemma calm_new_round:
  assumes "cache_ok st" "\<And>st'. cache_ok st' \<Longrightarrow> q_round st' = r \<Longrightarrow> calm_with_cache (f st')"
  shows "calm_with_cache (flow_bind (change_round env r rule st) (\<lambda>st. flow_bind (restart_timer st) f))"
proof -
  obtain l where l: "flow_bind (change_round env r rule st) (\<lambda>st. flow_bind (restart_timer st) f) =
       (l @ fst (f (enter_round r st\<lparr>q_timer := Some r\<rparr>)), snd (f (enter_round r st\<lparr>q_timer := Some r\<rparr>)))"
    using new_round_then by blast
  show ?thesis unfolding l using assms by simp
qed

lemma calm_round_timeout:
  assumes "cache_ok st" "env_calm env" "in_i64 (q_round st + 1)"
  shows "calm_with_cache (on_round_timeout env p st)"
  using assms by (auto simp: on_round_timeout_def checked_add_i64_def intro!: calm_new_round)

lemma calm_pre_prepare:
  assumes "cache_ok st" "env_calm env" "in_i64 (m_round m + 1)"
  shows "calm_with_cache (on_justified_pre_prepare env p m st)"
  unfolding on_justified_pre_prepare_def
proof (rule calm_new_round [OF assms(1)])
  fix st' :: "('a, 'b) qstate" assume st': "cache_ok st'" "q_round st' = m_round m"
  have "calm_with_cache (on_compare_result env p m res (st'\<lparr>q_input_value_source := src\<rparr>))" for res src
    using st' assms calm_round_timeout [of "st'\<lparr>q_input_value_source := src\<rparr>" env p]
    by (auto simp: on_compare_result_def split: sum.splits qbft_error.splits)
  then show "calm_with_cache (case compare env m (q_input_value_source st') of
      (src, result) \<Rightarrow> on_compare_result env p m result (st'\<lparr>q_input_value_source := src\<rparr>))"
    by (simp split: prod.splits)
qed

lemma buffer_flatten:
  assumes "buffer_ok d byz H buf"
  shows "\<exists>all. flatten ord buf = Inr all"
  using assms by (intro flatten_total) (fastforce simp: buffer_ok_def deliverable_def)

lemma message_type_cases:
  "message_type_valid t \<Longrightarrow> t \<in> {MSG_PRE_PREPARE, MSG_PREPARE, MSG_COMMIT, MSG_ROUND_CHANGE, MSG_DECIDED}"
  by (auto simp: message_type_valid_def)

lemma classify_total:
  assumes "buffer_ok d byz H buf" "message_type_valid (m_type m)"
  shows "\<exists>rule js. classify d ord inst r p buf m = Inr (rule, js) \<and> rule \<noteq> UPON_ROUND_TIMEOUT"
  using buffer_flatten [OF assms(1), of ord] message_type_cases [OF assms(2)]
  by (fastforce simp: classify_def res_bind_def Let_def split: option.splits)

lemma is_justified_total:
  assumes "message_type_valid (m_type m)" "in_i64 (cfr + 1)"
  shows "\<exists>b. is_justified d inst m cfr = Inr b"
  using message_type_cases [OF assms(1)] assms(2)
  by (auto simp: is_justified_def is_justified_pre_prepare_def is_justified_decided_def is_justified_round_change_def
      checked_add_i64_def Let_def)

text \<open>A quorum of round changes into round 1 would need that many faulty processes.\<close>

lemma no_quorum_of_first_round_changes:
  assumes "classify d ord inst r p buf m = Inr (UPON_QUORUM_ROUND_CHANGES, js)"
    "buffer_ok d byz no_first_round_change buf" "finite byz" "card byz < quorum_count d"
  shows "m_round m = r \<and> r \<noteq> 1"
proof -
  from assms(1) obtain all where all: "flatten ord buf = Inr all" "m_round m = r"
    "quorum_count d \<le> length (filter_round_change all r)"
    by (auto simp: classify_def res_bind_def Let_def split: if_splits sum.splits option.splits)
  have "r \<noteq> 1"
  proof
    assume r: "r = 1"
    have "m_source x \<in> byz" if "x \<in> set (filter_round_change all r)" for x
    proof -
      have x: "x \<in> set all" "m_type x = MSG_ROUND_CHANGE" "m_round x = r"
        using filter_msgsD(1-3) [OF that [unfolded filter_round_change_def]] by auto
      show ?thesis
        using flatten_authentic [OF all(1) assms(2) x(1)] x r
        by (simp add: authentic_def no_first_round_change_def header_of_def)
    qed
    then have "m_source ` set (filter_round_change all r) \<subseteq> byz" by blast
    then have "length (filter_round_change all r) \<le> card byz"
      unfolding filter_round_change_def length_filter_msgs by (rule card_mono [OF assms(3)])
    then show False using all(3) assms(4) by simp
  qed
  then show ?thesis using all(2) by simp
qed

lemma calm_own_pre_prepare:
  assumes "env_calm env" "q_ppj_cache st = None" "(UPON_QUORUM_ROUND_CHANGES, q_round st) \<in> set (q_dedup_rules st)"
  shows "calm_with_cache (broadcast_own_pre_prepare env p js st)"
  using assms by (auto simp: broadcast_own_pre_prepare_def cache_ok_def)

lemma calm_rule:
  assumes valid: "valid_definition d" and env: "env_calm env" and "finite byz" "card byz < quorum_count d"
    and buf: "buffer_ok d byz no_first_round_change (q_buffer st)" and "in_i64 (m_round m + 1)"
    and just: "is_justified d inst m cfr = Inr True"
    and cl: "classify d ord inst (q_round st) p (q_buffer st) m = Inr (rule, js)"
    and "rule \<noteq> UPON_NOTHING" "rule \<noteq> UPON_ROUND_TIMEOUT"
    and cache: "cache_ok st0" "q_ppj_cache st = q_ppj_cache st0" "q_round st = q_round st0"
      "q_dedup_rules st = (rule, m_round m) # q_dedup_rules st0" "(rule, m_round m) \<notin> set (q_dedup_rules st0)"
  shows "calm_with_cache (on_rule d env p rule m js st)"
proof -
  have q: "0 < quorum_count d" using qbft.quorum_positive [OF valid] .
  have ok: "cache_ok st" using cache by (auto simp: cache_ok_def)
  have decide: "calm_with_cache (on_decided env r m (Some (c # cs)) st)" for r c cs
    using ok by (auto simp: on_decided_def change_round_def flow_bind_def cache_ok_def)
  show ?thesis
  proof (cases rule)
    case UPON_JUSTIFIED_PRE_PREPARE
    then show ?thesis using calm_pre_prepare [OF ok env assms(6)] by simp
  next
    case UPON_QUORUM_PREPARES
    then show ?thesis using ok env by (simp add: on_quorum_prepares_def Let_def)
  next
    case UPON_QUORUM_COMMITS
    then show ?thesis using classify_commit_certificate [OF _ q] cl decide by fastforce
  next
    case UPON_F_PLUS1_ROUND_CHANGES
    then obtain frc r' where "js = Some frc" "next_min_round d frc (q_round st) = Inr r'"
      using classify_fplus1 [OF _ buf valid] cl by fastforce
    then show ?thesis
      using UPON_F_PLUS1_ROUND_CHANGES ok env by (auto simp: on_fplus1_round_changes_def intro!: calm_new_round)
  next
    case UPON_QUORUM_ROUND_CHANGES
    have r: "m_round m = q_round st" "q_round st \<noteq> 1"
      using no_quorum_of_first_round_changes [OF _ buf assms(3,4)] cl UPON_QUORUM_ROUND_CHANGES by blast+
    then have "q_ppj_cache st = None" using cache UPON_QUORUM_ROUND_CHANGES by (auto simp: cache_ok_def)
    moreover have "js \<noteq> None"
      using cl UPON_QUORUM_ROUND_CHANGES
      by (auto simp: classify_def res_bind_def Let_def split: if_splits sum.splits option.splits dest: sym)
    ultimately show ?thesis
      using UPON_QUORUM_ROUND_CHANGES ok env r cache calm_own_pre_prepare [OF env]
      by (auto simp: on_quorum_round_changes_def split: option.splits)
  next
    case UPON_JUSTIFIED_DECIDED
    then have "m_type m = MSG_DECIDED" "js = Some (m_justification m)"
      using classify_justified_decided [of d ord inst "q_round st" p "q_buffer st" m js] cl by simp_all
    then show ?thesis using decided_certificate [OF just _ q] decide UPON_JUSTIFIED_DECIDED by fastforce
  qed (use ok assms(9,10) in auto)
qed

lemma calm_recv:
  assumes valid: "valid_definition d" and env: "env_calm env" and "finite byz" "card byz < quorum_count d"
    and inv: "node_inv d byz no_first_round_change st" "cache_ok st"
    and m: "deliverable d byz no_first_round_change m" "message_type_valid (m_type m)"
      "in_i64 (m_round m + 1)" "in_i64 (q_compare_failure_round st + 1)"
  shows "calm_with_cache (on_recv d env inst p m st)"
proof (cases "decided st")
  case True
  then show ?thesis using inv env by (auto simp: on_recv_def decided_def split: option.splits list.splits)
next
  case False
  define st1 where "st1 = buffer_msg d m st"
  have inv1: "node_inv d byz no_first_round_change st1" "cache_ok st1"
    using buffer_msg_inv [OF inv(1) m(1)] inv(2) by (simp_all add: st1_def)
  then have buf: "buffer_ok d byz no_first_round_change (q_buffer st1)" by (simp add: node_inv_def node_ok_def)
  obtain b where b: "is_justified d inst m (q_compare_failure_round st) = Inr b"
    using is_justified_total [OF m(2,4), of d inst] by blast
  obtain rule js where cl: "classify d (e_order env) inst (q_round st1) p (q_buffer st1) m = Inr (rule, js)"
      "rule \<noteq> UPON_ROUND_TIMEOUT"
    using classify_total [OF buf m(2), of "e_order env" inst "q_round st1" p] by blast
  define st2 where "st2 = st1\<lparr>q_dedup_rules := (rule, m_round m) # q_dedup_rules st1\<rparr>"
  have "calm_with_cache (on_rule d env p rule m js st2)"
    if "b" "rule \<noteq> UPON_NOTHING" "(rule, m_round m) \<notin> set (q_dedup_rules st1)"
    by (rule calm_rule [OF valid env assms(3,4), where inst = inst and ord = "e_order env" and ?st0.0 = st1
          and cfr = "q_compare_failure_round st"])
      (use that buf m b cl inv1 in \<open>auto simp: st2_def\<close>)
  moreover have "on_recv d env inst p m st = (if \<not> b then ([LogUnjust m], Inr st)
      else if rule = UPON_NOTHING \<or> (rule, m_round m) \<in> set (q_dedup_rules st1) then ([], Inr st1)
      else flow_bind ([LogUponRule (q_round st2) m rule], Inr st2) (on_rule d env p rule m js))"
    using False cl unfolding on_recv_def Let_def st1_def [symmetric] st2_def
    by (auto simp: b decided_def split: option.splits list.splits)
  ultimately show ?thesis using inv inv1 by auto
qed

lemma calm_input:
  assumes "env_calm env" "cache_ok st"
  shows "calm_with_cache (on_input env p v st)"
  using assms by (auto simp: on_input_def broadcast_msg_def flow_bind_def env_calm_def Let_def split: option.splits)

text \<open>The events of the panic-freedom property: well-typed messages in which only the processes
  in \<open>byz\<close> announce a change into round 1.\<close>

fun calm_event :: "'i qbft_definition \<Rightarrow> int set \<Rightarrow> 'v qevent \<Rightarrow> bool" where
  "calm_event d byz (EvRecv m) \<longleftrightarrow> deliverable d byz no_first_round_change m
     \<and> message_type_valid (m_type m) \<and> in_i64 (m_round m + 1)"
| "calm_event d byz _ = True"

text \<open>
  C6. A process does not panic: from a state of the run's invariant whose round can still be
  incremented, no event makes the loop hit one of its assertions (nested justifications,
  an occupied justification cache, a missing justification, an invalid rule or type), and
  the invariant holds again afterwards. The messages are well formed and fewer than a
  quorum of processes announce a change into round 1.
\<close>

theorem qbft_step_no_panic:
  assumes "valid_definition d" "env_calm env" "finite byz" "card byz < quorum_count d"
    and "node_inv d byz no_first_round_change st" "cache_ok st" "calm_event d byz ev"
    and "in_i64 (q_round st + 1)" "in_i64 (q_compare_failure_round st + 1)"
  shows "(\<nexists>s. snd (qbft_step d env inst p ev st) = Inl (Panic s))
    \<and> (\<forall>st'. snd (qbft_step d env inst p ev st) = Inr st' \<longrightarrow>
         node_inv d byz no_first_round_change st' \<and> cache_ok st')"
proof -
  have "event_deliverable d byz no_first_round_change ev" using assms(7) by (cases ev) auto
  then have inv: "keeps_inv d byz no_first_round_change (qbft_step d env inst p ev st)"
    by (rule step_keeps_inv [OF assms(1,5)])
  have "calm_with_cache (qbft_step d env inst p ev st)"
    using calm_recv [OF assms(1-6) _ _ _ assms(9)] calm_round_timeout [OF assms(6,2,8)] calm_input [OF assms(2,6)] assms(6,7)
    by (cases ev) (simp_all add: qbft_step_def)
  then show ?thesis using inv by (auto simp: calm_with_cache_def calm_def keeps_inv_def)
qed

theorem qbft_step_no_panic_witness:
  "\<exists>st :: (int, unit) qstate. snd (qbft_start four_nodes plain_env () 0 ()) = Inr st
     \<and> (\<nexists>s. snd (qbft_step four_nodes plain_env () 0 (EvRecv (Msg MSG_PRE_PREPARE 2 1 7 0 0 [])) st) = Inl (Panic s))"
proof -
  obtain st where start: "qbft_start four_nodes plain_env () 0 () = ([NewTimer 1], Inr st)"
      "st = (initial_state ())\<lparr>q_timer := Some 1\<rparr>"
    by (simp add: qbft_start_def validate_definition_def four_nodes_def initial_state_def flow_bind_def)
  have inv: "node_inv four_nodes {3} no_first_round_change st" "cache_ok st"
    by (simp_all add: start(2) initial_state_def node_inv_def node_ok_def buffer_ok_def buffer_bounded_def decided_def cache_ok_def)
  have q: "card {3 :: int} < quorum_count four_nodes"
    using quorum_count_eq [OF four_nodes_valid(1)] by (simp add: four_nodes_def)
  have "calm_event four_nodes {3} (EvRecv (Msg MSG_PRE_PREPARE 2 1 7 0 0 []))"
    by (simp add: deliverable_def authentic_def processes_def four_nodes_def in_i64_def i64_min_def i64_max_def
        header_of_def no_first_round_change_def message_type_valid_def)
  from qbft_step_no_panic [OF four_nodes_valid(1) _ _ q inv this, of plain_env "()" 0]
  show ?thesis
    using start(1)
    by (simp add: env_calm_def plain_env_def start(2) initial_state_def in_i64_def i64_min_def i64_max_def)
qed

section \<open>Progress\<close>

definition message_of_request :: "'v request \<Rightarrow> 'v msg" where
  "message_of_request rq = Msg (rq_type rq) (rq_source rq) (rq_round rq) (rq_value rq) (rq_prepared_round rq)
     (rq_prepared_value rq) (case rq_justification rq of None \<Rightarrow> [] | Some js \<Rightarrow> js)"

definition buffered :: "('v, 'c) qstate \<Rightarrow> 'v msg set" where
  "buffered st = (\<Union>(src, ms) \<in> set (q_buffer st). set ms)"

lemma buffered_flatten:
  assumes "flatten ord (q_buffer st) = Inr all"
  shows "buffered st \<subseteq> set all"
proof -
  have "all = concat (map (\<lambda>m. m # m_justification m) (concat (map snd (hash_iter (ord 0) (q_buffer st)))))"
    using assms by (auto simp: flatten_def Let_def split: if_splits)
  then show ?thesis by (force simp: buffered_def)
qed

lemma filter_msgs_quorum:
  assumes "S \<subseteq> m_source ` {x \<in> set all. m_type x = t \<and> m_round x = r \<and> m_value x = v}"
  shows "card S \<le> length (filter_msgs all t r (Some v) None None)"
proof -
  have "m_source ` set (filter_msgs all t r (Some v) None None)
      = m_source ` {x \<in> set all. m_type x = t \<and> m_round x = r \<and> m_value x = v}"
    by (auto simp: filter_msgs_def sources_uniq_source)
  then show ?thesis unfolding length_filter_msgs using assms by (intro card_mono) auto
qed

text \<open>
  C7. A proposal that a leader builds from a justified quorum of round changes is accepted by
  every receiver: the PRE-PREPARE passes the receiver's justification check, whatever the
  receiver's last compare-failure round is. The leader must not have failed the comparison
  in the round that the quorum had prepared.
\<close>

theorem qbft_leader_proposal_justified:
  assumes "get_justified_qrc d ord all r = Some js" "1 \<le> r" "is_leader d inst r p" "q_round st = r"
    and "\<forall>pr pv. get_single_justified_pr_pv d js = Some (pr, pv) \<longrightarrow> q_compare_failure_round st \<noteq> pr"
    and "Broadcast rq \<in> set (fst (on_quorum_round_changes d env p (Some js) st))"
    and "in_i64 (cfr + 1)"
  shows "is_justified d inst (message_of_request rq) cfr = Inr True"
proof -
  have qrc: "contains_justified_qrc d js r = Some 0
    \<or> (\<exists>pr pv. get_single_justified_pr_pv d js = Some (pr, pv) \<and> contains_justified_qrc d js r = Some pv)"
    using contains_justified_qrc_of_qrc [of r d ord all js] assms(1,2) by simp
  have rq: "\<exists>v. rq = Request MSG_PRE_PREPARE p r v 0 0 (Some js)
      \<and> (\<forall>pr pv. get_single_justified_pr_pv d js = Some (pr, pv) \<longrightarrow> v = pv)"
    using assms(4-6)
    by (auto simp: on_quorum_round_changes_def broadcast_own_pre_prepare_def split: option.splits if_splits)
  then show ?thesis
    using qrc assms(3,7)
    by (auto simp: message_of_request_def is_justified_def is_justified_pre_prepare_def checked_add_i64_def)
qed

theorem qbft_leader_proposal_justified_witness:
  "\<exists>js. get_justified_qrc four_nodes (\<lambda>_ n. [0..<n]) (third_round_changes @ concat (map m_justification third_round_changes)) 3 = Some js
     \<and> is_justified four_nodes () (message_of_request (Request MSG_PRE_PREPARE 0 3 7 0 0 (Some js))) 0 = Inr True"
proof -
  let ?st = "(initial_state () :: (int, unit) qstate)\<lparr>q_round := 3\<rparr>"
  let ?js = "[Msg 4 3 3 0 0 0 [], Msg 4 2 3 0 2 7 (votes MSG_PREPARE 2 7 [1, 2, 3]),
    Msg 4 0 3 0 2 9 (votes MSG_PREPARE 2 9 [0, 2, 3])] @ votes MSG_PREPARE 2 7 [1, 2, 3]"
  have qrc: "get_justified_qrc four_nodes (\<lambda>_ n. [0..<n])
      (third_round_changes @ concat (map m_justification third_round_changes)) 3 = Some ?js"
    by code_simp
  have single: "get_single_justified_pr_pv four_nodes ?js = Some (2, 7)" by code_simp
  have "fst (on_quorum_round_changes four_nodes plain_env 0 (Some ?js) ?st)
      = [Broadcast (Request MSG_PRE_PREPARE 0 3 7 0 0 (Some ?js))]"
    unfolding on_quorum_round_changes_def option.case single by (simp add: initial_state_def)
  then show ?thesis
    using qbft_leader_proposal_justified [OF qrc, of "()" 0 ?st _ plain_env 0] qrc single
    by (intro exI [of _ ?js]) (simp add: four_nodes_def initial_state_def in_i64_def i64_min_def i64_max_def)
qed

lemma on_recv_rule:
  assumes "\<not> decided st" "is_justified d inst m (q_compare_failure_round st) = Inr True"
    "classify d (e_order env) inst (q_round (buffer_msg d m st)) p (q_buffer (buffer_msg d m st)) m = Inr (rule, js)"
    "rule \<noteq> UPON_NOTHING" "(rule, m_round m) \<notin> set (q_dedup_rules st)"
  shows "on_recv d env inst p m st = flow_bind ([LogUponRule (q_round st) m rule],
    Inr ((buffer_msg d m st)\<lparr>q_dedup_rules := (rule, m_round m) # q_dedup_rules (buffer_msg d m st)\<rparr>)) (on_rule d env p rule m js)"
proof -
  have "q_commit st = None \<or> q_commit st = Some []"
    using assms(1) by (auto simp: decided_def split: option.splits list.splits)
  then show ?thesis using assms(2-5) unfolding on_recv_def Let_def by (elim disjE) simp_all
qed

text \<open>
  C8. A quorum of COMMITs is acted on: an undecided process that receives a COMMIT of its round
  and then holds COMMITs of that round and value from a quorum of sources decides that
  value at once, provided its rule for that round has not fired yet.
\<close>

theorem qbft_commit_quorum_decides:
  assumes "valid_definition d" "node_inv d UNIV {} st" "\<not> decided st" "deliverable d UNIV {} m"
    and "m_type m = MSG_COMMIT" "m_round m = q_round st"
    and "(UPON_QUORUM_COMMITS, m_round m) \<notin> set (q_dedup_rules st)"
    and "S \<subseteq> m_source ` {x \<in> buffered (buffer_msg d m st).
           m_type x = MSG_COMMIT \<and> m_round x = m_round m \<and> m_value x = m_value m}"
    and "quorum_count d \<le> card S"
  shows "m_value m \<in> decisions_of (fst (on_recv d env inst p m st))"
proof -
  define st1 where "st1 = buffer_msg d m st"
  have buf: "buffer_ok d UNIV {} (q_buffer st1)"
    using buffer_msg_inv [OF assms(2,4)] by (simp add: st1_def node_inv_def node_ok_def)
  obtain all where all: "flatten (e_order env) (q_buffer st1) = Inr all" using buffer_flatten [OF buf] by blast
  have "S \<subseteq> m_source ` {x \<in> set all. m_type x = MSG_COMMIT \<and> m_round x = m_round m \<and> m_value x = m_value m}"
    using assms(8) buffered_flatten [OF all] unfolding st1_def by blast
  from filter_msgs_quorum [OF this] have
    q: "quorum_count d \<le> length (filter_by_round_and_value all MSG_COMMIT (m_round m) (m_value m))"
    using assms(9) by (simp add: filter_by_round_and_value_def)
  have cl: "classify d (e_order env) inst (q_round st1) p (q_buffer st1) m =
      Inr (UPON_QUORUM_COMMITS, Some (filter_by_round_and_value all MSG_COMMIT (m_round m) (m_value m)))"
    using assms(5,6) all q by (simp add: classify_def res_bind_def st1_def)
  have "is_justified d inst m (q_compare_failure_round st) = Inr True"
    using assms(5) by (simp add: is_justified_def)
  then have "on_recv d env inst p m st = flow_bind ([LogUponRule (q_round st) m UPON_QUORUM_COMMITS],
      Inr (st1\<lparr>q_dedup_rules := (UPON_QUORUM_COMMITS, m_round m) # q_dedup_rules st1\<rparr>))
      (on_decided env UPON_QUORUM_COMMITS m (Some (filter_by_round_and_value all MSG_COMMIT (m_round m) (m_value m))))"
    using on_recv_rule [OF assms(3) _ cl [unfolded st1_def]] assms(7) by (simp add: st1_def)
  then show ?thesis
    using assms(6) by (simp add: on_decided_def change_round_def st1_def)
qed

theorem qbft_commit_quorum_decides_witness:
  "\<exists>st :: (int, unit) qstate. 7 \<in> decisions_of (fst (on_recv four_nodes plain_env () 0 (Msg MSG_COMMIT 2 1 7 0 0 []) st))"
proof -
  let ?m = "\<lambda>s. Msg MSG_COMMIT s 1 7 0 0 [] :: int msg"
  let ?st = "(initial_state () :: (int, unit) qstate)\<lparr>q_buffer := [(0, [?m 0]), (1, [?m 1])]\<rparr>"
  have wire: "deliverable four_nodes UNIV {} (?m s)" if "s \<in> {0, 1, 2}" for s
    using that by (auto simp: deliverable_def authentic_def processes_def four_nodes_def in_i64_def i64_min_def i64_max_def)
  have inv: "node_inv four_nodes UNIV {} ?st"
    using wire by (simp add: node_inv_def node_ok_def buffer_ok_def buffer_bounded_def initial_state_def decided_def four_nodes_def)
  have buf: "q_buffer (buffer_msg four_nodes (?m 2) ?st) = [(0, [?m 0]), (1, [?m 1]), (2, [?m 2])]"
    by (simp add: buffer_msg_def four_nodes_def)
  have S: "{0, 1, 2} \<subseteq> m_source ` {x \<in> buffered (buffer_msg four_nodes (?m 2) ?st).
      m_type x = MSG_COMMIT \<and> m_round x = m_round (?m 2) \<and> m_value x = m_value (?m 2)}"
  proof
    fix s :: int assume s: "s \<in> {0, 1, 2}"
    then have "?m s \<in> buffered (buffer_msg four_nodes (?m 2) ?st)" unfolding buffered_def buf by auto
    then show "s \<in> m_source ` {x \<in> buffered (buffer_msg four_nodes (?m 2) ?st).
      m_type x = MSG_COMMIT \<and> m_round x = m_round (?m 2) \<and> m_value x = m_value (?m 2)}"
      by (intro image_eqI [of _ _ "?m s"]) simp_all
  qed
  have "quorum_count four_nodes \<le> card {0, 1, 2 :: int}"
    using quorum_count_eq [OF four_nodes_valid(1)] by (simp add: four_nodes_def)
  from qbft_commit_quorum_decides [OF four_nodes_valid(1) inv _ wire [of 2] _ _ _ S this, of plain_env "()" 0]
  show ?thesis by (intro exI [of _ ?st]) (simp add: initial_state_def decided_def)
qed

end
