(* ===== verification/Duty_Types.thy ===== *)
theory Duty_Types
  imports Prelude
begin

text \<open>
  The data of the core workflow (crates/core/src/types.rs): duty types and duties with their
  wire numbers, proposal types, public keys, duty definitions read from the beacon node,
  sets of partially signed data with their wire form, and slots. The hexadecimal codec is a
  third-party package and appears as an argument.
\<close>

section \<open>Duty types\<close>

datatype duty_type =
    Unknown
  | Proposer
  | Attester
  | Signature
  | Exit
  | BuilderProposer
  | BuilderRegistration
  | Randao
  | PrepareAggregator
  | Aggregator
  | SyncMessage
  | PrepareSyncContribution
  | SyncContribution
  | InfoSync
  | DutySentinel duty_type

fun duty_type_is_valid :: "duty_type \<Rightarrow> bool" where
  "duty_type_is_valid Unknown = False"
| "duty_type_is_valid (DutySentinel t) = False"
| "duty_type_is_valid _ = True"

definition never_expires :: "duty_type \<Rightarrow> bool" where
  "never_expires t \<longleftrightarrow> t = Exit \<or> t = BuilderRegistration"

definition duty_type_all :: "duty_type list" where
  "duty_type_all =
     [Proposer, Attester, Signature, Exit, BuilderProposer, BuilderRegistration, Randao, PrepareAggregator,
      Aggregator, SyncMessage, PrepareSyncContribution, SyncContribution, InfoSync]"

datatype types_error = InvalidDutyType | InvalidDuty | InvalidShareIndex | InvalidSignature | InvalidSetFields
  | InvalidPubKey string | CodecError | InvalidLength | InvalidString | ParseError string

fun duty_type_to_i32 :: "duty_type \<Rightarrow> types_error + int" where
  "duty_type_to_i32 Unknown = Inr 0"
| "duty_type_to_i32 Proposer = Inr 1"
| "duty_type_to_i32 Attester = Inr 2"
| "duty_type_to_i32 Signature = Inr 3"
| "duty_type_to_i32 Exit = Inr 4"
| "duty_type_to_i32 BuilderProposer = Inr 5"
| "duty_type_to_i32 BuilderRegistration = Inr 6"
| "duty_type_to_i32 Randao = Inr 7"
| "duty_type_to_i32 PrepareAggregator = Inr 8"
| "duty_type_to_i32 Aggregator = Inr 9"
| "duty_type_to_i32 SyncMessage = Inr 10"
| "duty_type_to_i32 PrepareSyncContribution = Inr 11"
| "duty_type_to_i32 SyncContribution = Inr 12"
| "duty_type_to_i32 InfoSync = Inr 13"
| "duty_type_to_i32 (DutySentinel t) = Inl InvalidDutyType"

definition duty_type_of_i32 :: "int \<Rightarrow> types_error + duty_type" where
  "duty_type_of_i32 v =
     (if v = 0 then Inr Unknown else if v = 1 then Inr Proposer else if v = 2 then Inr Attester
      else if v = 3 then Inr Signature else if v = 4 then Inr Exit else if v = 5 then Inr BuilderProposer
      else if v = 6 then Inr BuilderRegistration else if v = 7 then Inr Randao
      else if v = 8 then Inr PrepareAggregator else if v = 9 then Inr Aggregator
      else if v = 10 then Inr SyncMessage else if v = 11 then Inr PrepareSyncContribution
      else if v = 12 then Inr SyncContribution else if v = 13 then Inr InfoSync
      else Inl InvalidDuty)"

section \<open>Duties\<close>

definition slot_next :: "nat \<Rightarrow> nat" where
  "slot_next slot = saturating_add_u64 slot 1"

record duty =
  d_slot :: nat
  d_type :: duty_type

definition new_duty :: "nat \<Rightarrow> duty_type \<Rightarrow> duty" where
  "new_duty slot t = \<lparr>d_slot = slot, d_type = t\<rparr>"

record pb_duty =
  pb_slot :: nat
  pb_type :: int

definition duty_to_pb :: "duty \<Rightarrow> types_error + pb_duty" where
  "duty_to_pb d = res_bind (duty_type_to_i32 (d_type d)) (\<lambda>t. Inr \<lparr>pb_slot = d_slot d, pb_type = t\<rparr>)"

definition duty_of_pb :: "pb_duty \<Rightarrow> types_error + duty" where
  "duty_of_pb pb =
     res_bind (duty_type_of_i32 (pb_type pb)) (\<lambda>t.
       if \<not> duty_type_is_valid t then Inl InvalidDuty else Inr (new_duty (pb_slot pb) t))"

section \<open>Proposal types\<close>

datatype proposal_type = Full | Builder | Synthetic | UnknownProposal string

fun proposal_type_as_str :: "proposal_type \<Rightarrow> string" where
  "proposal_type_as_str Full = ''full''"
| "proposal_type_as_str Builder = ''builder''"
| "proposal_type_as_str Synthetic = ''synthetic''"
| "proposal_type_as_str (UnknownProposal s) = s"

definition proposal_type_of_string :: "string \<Rightarrow> proposal_type" where
  "proposal_type_of_string s =
     (if s = ''full'' then Full else if s = ''builder'' then Builder
      else if s = ''synthetic'' then Synthetic else UnknownProposal s)"

fun proposal_type_into_string :: "proposal_type \<Rightarrow> string" where
  "proposal_type_into_string (UnknownProposal s) = s"
| "proposal_type_into_string t = proposal_type_as_str t"

section \<open>Public keys\<close>

definition PK_LEN :: nat where "PK_LEN = 48"

text \<open>A public key is its 48 bytes; the type invariant is \<open>pubkey_ok\<close>.\<close>

type_synonym pubkey = "nat list"

definition pubkey_ok :: "pubkey \<Rightarrow> bool" where
  "pubkey_ok pk \<longleftrightarrow> length pk = PK_LEN \<and> (\<forall>b \<in> set pk. b < 256)"

record hex_codec =
  hex_encode :: "nat list \<Rightarrow> string"
  hex_decode :: "string \<Rightarrow> nat list option"

text \<open>What the code relies on from the hexadecimal package: two digits per byte, and decoding
  undoes encoding.\<close>

definition hex_codec_ok :: "hex_codec \<Rightarrow> bool" where
  "hex_codec_ok h \<longleftrightarrow> (\<forall>bs. (\<forall>b \<in> set bs. b < 256) \<longrightarrow>
     hex_decode h (hex_encode h bs) = Some bs \<and> length (hex_encode h bs) = 2 * length bs)"

definition strip_0x :: "string \<Rightarrow> string" where
  "strip_0x s = (if take 2 s = ''0x'' then drop 2 s else s)"

definition pubkey_of_bytes :: "nat list \<Rightarrow> types_error + pubkey" where
  "pubkey_of_bytes bs = (if length bs \<noteq> PK_LEN then Inl InvalidLength else Inr bs)"

definition pubkey_of_str :: "hex_codec \<Rightarrow> string \<Rightarrow> types_error + pubkey" where
  "pubkey_of_str h s = res_bind (ok_or InvalidString (hex_decode h (strip_0x s))) pubkey_of_bytes"

definition pubkey_to_string :: "hex_codec \<Rightarrow> pubkey \<Rightarrow> string" where
  "pubkey_to_string h pk = ''0x'' @ hex_encode h pk"

definition pubkey_abbreviated :: "hex_codec \<Rightarrow> pubkey \<Rightarrow> string" where
  "pubkey_abbreviated h pk =
     (let s = hex_encode h pk in take 3 s @ ''_'' @ take 3 (drop 93 s))"

section \<open>Duty definitions of the beacon node\<close>

record attester_datum =
  ad_pubkey :: string
  ad_validator_index :: string
  ad_slot :: string
  ad_committee_index :: string
  ad_committee_length :: string
  ad_committees_at_slot :: string
  ad_validator_committee_index :: string

record attester_duty =
  at_slot :: nat
  at_validator_index :: nat
  at_committee_index :: nat
  at_committee_length :: nat
  at_committees_at_slot :: nat
  at_validator_committee_index :: nat

record attester_definition =
  adef_pubkey :: pubkey
  adef_duty :: attester_duty

definition parse_field :: "string \<Rightarrow> string \<Rightarrow> types_error + nat" where
  "parse_field name s = ok_or (ParseError name) (parse_u64 s)"

definition parse_pubkey_field :: "hex_codec \<Rightarrow> string \<Rightarrow> types_error + pubkey" where
  "parse_pubkey_field h s = (case pubkey_of_str h s of Inl e \<Rightarrow> Inl (ParseError ''pubkey'') | Inr pk \<Rightarrow> Inr pk)"

definition attester_definition_of_datum :: "hex_codec \<Rightarrow> attester_datum \<Rightarrow> types_error + attester_definition" where
  "attester_definition_of_datum h v =
     res_bind (parse_pubkey_field h (ad_pubkey v)) (\<lambda>pk.
     res_bind (parse_field ''validator_index'' (ad_validator_index v)) (\<lambda>vi.
     res_bind (parse_field ''slot'' (ad_slot v)) (\<lambda>s.
     res_bind (parse_field ''committee_index'' (ad_committee_index v)) (\<lambda>ci.
     res_bind (parse_field ''committee_length'' (ad_committee_length v)) (\<lambda>cl.
     res_bind (parse_field ''committees_at_slot'' (ad_committees_at_slot v)) (\<lambda>cs.
     res_bind (parse_field ''validator_committee_index'' (ad_validator_committee_index v)) (\<lambda>vci.
       Inr \<lparr>adef_pubkey = pk, adef_duty = \<lparr>at_slot = s, at_validator_index = vi, at_committee_index = ci,
         at_committee_length = cl, at_committees_at_slot = cs, at_validator_committee_index = vci\<rparr>\<rparr>)))))))"

record proposer_datum =
  pd_pubkey :: string
  pd_validator_index :: string
  pd_slot :: string

record proposer_definition =
  pdef_pubkey :: pubkey
  pdef_v_idx :: nat
  pdef_slot :: nat

definition proposer_definition_of_datum :: "hex_codec \<Rightarrow> proposer_datum \<Rightarrow> types_error + proposer_definition" where
  "proposer_definition_of_datum h v =
     res_bind (parse_pubkey_field h (pd_pubkey v)) (\<lambda>pk.
     res_bind (parse_field ''validator_index'' (pd_validator_index v)) (\<lambda>vi.
     res_bind (parse_field ''slot'' (pd_slot v)) (\<lambda>s.
       Inr \<lparr>pdef_pubkey = pk, pdef_v_idx = vi, pdef_slot = s\<rparr>)))"

record sync_datum =
  sd_pubkey :: string
  sd_validator_index :: string
  sd_indices :: "string list"

record sync_definition =
  sdef_pubkey :: pubkey
  sdef_validator_index :: nat
  sdef_indices :: "nat list"

definition sync_definition_of_datum :: "hex_codec \<Rightarrow> sync_datum \<Rightarrow> types_error + sync_definition" where
  "sync_definition_of_datum h v =
     res_bind (parse_pubkey_field h (sd_pubkey v)) (\<lambda>pk.
     res_bind (parse_field ''validator_index'' (sd_validator_index v)) (\<lambda>vi.
     res_bind (res_map (parse_field ''validator_sync_committee_indices'') (sd_indices v)) (\<lambda>is.
       Inr \<lparr>sdef_pubkey = pk, sdef_validator_index = vi, sdef_indices = is\<rparr>)))"

datatype duty_definition =
    AttesterDef attester_definition
  | ProposerDef proposer_definition
  | SyncCommitteeDef sync_definition

section \<open>Partially signed data\<close>

record 'd par_signed_data =
  ps_signed_data :: 'd
  ps_share_idx :: nat

record pb_par_signed_data =
  pbps_data :: "nat list"
  pbps_signature :: "nat list"
  pbps_share_idx :: int

definition i32_max :: int where "i32_max = 2 ^ 31 - 1"

text \<open>The codec of the signed data (crates/core/src/parsigex_codec.rs) and the accessor of the
  signature are arguments.\<close>

definition par_signed_to_pb ::
  "('d \<Rightarrow> types_error + nat list) \<Rightarrow> ('d \<Rightarrow> (nat list) option) \<Rightarrow> 'd par_signed_data \<Rightarrow> types_error + pb_par_signed_data" where
  "par_signed_to_pb ser sig p =
     res_bind (ser (ps_signed_data p)) (\<lambda>encoded.
     if int (ps_share_idx p) > i32_max then Inl InvalidShareIndex
     else res_bind (ok_or InvalidSignature (sig (ps_signed_data p))) (\<lambda>s.
       Inr \<lparr>pbps_data = encoded, pbps_signature = s, pbps_share_idx = int (ps_share_idx p)\<rparr>))"

definition par_signed_of_pb ::
  "(duty_type \<Rightarrow> nat list \<Rightarrow> types_error + 'd) \<Rightarrow> duty_type \<Rightarrow> pb_par_signed_data \<Rightarrow> types_error + 'd par_signed_data" where
  "par_signed_of_pb deser t pb =
     (if pbps_share_idx pb < 0 then Inl InvalidShareIndex
      else res_bind (deser t (pbps_data pb)) (\<lambda>d. Inr \<lparr>ps_signed_data = d, ps_share_idx = nat (pbps_share_idx pb)\<rparr>))"

text \<open>A set is a hash map from public keys; on the wire its keys are strings.\<close>

type_synonym 'd par_signed_set = "(pubkey \<times> 'd par_signed_data) list"

definition par_set_to_pb ::
  "hex_codec \<Rightarrow> ('d \<Rightarrow> types_error + nat list) \<Rightarrow> ('d \<Rightarrow> (nat list) option) \<Rightarrow> 'd par_signed_set
     \<Rightarrow> types_error + (string \<times> pb_par_signed_data) list" where
  "par_set_to_pb h ser sig s =
     res_fold (\<lambda>(pk, v) out. res_bind (par_signed_to_pb ser sig v) (\<lambda>pb.
       Inr (AList.update (pubkey_to_string h pk) pb out))) s []"

definition par_set_of_pb ::
  "hex_codec \<Rightarrow> (duty_type \<Rightarrow> nat list \<Rightarrow> types_error + 'd) \<Rightarrow> duty_type \<Rightarrow> (string \<times> pb_par_signed_data) list
     \<Rightarrow> types_error + 'd par_signed_set" where
  "par_set_of_pb h deser t s =
     (if s = [] then Inl InvalidSetFields
      else res_fold (\<lambda>(k, v) out.
        case pubkey_of_str h k of
          Inl e \<Rightarrow> Inl (InvalidPubKey k)
        | Inr pk \<Rightarrow> res_bind (par_signed_of_pb deser t v) (\<lambda>d. Inr (AList.update pk d out))) s [])"

section \<open>Slots\<close>

record slot =
  sl_slot :: nat
  sl_time :: int
  sl_slot_duration :: int
  sl_slots_per_epoch :: nat

text \<open>A zero number of slots per epoch is a division by zero, which panics.\<close>

definition slot_epoch :: "slot \<Rightarrow> nat option" where
  "slot_epoch s = (if sl_slots_per_epoch s = 0 then None else Some (sl_slot s div sl_slots_per_epoch s))"

definition last_in_epoch :: "slot \<Rightarrow> bool option" where
  "last_in_epoch s = (if sl_slots_per_epoch s = 0 then None
     else Some (sl_slot s mod sl_slots_per_epoch s = sl_slots_per_epoch s - 1))"

definition first_in_epoch :: "slot \<Rightarrow> bool option" where
  "first_in_epoch s = (if sl_slots_per_epoch s = 0 then None
     else Some (sl_slot s mod sl_slots_per_epoch s = 0))"

definition next_slot :: "slot \<Rightarrow> slot" where
  "next_slot s = s\<lparr>sl_slot := slot_next (sl_slot s), sl_time := sl_time s + sl_slot_duration s\<rparr>"

text \<open>The first elements of the slot iterator.\<close>

fun slot_iter :: "nat \<Rightarrow> slot \<Rightarrow> slot list" where
  "slot_iter 0 s = []"
| "slot_iter (Suc n) s = s # slot_iter n (next_slot s)"

section \<open>Wire numbers\<close>

lemma duty_type_of_i32_inverse: "duty_type_to_i32 t = Inr v \<Longrightarrow> duty_type_of_i32 v = Inr t"
  by (cases t) (auto simp: duty_type_of_i32_def)

lemma duty_type_to_i32_inverse: "duty_type_of_i32 v = Inr t \<Longrightarrow> duty_type_to_i32 t = Inr v"
  by (auto simp: duty_type_of_i32_def split: if_splits)

lemma duty_type_i32_iff: "duty_type_of_i32 v = Inr t \<longleftrightarrow> duty_type_to_i32 t = Inr v"
  using duty_type_of_i32_inverse duty_type_to_i32_inverse by blast

text \<open>
  C9. A duty read from the wire is a valid one, and it is exactly the duty that encodes to the
  message: decoding and encoding of duties are inverse to each other on the valid duty
  types, and every other wire number is rejected. The list of all valid types is complete
  and free of repetitions.
\<close>

theorem duty_wire_roundtrip:
  "(duty_of_pb pb = Inr d \<longleftrightarrow> duty_type_is_valid (d_type d) \<and> duty_to_pb d = Inr pb)
   \<and> set duty_type_all = {t. duty_type_is_valid t} \<and> distinct duty_type_all"
proof (intro conjI)
  show "duty_of_pb pb = Inr d \<longleftrightarrow> duty_type_is_valid (d_type d) \<and> duty_to_pb d = Inr pb"
    by (cases pb; cases d) (auto simp: duty_of_pb_def duty_to_pb_def new_duty_def duty_type_i32_iff split: if_splits)
  have "duty_type_is_valid t \<longleftrightarrow> t \<in> set duty_type_all" for t
    by (cases t) (simp_all add: duty_type_all_def)
  then show "set duty_type_all = {t. duty_type_is_valid t}" by blast
  show "distinct duty_type_all" by (simp add: duty_type_all_def)
qed

lemma proposal_type_string_roundtrip:
  "proposal_type_into_string (proposal_type_of_string s) = s"
  by (simp add: proposal_type_of_string_def)

lemma proposal_type_known_roundtrip:
  "proposal_type_of_string (proposal_type_into_string t) = t
     \<longleftrightarrow> t \<notin> {UnknownProposal ''full'', UnknownProposal ''builder'', UnknownProposal ''synthetic''}"
  by (cases t) (auto simp: proposal_type_of_string_def)

section \<open>Round trips of public keys and sets\<close>

lemma strip_0x_prefix [simp]: "strip_0x (''0x'' @ s) = s"
  by (simp add: strip_0x_def)

lemma pubkey_roundtrip:
  "hex_codec_ok h \<Longrightarrow> pubkey_ok pk \<Longrightarrow> pubkey_of_str h (pubkey_to_string h pk) = Inr pk"
  using strip_0x_prefix [of "hex_encode h pk"]
  by (simp add: pubkey_of_str_def pubkey_to_string_def hex_codec_ok_def pubkey_of_bytes_def pubkey_ok_def)

lemma pubkey_to_string_inj: "hex_codec_ok h \<Longrightarrow> inj_on (pubkey_to_string h) {pk. pubkey_ok pk}"
  by (rule inj_onI) (metis mem_Collect_eq pubkey_roundtrip sum.inject(2))

lemma par_signed_roundtrip:
  assumes "par_signed_to_pb ser sig p = Inr pb" "\<And>d bs. ser d = Inr bs \<Longrightarrow> deser t bs = Inr d"
  shows "par_signed_of_pb deser t pb = Inr p"
  using assms by (cases p) (auto simp: par_signed_to_pb_def par_signed_of_pb_def split: if_splits)

lemma par_set_decode:
  assumes h: "hex_codec_ok h" and vs: "list_all2 (\<lambda>x v. par_signed_to_pb ser sig (snd x) = Inr v) s vs"
    and deser: "\<forall>d bs. ser d = Inr bs \<longrightarrow> deser t bs = Inr d"
    and "distinct (keys s)" "\<forall>pk \<in> set (keys s). pubkey_ok pk" "set (keys out) \<inter> set (keys s) = {}"
  shows "res_fold (\<lambda>(k, v) out. case pubkey_of_str h k of Inl e \<Rightarrow> Inl (InvalidPubKey k)
      | Inr pk \<Rightarrow> res_bind (par_signed_of_pb deser t v) (\<lambda>d. Inr (AList.update pk d out)))
    (zip (map (\<lambda>x. pubkey_to_string h (fst x)) s) vs) out = Inr (out @ s)"
  using vs assms(4-)
proof (induction s vs arbitrary: out rule: list_all2_induct)
  case Nil
  then show ?case by simp
next
  case (Cons x s v vs)
  have "pubkey_of_str h (pubkey_to_string h (fst x)) = Inr (fst x)"
    using Cons.prems(2) by (intro pubkey_roundtrip [OF h]) simp
  moreover have "par_signed_of_pb deser t v = Inr (snd x)"
    using par_signed_roundtrip [OF Cons.hyps(1)] deser by blast
  moreover have "AList.update (fst x) (snd x) out = out @ [x]"
    using Cons.prems(3) by (subst update_fresh) auto
  ultimately show ?case using Cons.IH [of "out @ [x]"] Cons.prems by simp
qed


text \<open>A hexadecimal codec that writes a byte as two characters.\<close>

fun pair_decode :: "string \<Rightarrow> nat list option" where
  "pair_decode [] = Some []"
| "pair_decode [c] = None"
| "pair_decode (a # b # cs) = map_option ((#) (of_char b)) (pair_decode cs)"

definition sample_hex :: hex_codec where
  "sample_hex = \<lparr>hex_encode = (\<lambda>bs. concat (map (\<lambda>b. ''x'' @ [char_of b]) bs)), hex_decode = pair_decode\<rparr>"

lemma sample_hex_ok: "hex_codec_ok sample_hex"
proof -
  have "pair_decode (concat (map (\<lambda>b. ''x'' @ [char_of b]) bs)) = Some bs" if "\<forall>b \<in> set bs. b < 256" for bs :: "nat list"
    using that by (induction bs) auto
  moreover have "length (concat (map (\<lambda>b :: nat. ''x'' @ [char_of b]) bs)) = 2 * length bs" for bs
    by (induction bs) auto
  ultimately show ?thesis by (simp add: hex_codec_ok_def sample_hex_def)
qed


section \<open>Slots and epochs\<close>

text \<open>
  Epoch boundaries: below the largest slot number, the next slot starts an epoch exactly when
  this one ends one, and only then does the epoch number grow, by one.
\<close>

lemma next_slot_epoch:
  assumes "0 < sl_slots_per_epoch s" "sl_slot s < u64_max"
  shows "first_in_epoch (next_slot s) = last_in_epoch s
    \<and> slot_epoch (next_slot s) = Some (sl_slot s div sl_slots_per_epoch s
        + (if last_in_epoch s = Some True then 1 else 0))"
proof -
  have nxt: "sl_slot (next_slot s) = Suc (sl_slot s)" "sl_slots_per_epoch (next_slot s) = sl_slots_per_epoch s"
    using assms(2) by (simp_all add: next_slot_def slot_next_def saturating_add_u64_def)
  have last: "Suc (sl_slot s) mod sl_slots_per_epoch s = 0 \<longleftrightarrow> sl_slot s mod sl_slots_per_epoch s = sl_slots_per_epoch s - 1"
    using assms(1) by (auto simp: mod_Suc)
  show ?thesis
    using assms(1) last by (auto simp: first_in_epoch_def last_in_epoch_def slot_epoch_def nxt div_Suc)
qed

lemma slot_iter_nth: "i < n \<Longrightarrow> slot_iter n s ! i = (next_slot ^^ i) s"
  by (induction n arbitrary: i s) (auto simp: nth_Cons funpow_swap1 split: nat.splits)

end
