(* ===== verification/Deadline.thy ===== *)
theory Deadline
  imports Duty_Types
begin

text \<open>
  Duty deadlines (crates/core/src/deadline): checked millisecond arithmetic, the calculator
  that derives deadlines from the beacon chain's clock, and the task that keeps the pending
  duties and emits each when its deadline has passed. Times and durations are integers in
  nanoseconds; the date arithmetic of the chrono package is an argument.
\<close>

section \<open>Milliseconds\<close>

datatype deadline_error = BeaconNodeConfigError | ArithmeticOverflow | DurationConversion | DateTimeCalculation

record chrono =
  num_milliseconds :: "int \<Rightarrow> int"
  try_milliseconds :: "int \<Rightarrow> int option"
  checked_add_signed :: "int \<Rightarrow> int \<Rightarrow> int option"
  signed_duration_since :: "int \<Rightarrow> int \<Rightarrow> int"
  to_std :: "int \<Rightarrow> nat option"
  max_utc :: int

text \<open>Documented behaviour of the date package.\<close>

definition chrono_ok :: "chrono \<Rightarrow> bool" where
  "chrono_ok c \<longleftrightarrow>
     (\<forall>d. num_milliseconds c d = d sdiv 1000000)
   \<and> (\<forall>ms d. try_milliseconds c ms = Some d \<longrightarrow> d = ms * 1000000)
   \<and> (\<forall>t d t'. checked_add_signed c t d = Some t' \<longrightarrow> t' = t + d \<and> t' \<le> max_utc c)
   \<and> (\<forall>t t'. signed_duration_since c t t' = t - t')
   \<and> (\<forall>d. to_std c d = (if d < 0 then None else Some (nat d)))"

definition msecs_of_duration :: "chrono \<Rightarrow> int \<Rightarrow> int" where
  "msecs_of_duration c d = num_milliseconds c d"

definition msecs_mul_slot :: "int \<Rightarrow> nat \<Rightarrow> deadline_error + int" where
  "msecs_mul_slot ms slot =
     res_bind (ok_or ArithmeticOverflow (i64_try_from_u64 slot)) (\<lambda>mul.
       ok_or ArithmeticOverflow (checked_mul_i64 ms mul))"

definition msecs_mul :: "int \<Rightarrow> int \<Rightarrow> deadline_error + int" where
  "msecs_mul ms by = ok_or ArithmeticOverflow (checked_mul_i64 ms by)"

definition msecs_div :: "int \<Rightarrow> int \<Rightarrow> deadline_error + int" where
  "msecs_div ms by = ok_or ArithmeticOverflow (checked_div_i64 ms by)"

definition msecs_add :: "int \<Rightarrow> int \<Rightarrow> deadline_error + int" where
  "msecs_add a b = ok_or ArithmeticOverflow (checked_add_i64 a b)"

definition msecs_add_to :: "chrono \<Rightarrow> int \<Rightarrow> int \<Rightarrow> deadline_error + int" where
  "msecs_add_to c ms base =
     res_bind (ok_or DurationConversion (try_milliseconds c ms)) (\<lambda>offset.
       ok_or DateTimeCalculation (checked_add_signed c base offset))"

section \<open>The calculator\<close>

definition MARGIN_FACTOR :: int where "MARGIN_FACTOR = 12"
definition PROPOSAL_SLOT_FRACTION :: int where "PROPOSAL_SLOT_FRACTION = 3"
definition SYNC_MESSAGE_PHASES :: int where "SYNC_MESSAGE_PHASES = 2"
definition ATTESTATION_DEADLINE_SLOTS :: int where "ATTESTATION_DEADLINE_SLOTS = 2"

record duty_deadline_calculator =
  dc_genesis_time :: int
  dc_slot_duration :: int

definition slot_start :: "chrono \<Rightarrow> duty_deadline_calculator \<Rightarrow> nat \<Rightarrow> deadline_error + int" where
  "slot_start c k slot =
     res_bind (msecs_mul_slot (msecs_of_duration c (dc_slot_duration k)) slot) (\<lambda>offset.
       msecs_add_to c offset (dc_genesis_time k))"

definition margin :: "chrono \<Rightarrow> duty_deadline_calculator \<Rightarrow> deadline_error + int" where
  "margin c k = msecs_div (msecs_of_duration c (dc_slot_duration k)) MARGIN_FACTOR"

definition duty_duration :: "chrono \<Rightarrow> duty_deadline_calculator \<Rightarrow> duty_type \<Rightarrow> deadline_error + int" where
  "duty_duration c k t =
     (let secs = msecs_of_duration c (dc_slot_duration k)
      in if t = Proposer \<or> t = Randao then msecs_div secs PROPOSAL_SLOT_FRACTION
         else if t = SyncMessage
           then res_bind (msecs_mul secs SYNC_MESSAGE_PHASES) (\<lambda>x. msecs_div x PROPOSAL_SLOT_FRACTION)
         else if t = Attester \<or> t = Aggregator \<or> t = PrepareAggregator
           then msecs_mul secs ATTESTATION_DEADLINE_SLOTS
         else Inr secs)"

definition duty_deadline :: "chrono \<Rightarrow> duty_deadline_calculator \<Rightarrow> duty \<Rightarrow> deadline_error + int option" where
  "duty_deadline c k d =
     (if never_expires (d_type d) then Inr None
      else res_bind (slot_start c k (d_slot d)) (\<lambda>start.
        res_bind (duty_duration c k (d_type d)) (\<lambda>dur.
        res_bind (margin c k) (\<lambda>mg.
        res_bind (msecs_add dur mg) (\<lambda>offset.
        res_bind (msecs_add_to c offset start) (\<lambda>t. Inr (Some t)))))))"

definition never_expiring_deadline :: "duty \<Rightarrow> deadline_error + int option" where
  "never_expiring_deadline d = Inr None"

section \<open>The deadliner task\<close>

datatype add_outcome = Scheduled | AlreadyExpired | NoDeadline | FailedToCompute

text \<open>A far-future duration of about ten years, in nanoseconds.\<close>

definition FAR_FUTURE_DURATION :: nat where
  "FAR_FUTURE_DURATION = 3600 * 24 * 365 * 10 * 1000000000"

text \<open>The output channel is a bounded queue that its receiver may close.\<close>

definition OUTPUT_BUFFER :: nat where "OUTPUT_BUFFER = 10"

record deadliner =
  dl_duties :: "duty list"
  dl_curr_duty :: duty
  dl_curr_deadline :: int
  dl_output :: "duty list"
  dl_output_closed :: bool

definition deadliner_start :: "chrono \<Rightarrow> deadliner" where
  "deadliner_start c = \<lparr>dl_duties = [], dl_curr_duty = new_duty 0 Unknown, dl_curr_deadline = max_utc c,
     dl_output = [], dl_output_closed = False\<rparr>"

definition remaining_duration :: "chrono \<Rightarrow> int \<Rightarrow> deadliner \<Rightarrow> nat" where
  "remaining_duration c now t =
     (if dl_curr_deadline t < now then 0
      else (case to_std c (signed_duration_since c (dl_curr_deadline t) now) of
              None \<Rightarrow> FAR_FUTURE_DURATION
            | Some d \<Rightarrow> d))"

text \<open>The scan of the tracked duties for the earliest deadline.\<close>

fun earliest :: "(duty \<Rightarrow> deadline_error + int option) \<Rightarrow> duty list \<Rightarrow> duty \<Rightarrow> int \<Rightarrow> duty \<times> int" where
  "earliest calc [] cd ct = (cd, ct)"
| "earliest calc (d # ds) cd ct =
     (case calc d of
        Inr (Some t) \<Rightarrow> if t < ct then earliest calc ds d t else earliest calc ds cd ct
      | _ \<Rightarrow> earliest calc ds cd ct)"

definition recompute_curr ::
  "chrono \<Rightarrow> hash_order \<Rightarrow> (duty \<Rightarrow> deadline_error + int option) \<Rightarrow> deadliner \<Rightarrow> deadliner" where
  "recompute_curr c ord calc t =
     (case earliest calc (hash_iter (ord 0) (dl_duties t)) (new_duty 0 Unknown) (max_utc c) of
        (cd, ct) \<Rightarrow> t\<lparr>dl_curr_duty := cd, dl_curr_deadline := ct\<rparr>)"

text \<open>The result is the outcome sent back to the caller, the duration to which the timer is
  reset, if any, and the new state.\<close>

definition handle_input ::
  "chrono \<Rightarrow> hash_order \<Rightarrow> (duty \<Rightarrow> deadline_error + int option) \<Rightarrow> int \<Rightarrow> duty \<Rightarrow> deadliner
     \<Rightarrow> add_outcome \<times> nat option \<times> deadliner" where
  "handle_input c ord calc now d t =
     (case calc d of
        Inr (Some deadline) \<Rightarrow>
          if deadline < now then (AlreadyExpired, None, t)
          else let t1 = t\<lparr>dl_duties := List.insert d (dl_duties t)\<rparr>
               in if deadline < dl_curr_deadline t1
                  then let t2 = recompute_curr c ord calc t1 in (Scheduled, Some (remaining_duration c now t2), t2)
                  else (Scheduled, None, t1)
      | Inl e \<Rightarrow> (FailedToCompute, None, t)
      | Inr None \<Rightarrow> (NoDeadline, None, t))"

definition handle_expired ::
  "chrono \<Rightarrow> hash_order \<Rightarrow> (duty \<Rightarrow> deadline_error + int option) \<Rightarrow> int \<Rightarrow> deadliner \<Rightarrow> (nat \<times> deadliner) option" where
  "handle_expired c ord calc now t =
     (if dl_duties t = [] then Some (remaining_duration c now t, t)
      else if dl_output_closed t then None
      else let t1 = (if length (dl_output t) < OUTPUT_BUFFER
                     then t\<lparr>dl_output := dl_output t @ [dl_curr_duty t]\<rparr> else t);
               t2 = recompute_curr c ord calc (t1\<lparr>dl_duties := remove1 (dl_curr_duty t) (dl_duties t1)\<rparr>)
           in Some (remaining_duration c now t2, t2))"

text \<open>What can happen to the task, other than its cancellation: a duty is added, the timer
  fires, the consumer takes a duty from the channel or closes it.\<close>

datatype deadliner_event = AddDuty duty | TimerFired | Consume | CloseOutput

definition deadliner_step ::
  "chrono \<Rightarrow> hash_order \<Rightarrow> (duty \<Rightarrow> deadline_error + int option) \<Rightarrow> int \<Rightarrow> deadliner_event \<Rightarrow> deadliner
     \<Rightarrow> deadliner option" where
  "deadliner_step c ord calc now ev t =
     (case ev of
        AddDuty d \<Rightarrow> Some (snd (snd (handle_input c ord calc now d t)))
      | TimerFired \<Rightarrow> map_option snd (handle_expired c ord calc now t)
      | Consume \<Rightarrow> Some (t\<lparr>dl_output := tl (dl_output t)\<rparr>)
      | CloseOutput \<Rightarrow> Some (t\<lparr>dl_output_closed := True\<rparr>))"

section \<open>Deadlines\<close>

text \<open>The duty-specific part of a deadline, in milliseconds, as a closed formula.\<close>

definition duty_offset_spec :: "int \<Rightarrow> duty_type \<Rightarrow> int" where
  "duty_offset_spec ms t =
     (if t \<in> {Proposer, Randao} then ms sdiv 3
      else if t = SyncMessage then (2 * ms) sdiv 3
      else if t \<in> {Attester, Aggregator, PrepareAggregator} then 2 * ms
      else ms)"

lemma duty_duration_Inr:
  assumes "duty_duration c k t = Inr x"
  shows "x = duty_offset_spec (num_milliseconds c (dc_slot_duration k)) t"
  using assms
  by (auto simp: duty_duration_def duty_offset_spec_def msecs_of_duration_def msecs_div_def msecs_mul_def Let_def
      PROPOSAL_SLOT_FRACTION_def SYNC_MESSAGE_PHASES_def ATTESTATION_DEADLINE_SLOTS_def checked_div_i64_def mult.commute
      split: if_splits)

lemma msecs_add_to_Inr: "chrono_ok c \<Longrightarrow> msecs_add_to c ms base = Inr t \<Longrightarrow> t = base + ms * 1000000 \<and> t \<le> max_utc c"
  by (auto simp: msecs_add_to_def chrono_ok_def)

lemma duty_deadline_Inr:
  assumes "chrono_ok c" "duty_deadline c k d = Inr (Some t)"
  shows "t = dc_genesis_time k + 1000000 * (let ms = dc_slot_duration k sdiv 1000000
      in ms * int (d_slot d) + duty_offset_spec ms (d_type d) + ms sdiv 12)"
proof -
  have ms: "num_milliseconds c (dc_slot_duration k) = dc_slot_duration k sdiv 1000000"
    using assms(1) by (simp add: chrono_ok_def)
  from assms(2) obtain start dur mg offset where s: "slot_start c k (d_slot d) = Inr start"
    "duty_duration c k (d_type d) = Inr dur" "margin c k = Inr mg" "msecs_add dur mg = Inr offset"
    "msecs_add_to c offset start = Inr t"
    by (auto simp: duty_deadline_def split: if_splits)
  have "start = dc_genesis_time k + (num_milliseconds c (dc_slot_duration k) * int (d_slot d)) * 1000000"
    using s(1) msecs_add_to_Inr [OF assms(1)]
    by (fastforce simp: slot_start_def msecs_mul_slot_def msecs_of_duration_def i64_try_from_u64_def split: if_splits)
  moreover have "mg = num_milliseconds c (dc_slot_duration k) sdiv 12"
    using s(3) by (auto simp: margin_def msecs_div_def msecs_of_duration_def MARGIN_FACTOR_def checked_div_i64_def split: if_splits)
  moreover have "offset = dur + mg" using s(4) by (simp add: msecs_add_def)
  ultimately show ?thesis
    using msecs_add_to_Inr [OF assms(1) s(5)] duty_duration_Inr [OF s(2)] by (simp add: ms Let_def algebra_simps)
qed

text \<open>A date package on unbounded integers, and the configuration of the main network.\<close>

definition sample_chrono :: chrono where
  "sample_chrono = \<lparr>num_milliseconds = (\<lambda>d. d sdiv 1000000), try_milliseconds = (\<lambda>ms. Some (ms * 1000000)),
     checked_add_signed = (\<lambda>t d. if t + d \<le> 10 ^ 30 then Some (t + d) else None),
     signed_duration_since = (-), to_std = (\<lambda>d. if d < 0 then None else Some (nat d)), max_utc = 10 ^ 30\<rparr>"

definition mainnet_calculator :: duty_deadline_calculator where
  "mainnet_calculator = \<lparr>dc_genesis_time = 1606824023 * 10 ^ 9, dc_slot_duration = 12 * 10 ^ 9\<rparr>"

lemma sample_chrono_ok: "chrono_ok sample_chrono"
  by (auto simp: chrono_ok_def sample_chrono_def split: if_splits)

lemma mainnet_attester_deadline:
  "duty_deadline sample_chrono mainnet_calculator (new_duty 1 Attester) = Inr (Some (1606824060 * 10 ^ 9))"
  by code_simp



text \<open>
  Deadlines follow the slots: with slots of at least a millisecond, of two duties of one
  type the one with the later slot has the later deadline, by a whole number of slots.
\<close>

lemma duty_deadline_monotone:
  assumes "chrono_ok c" "1000000 \<le> dc_slot_duration k" "d_type d = d_type d'" "d_slot d < d_slot d'"
    and "duty_deadline c k d = Inr (Some t)" "duty_deadline c k d' = Inr (Some t')"
  shows "t < t' \<and> t' - t = (dc_slot_duration k sdiv 1000000) * 1000000 * (int (d_slot d') - int (d_slot d))"
proof -
  let ?ms = "dc_slot_duration k sdiv 1000000"
  have "1 \<le> ?ms" using assms(2) by (simp add: sdiv_pos_eq_div)
  have diff: "t' - t = ?ms * 1000000 * (int (d_slot d') - int (d_slot d))"
    using duty_deadline_Inr [OF assms(1,5)] duty_deadline_Inr [OF assms(1,6)] assms(3)
    by (simp add: Let_def algebra_simps)
  moreover have "0 < ?ms * 1000000 * (int (d_slot d') - int (d_slot d))"
    using \<open>1 \<le> ?ms\<close> assms(4) by simp
  ultimately show ?thesis by linarith
qed

section \<open>The earliest tracked duty\<close>

definition deadlines_of :: "(duty \<Rightarrow> deadline_error + int option) \<Rightarrow> duty list \<Rightarrow> int set" where
  "deadlines_of calc ds = {x. \<exists>d \<in> set ds. calc d = Inr (Some x)}"

lemma deadlines_of_simps [simp]:
  "deadlines_of calc [] = {}"
  "deadlines_of calc (d # ds) = (case calc d of Inr (Some x) \<Rightarrow> insert x (deadlines_of calc ds) | _ \<Rightarrow> deadlines_of calc ds)"
  by (auto simp: deadlines_of_def split: sum.splits option.splits)

lemma finite_deadlines_of [simp]: "finite (deadlines_of calc ds)"
  by (induction ds) (auto split: sum.splits option.splits)

lemma Min_insert_dominated:
  fixes x y :: int
  assumes "finite A" "x \<le> y"
  shows "Min (insert y (insert x A)) = Min (insert x A)"
proof -
  have "Min (insert x A) \<le> x" using assms(1) by (intro Min_le) simp_all
  then have "Min (insert x A) \<le> y" using assms(2) by linarith
  then show ?thesis using assms(1) by (subst Min_insert) (simp_all only: finite_insert insert_not_empty not_False_eq_True min_absorb2)
qed

lemma earliest_minimum: "snd (earliest calc ds cd ct) = Min (insert ct (deadlines_of calc ds))"
proof (induction calc ds cd ct rule: earliest.induct)
  case (1 calc cd ct)
  then show ?case by simp
next
  case (2 calc d ds cd ct)
  show ?case
  proof (cases "\<exists>t. calc d = Inr (Some t)")
    case True
    then obtain t where t: "calc d = Inr (Some t)" by blast
    show ?thesis
    proof (cases "t < ct")
      case True
      then show ?thesis using True "2.IH" t Min_insert_dominated [of "deadlines_of calc ds" t ct] by simp
    next
      case False
      then show ?thesis
        using False "2.IH" t Min_insert_dominated [of "deadlines_of calc ds" ct t] by (simp add: insert_commute)
    qed
  next
    case False
    then show ?thesis using 2 by (auto split: sum.splits option.splits)
  qed
qed

lemma earliest_member:
  "(case earliest calc ds cd ct of (d, t) \<Rightarrow> (d, t) = (cd, ct) \<or> d \<in> set ds \<and> calc d = Inr (Some t))"
  by (induction calc ds cd ct rule: earliest.induct) (auto split: sum.splits option.splits if_splits)

lemma recompute_curr_deadline:
  "dl_curr_deadline (recompute_curr c ord calc t) = Min (insert (max_utc c) (deadlines_of calc (dl_duties t)))"
proof -
  have "deadlines_of calc (hash_iter (ord 0) (dl_duties t)) = deadlines_of calc (dl_duties t)"
    by (simp add: deadlines_of_def)
  then show ?thesis
    using earliest_minimum [of calc "hash_iter (ord 0) (dl_duties t)" "new_duty 0 Unknown" "max_utc c"]
    by (simp add: recompute_curr_def case_prod_unfold)
qed

definition calc_bounded :: "chrono \<Rightarrow> (duty \<Rightarrow> deadline_error + int option) \<Rightarrow> bool" where
  "calc_bounded c calc \<longleftrightarrow> (\<forall>d x. calc d = Inr (Some x) \<longrightarrow> x < max_utc c)"

definition deadliner_inv :: "chrono \<Rightarrow> (duty \<Rightarrow> deadline_error + int option) \<Rightarrow> deadliner \<Rightarrow> bool" where
  "deadliner_inv c calc t \<longleftrightarrow> distinct (dl_duties t) \<and> length (dl_output t) \<le> OUTPUT_BUFFER
     \<and> (\<forall>d \<in> set (dl_duties t). \<exists>x. calc d = Inr (Some x))
     \<and> dl_curr_deadline t = Min (insert (max_utc c) (deadlines_of calc (dl_duties t)))
     \<and> (dl_duties t \<noteq> [] \<longrightarrow> dl_curr_duty t \<in> set (dl_duties t) \<and> calc (dl_curr_duty t) = Inr (Some (dl_curr_deadline t)))"

lemma recompute_curr_fields [simp]:
  "dl_duties (recompute_curr c ord calc t) = dl_duties t" "dl_output (recompute_curr c ord calc t) = dl_output t"
  "dl_output_closed (recompute_curr c ord calc t) = dl_output_closed t"
  by (simp_all add: recompute_curr_def split: prod.splits)

lemma recompute_curr_duty:
  assumes "calc_bounded c calc" "d \<in> set (dl_duties t)" "calc d = Inr (Some x)"
  shows "dl_curr_duty (recompute_curr c ord calc t) \<in> set (dl_duties t)
    \<and> calc (dl_curr_duty (recompute_curr c ord calc t)) = Inr (Some (dl_curr_deadline (recompute_curr c ord calc t)))"
proof -
  have "x \<in> deadlines_of calc (dl_duties t)" using assms(2,3) by (auto simp: deadlines_of_def)
  then have "Min (insert (max_utc c) (deadlines_of calc (dl_duties t))) \<le> x" by (intro Min_le) auto
  moreover have "x < max_utc c" using assms(1,3) by (simp add: calc_bounded_def)
  ultimately have "dl_curr_deadline (recompute_curr c ord calc t) < max_utc c"
    by (simp only: recompute_curr_deadline)
  then show ?thesis
    using earliest_member [where calc = calc and ds = "hash_iter (ord 0) (dl_duties t)" and cd = "new_duty 0 Unknown"
        and ct = "max_utc c"]
    by (auto simp: recompute_curr_def split: prod.splits)
qed

lemma recompute_inv:
  assumes "calc_bounded c calc" "distinct (dl_duties t)" "length (dl_output t) \<le> OUTPUT_BUFFER"
    "\<forall>d \<in> set (dl_duties t). \<exists>x. calc d = Inr (Some x)"
  shows "deadliner_inv c calc (recompute_curr c ord calc t)"
proof -
  have "dl_curr_duty (recompute_curr c ord calc t) \<in> set (dl_duties t)
    \<and> calc (dl_curr_duty (recompute_curr c ord calc t)) = Inr (Some (dl_curr_deadline (recompute_curr c ord calc t)))"
    if "dl_duties t \<noteq> []"
    using recompute_curr_duty [where t = t, OF assms(1)] assms(4) that by (metis list.set_intros(1) neq_Nil_conv)
  then show ?thesis
    using assms recompute_curr_deadline [of c ord calc t] unfolding deadliner_inv_def recompute_curr_fields by blast
qed

lemma handle_input_inv:
  assumes "calc_bounded c calc" "deadliner_inv c calc t"
  shows "deadliner_inv c calc (snd (snd (handle_input c ord calc now d t)))"
proof (cases "\<exists>x. calc d = Inr (Some x) \<and> \<not> x < now")
  case True
  then obtain x where x: "calc d = Inr (Some x)" "\<not> x < now" by blast
  define t1 where "t1 = t\<lparr>dl_duties := List.insert d (dl_duties t)\<rparr>"
  have t1: "distinct (dl_duties t1)" "length (dl_output t1) \<le> OUTPUT_BUFFER"
    "\<forall>d \<in> set (dl_duties t1). \<exists>x. calc d = Inr (Some x)"
    using assms(2) x(1) by (auto simp: t1_def deadliner_inv_def)
  show ?thesis
  proof (cases "x < dl_curr_deadline t1")
    case True
    then show ?thesis using x recompute_inv [OF assms(1) t1, of ord] by (simp add: handle_input_def t1_def Let_def)
  next
    case False
    have D: "deadlines_of calc (dl_duties t1) = insert x (deadlines_of calc (dl_duties t))"
      using x(1) by (auto simp: t1_def deadlines_of_def)
    have curr: "dl_curr_deadline t = Min (insert (max_utc c) (deadlines_of calc (dl_duties t)))"
      using assms(2) unfolding deadliner_inv_def by blast
    have "dl_curr_deadline t \<le> x" using False by (simp add: t1_def)
    note curr = curr this
    then have "Min (insert (max_utc c) (deadlines_of calc (dl_duties t1))) = dl_curr_deadline t1"
      unfolding D insert_commute [of "max_utc c" x]
      by (subst Min_insert) (simp_all add: t1_def min_absorb2 del: Min_insert)
    moreover have "dl_duties t \<noteq> []"
      using curr x(1) assms(1) by (fastforce simp: calc_bounded_def)
    ultimately show ?thesis
      using assms(2) x False t1 by (simp add: handle_input_def t1_def [symmetric] Let_def deadliner_inv_def) (simp add: t1_def)
  qed
next
  case False
  then show ?thesis using assms(2) by (auto simp: handle_input_def split: sum.splits option.splits)
qed

lemma handle_expired_inv:
  assumes "calc_bounded c calc" "deadliner_inv c calc t" "handle_expired c ord calc now t = Some (w, t')"
  shows "deadliner_inv c calc t'"
proof (cases "dl_duties t = []")
  case True
  then show ?thesis using assms(2,3) by (simp add: handle_expired_def)
next
  case False
  define t1 where "t1 = (if length (dl_output t) < OUTPUT_BUFFER
    then t\<lparr>dl_output := dl_output t @ [dl_curr_duty t]\<rparr> else t)"
  have t': "t' = recompute_curr c ord calc (t1\<lparr>dl_duties := remove1 (dl_curr_duty t) (dl_duties t1)\<rparr>)"
    using assms(3) False by (auto simp: handle_expired_def t1_def Let_def split: if_splits)
  show ?thesis
    unfolding t'
    by (rule recompute_inv [OF assms(1)])
      (use assms(2) in \<open>auto simp: t1_def deadliner_inv_def dest: notin_set_remove1\<close>)
qed

text \<open>A calculator with one deadline per slot, for the examples.\<close>

definition sample_calc :: "duty \<Rightarrow> deadline_error + int option" where
  "sample_calc d = (if never_expires (d_type d) then Inr None else Inr (Some (int (min (d_slot d) 1000))))"

lemma sample_calc_bounded: "calc_bounded sample_chrono sample_calc"
  by (auto simp: calc_bounded_def sample_calc_def sample_chrono_def split: if_splits)

text \<open>
  The next duty to expire is the one with the smallest deadline among all tracked duties,
  computed independently of the order in which the hash set is visited.
\<close>

lemma recompute_curr_minimum:
  "dl_curr_deadline (recompute_curr c ord calc t) = Min (insert (max_utc c) (deadlines_of calc (dl_duties t)))
   \<and> (calc_bounded c calc \<and> (\<exists>d \<in> set (dl_duties t). \<exists>x. calc d = Inr (Some x)) \<longrightarrow>
        calc (dl_curr_duty (recompute_curr c ord calc t)) = Inr (Some (Min (deadlines_of calc (dl_duties t)))))"
proof (intro conjI impI)
  show "dl_curr_deadline (recompute_curr c ord calc t) = Min (insert (max_utc c) (deadlines_of calc (dl_duties t)))"
    by (rule recompute_curr_deadline)
  assume asm: "calc_bounded c calc \<and> (\<exists>d \<in> set (dl_duties t). \<exists>x. calc d = Inr (Some x))"
  then obtain d x where d: "d \<in> set (dl_duties t)" "calc d = Inr (Some x)" by blast
  then have ne: "deadlines_of calc (dl_duties t) \<noteq> {}" by (auto simp: deadlines_of_def)
  then have "Min (deadlines_of calc (dl_duties t)) < max_utc c"
    using asm Min_in [OF finite_deadlines_of ne] by (auto simp: deadlines_of_def calc_bounded_def)
  then have "Min (insert (max_utc c) (deadlines_of calc (dl_duties t))) = Min (deadlines_of calc (dl_duties t))"
    using ne by (subst Min_insert) (simp_all add: min_absorb2)
  then show "calc (dl_curr_duty (recompute_curr c ord calc t)) = Inr (Some (Min (deadlines_of calc (dl_duties t))))"
    using recompute_curr_duty [where t = t and ord = ord and calc = calc and c = c, OF _ d] asm by (simp add: recompute_curr_deadline)
qed



text \<open>
  C16. When the timer fires while duties are tracked and the channel is open with room, the duty
  that is emitted is a tracked one with the smallest deadline, exactly that duty stops being
  tracked, and the next deadline is not earlier: duties come out in the order of their
  deadlines.
\<close>

theorem handle_expired_emits_earliest:
  assumes "calc_bounded c calc" "deadliner_inv c calc t" "dl_duties t \<noteq> []" "\<not> dl_output_closed t"
    and "length (dl_output t) < OUTPUT_BUFFER"
  shows "\<exists>w t'. handle_expired c ord calc now t = Some (w, t')
    \<and> dl_output t' = dl_output t @ [dl_curr_duty t]
    \<and> set (dl_duties t') = set (dl_duties t) - {dl_curr_duty t}
    \<and> calc (dl_curr_duty t) = Inr (Some (dl_curr_deadline t))
    \<and> (\<forall>d x. d \<in> set (dl_duties t) \<and> calc d = Inr (Some x) \<longrightarrow> dl_curr_deadline t \<le> x)
    \<and> dl_curr_deadline t \<le> dl_curr_deadline t'"
proof -
  define t1 where "t1 = t\<lparr>dl_output := dl_output t @ [dl_curr_duty t], dl_duties := remove1 (dl_curr_duty t) (dl_duties t)\<rparr>"
  define t' where "t' = recompute_curr c ord calc t1"
  have inv: "distinct (dl_duties t)" "calc (dl_curr_duty t) = Inr (Some (dl_curr_deadline t))"
    and curr: "dl_curr_deadline t = Min (insert (max_utc c) (deadlines_of calc (dl_duties t)))"
    using assms(2,3) unfolding deadliner_inv_def by blast+
  have min: "dl_curr_deadline t \<le> x" if "d \<in> set (dl_duties t)" "calc d = Inr (Some x)" for d x
  proof -
    have "x \<in> deadlines_of calc (dl_duties t)" using that by (auto simp: deadlines_of_def)
    then show ?thesis unfolding curr by (intro Min_le) auto
  qed
  have "deadlines_of calc (dl_duties t1) \<subseteq> deadlines_of calc (dl_duties t)"
    using set_remove1_subset [of "dl_curr_duty t" "dl_duties t"] by (auto simp: t1_def deadlines_of_def)
  then have "dl_curr_deadline t \<le> dl_curr_deadline t'"
    unfolding curr t'_def recompute_curr_deadline by (intro Min_antimono) auto
  moreover have "handle_expired c ord calc now t = Some (remaining_duration c now t', t')"
    using assms(3-5) by (simp add: handle_expired_def t'_def t1_def Let_def)
  moreover have "dl_output t' = dl_output t @ [dl_curr_duty t]" "set (dl_duties t') = set (dl_duties t) - {dl_curr_duty t}"
    using inv(1) by (simp_all add: t'_def t1_def)
  ultimately show ?thesis using inv(2) min by blast
qed

theorem handle_expired_emits_earliest_witness:
  "\<exists>w t'. handle_expired sample_chrono in_order sample_calc 9
      (the (deadliner_step sample_chrono in_order sample_calc 0 (AddDuty (new_duty 3 Attester))
        (the (deadliner_step sample_chrono in_order sample_calc 0 (AddDuty (new_duty 5 Attester)) (deadliner_start sample_chrono)))))
      = Some (w, t') \<and> dl_output t' = [new_duty 3 Attester]"
proof -
  let ?t1 = "the (deadliner_step sample_chrono in_order sample_calc 0 (AddDuty (new_duty 5 Attester)) (deadliner_start sample_chrono))"
  let ?t2 = "the (deadliner_step sample_chrono in_order sample_calc 0 (AddDuty (new_duty 3 Attester)) ?t1)"
  have "deadliner_inv sample_chrono sample_calc (deadliner_start sample_chrono)"
    by (simp add: deadliner_inv_def deadliner_start_def)
  from handle_input_inv [OF sample_calc_bounded handle_input_inv [OF sample_calc_bounded this]]
  have inv: "deadliner_inv sample_chrono sample_calc ?t2" by (simp add: deadliner_step_def)
  have t2: "dl_duties ?t2 \<noteq> [] \<and> \<not> dl_output_closed ?t2 \<and> dl_output ?t2 = [] \<and> dl_curr_duty ?t2 = new_duty 3 Attester"
    by code_simp
  show ?thesis
    using handle_expired_emits_earliest [OF sample_calc_bounded inv, of in_order 9] t2 by (auto simp: OUTPUT_BUFFER_def)
qed

end
