(* ===== verification/Gater.thy ===== *)
theory Gater
  imports Deadline
begin

text \<open>
  The duty gater (crates/core/src/gater.rs): duties received from peers are accepted when
  their type is valid and their epoch is not too far in the future. The configuration comes
  from the beacon node, the time from a clock.
\<close>

datatype gater_error = GaterBeaconNodeConfigError | InvalidSlotDuration

record duty_gater =
  g_genesis_time :: int
  g_slot_duration_ms :: nat
  g_slots_per_epoch :: nat
  g_allowed_future_epochs :: nat

definition DEFAULT_ALLOWED_FUTURE_EPOCHS :: nat where "DEFAULT_ALLOWED_FUTURE_EPOCHS = 2"

text \<open>The answers of the beacon node are arguments: the genesis time, and the slot duration in
  nanoseconds with the slots per epoch.\<close>

definition gater_with_options ::
  "gater_error + int \<Rightarrow> gater_error + nat \<times> nat \<Rightarrow> nat \<Rightarrow> gater_error + duty_gater" where
  "gater_with_options genesis slots allowed =
     res_bind genesis (\<lambda>g.
     res_bind slots (\<lambda>(dur, spe).
       let ms = dur div 1000000
       in if ms \<le> u64_max \<and> ms \<noteq> 0
          then Inr \<lparr>g_genesis_time = g, g_slot_duration_ms = ms, g_slots_per_epoch = spe, g_allowed_future_epochs = allowed\<rparr>
          else Inl InvalidSlotDuration))"

definition gater_new :: "gater_error + int \<Rightarrow> gater_error + nat \<times> nat \<Rightarrow> gater_error + duty_gater" where
  "gater_new genesis slots = gater_with_options genesis slots DEFAULT_ALLOWED_FUTURE_EPOCHS"

text \<open>A zero divisor panics, which is the value None.\<close>

definition checked_div_u64 :: "nat \<Rightarrow> nat \<Rightarrow> nat option" where
  "checked_div_u64 a b = (if b = 0 then None else Some (a div b))"

definition current_epoch :: "chrono \<Rightarrow> duty_gater \<Rightarrow> int \<Rightarrow> nat option" where
  "current_epoch c g now =
     (let elapsed = num_milliseconds c (signed_duration_since c now (g_genesis_time g));
          elapsed_ms = (if elapsed < 0 then 0 else nat elapsed)
      in Option.bind (checked_div_u64 elapsed_ms (g_slot_duration_ms g)) (\<lambda>current_slot.
           checked_div_u64 current_slot (g_slots_per_epoch g)))"

definition gater_allows :: "chrono \<Rightarrow> duty_gater \<Rightarrow> int \<Rightarrow> duty \<Rightarrow> bool option" where
  "gater_allows c g now d =
     (if \<not> duty_type_is_valid (d_type d) then Some False
      else Option.bind (checked_div_u64 (d_slot d) (g_slots_per_epoch g)) (\<lambda>duty_epoch.
        Option.bind (current_epoch c g now) (\<lambda>epoch.
          Some (duty_epoch \<le> saturating_add_u64 epoch (g_allowed_future_epochs g)))))"

section \<open>Properties\<close>

definition gater_ok :: "duty_gater \<Rightarrow> bool" where
  "gater_ok g \<longleftrightarrow> 0 < g_slot_duration_ms g \<and> 0 < g_slots_per_epoch g"

lemma gater_with_options_ok:
  "gater_with_options genesis slots allowed = Inr g \<Longrightarrow> slots = Inr (dur, spe) \<Longrightarrow> 0 < spe \<Longrightarrow> gater_ok g"
  by (auto simp: gater_with_options_def gater_ok_def Let_def split: if_splits)

lemma current_epoch_eq:
  assumes "chrono_ok c" "gater_ok g"
  shows "current_epoch c g now
    = Some (nat ((now - g_genesis_time g) sdiv 1000000) div (g_slot_duration_ms g * g_slots_per_epoch g))"
  using assms
  by (auto simp: current_epoch_def gater_ok_def checked_div_u64_def chrono_ok_def Let_def div_mult2_eq)



end
