(* ===== verification/Interpolation.thy ===== *)
theory Interpolation
  imports Complex_Main Prelude
begin

text \<open>
  The algebra behind secret sharing, over any field: evaluation of a polynomial given by its
  coefficients, interpolation at zero from the values at enough distinct points, and the same
  for the multiples of a group element. The key generation and the threshold signatures build
  on these facts; the scalars and the curve groups that the code takes from the curve library
  are types of the classes of fields and of commutative groups with a scalar multiplication.
\<close>

section \<open>Polynomials by their coefficients\<close>

definition poly_eval :: "'a::field list \<Rightarrow> 'a \<Rightarrow> 'a" where
  "poly_eval cs x = foldr (\<lambda>c v. c + x * v) cs 0"

lemma poly_eval_simps [simp]:
  "poly_eval [] x = 0"
  "poly_eval (c # cs) x = c + x * poly_eval cs x"
  by (simp_all add: poly_eval_def)

lemma poly_eval_append: "poly_eval (cs @ ds) x = poly_eval cs x + x ^ length cs * poly_eval ds x"
  by (induction cs) (simp_all add: algebra_simps)

section \<open>Interpolation at zero\<close>

definition lagrange :: "'a::field set \<Rightarrow> 'a \<Rightarrow> 'a" where
  "lagrange S i = (\<Prod>j \<in> S - {i}. j / (j - i))"

definition at_zero :: "'a::field set \<Rightarrow> ('a \<Rightarrow> 'a) \<Rightarrow> 'a" where
  "at_zero S f = (\<Sum>i \<in> S. lagrange S i * f i)"

text \<open>A factor that vanishes at one of the points removes that point.\<close>

lemma at_zero_root:
  assumes "finite S" "a \<in> S"
  shows "at_zero S (\<lambda>x. (x - a) * f x) = - a * at_zero (S - {a}) f"
proof -
  have "at_zero S (\<lambda>x. (x - a) * f x) = (\<Sum>i \<in> S - {a}. lagrange S i * ((i - a) * f i))"
    using assms by (simp add: at_zero_def sum.remove)
  also have "\<dots> = (\<Sum>i \<in> S - {a}. - a * (lagrange (S - {a}) i * f i))"
  proof (rule sum.cong)
    fix i assume i: "i \<in> S - {a}"
    have "S - {i} - {a} = S - {a} - {i}" by auto
    then have "lagrange S i = a / (a - i) * lagrange (S - {a}) i"
      unfolding lagrange_def using i assms prod.remove [of "S - {i}" a "\<lambda>j. j / (j - i)"] by auto
    moreover have "a / (a - i) * (i - a) = - a" using i by (auto simp: divide_eq_eq algebra_simps)
    ultimately show "lagrange S i * ((i - a) * f i) = - a * (lagrange (S - {a}) i * f i)"
      by (metis mult.assoc mult.commute)
  qed simp
  finally show ?thesis by (simp add: at_zero_def sum_distrib_left)
qed

lemma at_zero_diff: "at_zero S (\<lambda>x. f x - g x) = at_zero S f - at_zero S g"
  by (simp add: at_zero_def sum_subtractf algebra_simps)

lemma at_zero_add: "at_zero S (\<lambda>x. f x + g x) = at_zero S f + at_zero S g"
  by (simp add: at_zero_def sum.distrib algebra_simps)

lemma at_zero_scale: "at_zero S (\<lambda>x. c * f x) = c * at_zero S f"
  by (simp add: at_zero_def sum_distrib_left algebra_simps)

lemma at_zero_one:
  assumes "finite S" "S \<noteq> {}"
  shows "at_zero S (\<lambda>_. 1) = 1"
  using assms
proof (induction "card S" arbitrary: S rule: less_induct)
  case less
  then obtain a where a: "a \<in> S" by auto
  show ?case
  proof (cases "S = {a}")
    case True
    then show ?thesis by (simp add: at_zero_def lagrange_def)
  next
    case False
    then obtain b where b: "b \<in> S" "b \<noteq> a" using a by auto
    have one: "at_zero (S - {c}) (\<lambda>_. 1) = 1" if "c \<in> S" "S - {c} \<noteq> {}" for c
      using less that by (intro less.hyps) (auto simp: card_gt_0_iff)
    have ne: "S - {a} \<noteq> {}" "S - {b} \<noteq> {}" using a b by auto
    have "(b - a) * at_zero S (\<lambda>_. 1) = at_zero S (\<lambda>x. (x - a) * 1 - (x - b) * 1)"
      by (simp flip: at_zero_scale)
    also have "\<dots> = b - a"
      unfolding at_zero_diff at_zero_root [OF less.prems(1) a] at_zero_root [OF less.prems(1) b(1)]
      using one [OF a] one [OF b(1)] ne by simp
    finally show ?thesis using b(2) by simp
  qed
qed

lemma interpolation_at_zero:
  assumes "finite S" "S \<noteq> {}" "length cs \<le> card S"
  shows "at_zero S (poly_eval cs) = poly_eval cs 0"
  using assms
proof (induction cs arbitrary: S)
  case Nil
  then show ?case by (simp add: at_zero_def poly_eval_def)
next
  case (Cons c cs)
  obtain a where a: "a \<in> S" using Cons.prems(2) by auto
  have "at_zero S (\<lambda>x. x * poly_eval cs x) = 0"
  proof (cases "cs = []")
    case True
    then show ?thesis by (simp add: at_zero_def)
  next
    case False
    have card: "length cs \<le> card (S - {a})" using Cons.prems a by simp
    then have "S - {a} \<noteq> {}" using False by (metis card.empty le_zero_eq length_0_conv)
    then have "at_zero (S - {a}) (poly_eval cs) = poly_eval cs 0" using Cons.IH [of "S - {a}"] Cons.prems(1) card by simp
    moreover have "at_zero S (poly_eval cs) = poly_eval cs 0" using Cons.IH [of S] Cons.prems by simp
    moreover have "at_zero S (\<lambda>x. x * poly_eval cs x) = at_zero S (\<lambda>x. (x - a) * poly_eval cs x + a * poly_eval cs x)"
      by (simp add: algebra_simps)
    ultimately show ?thesis using at_zero_root [OF Cons.prems(1) a, of "poly_eval cs"] by (simp add: at_zero_add at_zero_scale)
  qed
  moreover have "at_zero S (\<lambda>x. c * 1) = c" using at_zero_one [OF Cons.prems(1,2)] at_zero_scale [of S c "\<lambda>_. 1"] by simp
  ultimately show ?case using at_zero_add [of S "\<lambda>_. c" "\<lambda>x. x * poly_eval cs x"] by simp
qed
text \<open>The same over a list of distinct points, as the code holds them, and for the multiples of
  a group element.\<close>

lemma interpolation_list:
  assumes "distinct xs" "xs \<noteq> []" "length cs \<le> length xs"
  shows "(\<Sum>x \<leftarrow> xs. lagrange (set xs) x * poly_eval cs x) = poly_eval cs 0"
  using interpolation_at_zero [of "set xs" cs] assms
  by (simp add: at_zero_def sum_list_distinct_conv_sum_set distinct_card)

lemma sum_list_scale:
  assumes "module scale"
  shows "(\<Sum>x \<leftarrow> xs. scale (c x) h) = scale (\<Sum>x \<leftarrow> xs. c x) h"
  by (induction xs) (simp_all add: module.scale_left_distrib [OF assms] module.scale_zero_left [OF assms])

lemma interpolation_group:
  assumes "module scale" "distinct xs" "xs \<noteq> []" "length cs \<le> length xs"
  shows "(\<Sum>x \<leftarrow> xs. scale (lagrange (set xs) x) (scale (poly_eval cs x) h)) = scale (poly_eval cs 0) h"
  using sum_list_scale [OF assms(1), of "\<lambda>x. lagrange (set xs) x * poly_eval cs x" h xs] interpolation_list [OF assms(2-4)]
    module.scale_scale [OF assms(1)] by simp

text \<open>The product that the loops compute: over all positions but one.\<close>

lemma lagrange_positions:
  assumes "distinct xs" "i < length xs"
  shows "(\<Prod>j \<leftarrow> filter (\<lambda>j. j \<noteq> i) [0..<length xs]. xs ! j / (xs ! j - xs ! i)) = lagrange (set xs) (xs ! i)"
proof -
  have img: "(!) xs ` ({0..<length xs} - {i}) = set xs - {xs ! i}"
    using assms by (auto simp: set_conv_nth nth_eq_iff_index_eq)
  have inj: "inj_on ((!) xs) ({0..<length xs} - {i})" using assms by (auto simp: inj_on_def nth_eq_iff_index_eq)
  have "(\<Prod>j \<leftarrow> filter (\<lambda>j. j \<noteq> i) [0..<length xs]. xs ! j / (xs ! j - xs ! i))
      = (\<Prod>j \<in> {0..<length xs} - {i}. xs ! j / (xs ! j - xs ! i))"
    by (subst prod.distinct_set_conv_list [symmetric]) (auto intro: prod.cong)
  also have "\<dots> = lagrange (set xs) (xs ! i)"
    unfolding lagrange_def img [symmetric] by (simp add: prod.reindex [OF inj])
  finally show ?thesis .
qed

section \<open>Commitments to the coefficients\<close>

text \<open>The value at a point of the polynomial whose coefficients are group elements.\<close>

definition group_eval :: "('a::field \<Rightarrow> 'b \<Rightarrow> 'b) \<Rightarrow> 'b::ab_group_add list \<Rightarrow> 'a \<Rightarrow> 'b" where
  "group_eval scale Cs x = (\<Sum>k \<leftarrow> [0..<length Cs]. scale (x ^ k) (Cs ! k))"

lemma group_eval_snoc: "group_eval scale (Cs @ [C]) x = group_eval scale Cs x + scale (x ^ length Cs) C"
  unfolding group_eval_def by (simp add: nth_append) (intro arg_cong [where f = sum_list] map_cong, simp_all)

lemma group_eval_commit:
  assumes "module scale"
  shows "group_eval scale (map (\<lambda>c. scale c g) cs) x = scale (poly_eval cs x) g"
  by (induction cs rule: rev_induct)
    (simp_all add: group_eval_snoc poly_eval_append group_eval_def [of _ "[]"] module.scale_left_distrib [OF assms]
      module.scale_scale [OF assms] module.scale_zero_left [OF assms])

lemma group_eval_add:
  assumes "module scale" "length Cs = length Ds"
  shows "group_eval scale (map2 (+) Cs Ds) x = group_eval scale Cs x + group_eval scale Ds x"
proof -
  have "group_eval scale (map2 (+) Cs Ds) x = (\<Sum>k \<leftarrow> [0..<length Cs]. scale (x ^ k) (Cs ! k) + scale (x ^ k) (Ds ! k))"
    unfolding group_eval_def using assms(2) by (intro arg_cong [where f = sum_list]) (simp add: module.scale_right_distrib [OF assms(1)])
  then show ?thesis using assms(2) by (simp add: group_eval_def sum_list_addf)
qed

end
