(* ===== verification/Curve.thy ===== *)
theory Curve
  imports Interpolation
begin

text \<open>
  The wrappers around the curve library (crates/frost/src/curve.rs). A scalar is an element of a
  type of class \<open>field\<close> and a point of either curve group an element of a type of class
  \<open>ab_group_add\<close>: the operators of the wrappers are the operators of the classes. The other
  operations of the library (multiplication of a point, the encodings, hashing to the curve, the
  pairing check) are the fields of a record that the definitions take as an argument;
  \<open>blst_ok\<close> states what the documentation of the library promises of them.
\<close>

section \<open>The curve library\<close>

record ('s, 'p, 'q) blst =
  lendian_from_scalar :: "'s \<Rightarrow> nat list"
  scalar_from_lendian :: "nat list \<Rightarrow> 's option"
  scalar_from_be_bytes :: "nat list \<Rightarrow> 's"
  p1_generator :: 'p
  p1_mult :: "'s \<Rightarrow> 'p \<Rightarrow> 'p"
  p1_affine_compress :: "'p \<Rightarrow> nat list"
  p1_uncompress :: "nat list \<Rightarrow> 'p option"
  p2_mult :: "'s \<Rightarrow> 'q \<Rightarrow> 'q"
  p2_compress :: "'q \<Rightarrow> nat list"
  p2_uncompress :: "nat list \<Rightarrow> 'q option"
  hash_to_p2 :: "nat list \<Rightarrow> nat list \<Rightarrow> 'q"
  pairing_verify :: "'p \<Rightarrow> 'q \<Rightarrow> nat list \<Rightarrow> nat list \<Rightarrow> bool"

definition blst_ok :: "('s::field, 'p::ab_group_add, 'q::ab_group_add) blst \<Rightarrow> bool" where
  "blst_ok B \<longleftrightarrow> module (p1_mult B) \<and> module (p2_mult B) \<and> p1_generator B \<noteq> 0
     \<and> (\<forall>s. scalar_from_lendian B (lendian_from_scalar B s) = Some s)
     \<and> (\<forall>p. p1_uncompress B (p1_affine_compress B p) = Some p)
     \<and> (\<forall>q. p2_uncompress B (p2_compress B q) = Some q)"

section \<open>Scalars and points\<close>

definition scalar_to_bytes :: "('s, 'p, 'q) blst \<Rightarrow> 's \<Rightarrow> nat list" where
  "scalar_to_bytes B s = lendian_from_scalar B s"

definition scalar_from_bytes :: "('s, 'p, 'q) blst \<Rightarrow> nat list \<Rightarrow> 's option" where
  "scalar_from_bytes B bytes = scalar_from_lendian B bytes"

definition from_be_bytes_wide :: "('s, 'p, 'q) blst \<Rightarrow> nat list \<Rightarrow> 's" where
  "from_be_bytes_wide B bytes = scalar_from_be_bytes B bytes"

definition scalar_of_u64 :: "nat \<Rightarrow> 's::field" where
  "scalar_of_u64 val = of_nat val"

definition invert :: "'s::field \<Rightarrow> 's option" where
  "invert s = (if s = 0 then None else Some (inverse s))"

definition to_compressed :: "('s, 'p, 'q) blst \<Rightarrow> 'p \<Rightarrow> nat list" where
  "to_compressed B p = p1_affine_compress B p"

definition from_compressed :: "('s, 'p::zero, 'q) blst \<Rightarrow> nat list \<Rightarrow> 'p option" where
  "from_compressed B bytes =
     (case p1_uncompress B bytes of
        None \<Rightarrow> None
      | Some affine \<Rightarrow> if affine = 0 then None else Some affine)"

lemma scalar_roundtrip: "blst_ok B \<Longrightarrow> scalar_from_bytes B (scalar_to_bytes B s) = Some s"
  by (simp add: blst_ok_def scalar_from_bytes_def scalar_to_bytes_def)

lemma compressed_roundtrip: "blst_ok B \<Longrightarrow> from_compressed B (to_compressed B p) = (if p = 0 then None else Some p)"
  by (simp add: blst_ok_def from_compressed_def to_compressed_def)

lemma mult_nonzero:
  assumes "blst_ok B" "s \<noteq> 0" "p \<noteq> 0"
  shows "p1_mult B s p \<noteq> 0"
proof
  assume "p1_mult B s p = 0"
  then have "p1_mult B (inverse s * s) p = 0"
    using assms(1) by (metis blst_ok_def module.scale_scale module.scale_zero_right)
  then show False using assms by (simp add: blst_ok_def module.scale_one)
qed

section \<open>A small field\<close>

text \<open>The integers modulo five, with themselves as both groups, satisfy the assumptions.\<close>

datatype gf5 = F0 | F1 | F2 | F3 | F4

fun gf5_nat :: "gf5 \<Rightarrow> nat" where
  "gf5_nat F0 = 0" | "gf5_nat F1 = 1" | "gf5_nat F2 = 2" | "gf5_nat F3 = 3" | "gf5_nat F4 = 4"

definition gf5_of :: "nat \<Rightarrow> gf5" where
  "gf5_of n = (let m = n mod 5 in if m = 0 then F0 else if m = 1 then F1 else if m = 2 then F2 else if m = 3 then F3 else F4)"

instantiation gf5 :: field
begin

definition zero_gf5 :: gf5 where "zero_gf5 = F0"
definition one_gf5 :: gf5 where "one_gf5 = F1"
definition plus_gf5 :: "gf5 \<Rightarrow> gf5 \<Rightarrow> gf5" where "plus_gf5 a b = gf5_of (gf5_nat a + gf5_nat b)"
definition times_gf5 :: "gf5 \<Rightarrow> gf5 \<Rightarrow> gf5" where "times_gf5 a b = gf5_of (gf5_nat a * gf5_nat b)"
definition uminus_gf5 :: "gf5 \<Rightarrow> gf5" where "uminus_gf5 a = gf5_of (5 - gf5_nat a)"
definition minus_gf5 :: "gf5 \<Rightarrow> gf5 \<Rightarrow> gf5" where "minus_gf5 a b = gf5_of (gf5_nat a + (5 - gf5_nat b))"
definition inverse_gf5 :: "gf5 \<Rightarrow> gf5" where "inverse_gf5 a = gf5_of (gf5_nat a ^ 3)"
definition divide_gf5 :: "gf5 \<Rightarrow> gf5 \<Rightarrow> gf5" where "divide_gf5 a b = gf5_of (gf5_nat a * gf5_nat b ^ 3)"

lemmas gf5_defs = zero_gf5_def one_gf5_def plus_gf5_def times_gf5_def uminus_gf5_def minus_gf5_def inverse_gf5_def divide_gf5_def gf5_of_def Let_def

instance
proof
  fix a b c :: gf5
  show "a + b + c = a + (b + c)" by (cases a; cases b; cases c) (simp_all add: gf5_defs)
  show "a * b * c = a * (b * c)" by (cases a; cases b; cases c) (simp_all add: gf5_defs)
  show "(a + b) * c = a * c + b * c" by (cases a; cases b; cases c) (simp_all add: gf5_defs)
  show "a + b = b + a" by (cases a; cases b) (simp_all add: gf5_defs)
  show "a * b = b * a" by (cases a; cases b) (simp_all add: gf5_defs)
  show "a - b = a + - b" by (cases a; cases b) (simp_all add: gf5_defs)
  show "a div b = a * inverse b" by (cases a; cases b) (simp_all add: gf5_defs)
  show "0 + a = a" by (cases a) (simp_all add: gf5_defs)
  show "1 * a = a" by (cases a) (simp_all add: gf5_defs)
  show "- a + a = 0" by (cases a) (simp_all add: gf5_defs)
  show "inverse a * a = 1" if "a \<noteq> 0" using that by (cases a) (simp_all add: gf5_defs)
  show "(0::gf5) \<noteq> 1" by (simp add: gf5_defs)
  show "inverse (0::gf5) = 0" by (simp add: gf5_defs)
qed

end

definition sample_blst :: "(gf5, gf5, gf5) blst" where
  "sample_blst = \<lparr>lendian_from_scalar = (\<lambda>s. [gf5_nat s]), scalar_from_lendian = (\<lambda>bs. Some (gf5_of (sum_list bs))),
     scalar_from_be_bytes = (\<lambda>bs. gf5_of (sum_list bs)), p1_generator = F1, p1_mult = (*),
     p1_affine_compress = (\<lambda>p. [gf5_nat p]), p1_uncompress = (\<lambda>bs. Some (gf5_of (sum_list bs))), p2_mult = (*),
     p2_compress = (\<lambda>p. [gf5_nat p]), p2_uncompress = (\<lambda>bs. Some (gf5_of (sum_list bs))),
     hash_to_p2 = (\<lambda>msg dst. gf5_of (1 + sum_list msg)),
     pairing_verify = (\<lambda>p q msg dst. q = p * gf5_of (1 + sum_list msg))\<rparr>"

lemma gf5_of_nat [simp]: "gf5_of (gf5_nat a) = a"
  by (cases a) (simp_all add: gf5_of_def)

lemma gf5_numerals: "(2::gf5) = F2" "(3::gf5) = F3"
  by code_simp+

lemma module_times: "module ((*) :: 'a::field \<Rightarrow> 'a \<Rightarrow> 'a)"
  by unfold_locales (simp_all add: algebra_simps)

lemma sample_blst_ok: "blst_ok sample_blst"
  by (simp add: blst_ok_def sample_blst_def module_times zero_gf5_def)

end
