(* ===== verification/Tbls.thy ===== *)
theory Tbls
  imports Curve
begin

text \<open>
  The threshold signatures of the validator client side (crates/crypto/src/blst_impl.rs): a key
  is split into shares, each share signs, and enough partial signatures combine to the signature
  of the key. The operations of the curve library on secret keys are further fields of the record
  of the curve library: its checked addition and multiplication report a zero result, and its
  key parser rejects zero. \<open>tbls_ok\<close> states this documented behaviour. The bytes drawn from the
  random number generator are a sequence, and the order in which a hash map is visited is an
  argument.
\<close>

section \<open>The curve library on secret keys\<close>

record ('s, 'p, 'q) tbls = "('s, 'p, 'q) blst" +
  sk_from_bytes :: "nat list \<Rightarrow> 's option"
  sk_to_bytes :: "'s \<Rightarrow> nat list"
  key_gen :: "nat list \<Rightarrow> 's option"
  sk_check :: "'s \<Rightarrow> bool"
  sk_add_n_check :: "'s \<Rightarrow> 's \<Rightarrow> 's option"
  sk_mul_n_check :: "'s \<Rightarrow> 's \<Rightarrow> 's option"
  sk_inverse :: "'s \<Rightarrow> 's"
  aggregate_points :: "'q list \<Rightarrow> 'q option"

definition tbls_ok :: "('s::field, 'p::ab_group_add, 'q::ab_group_add) tbls \<Rightarrow> bool" where
  "tbls_ok T \<longleftrightarrow> module (p1_mult T) \<and> module (p2_mult T)
     \<and> (\<forall>q. p2_uncompress T (p2_compress T q) = Some q)
     \<and> (\<forall>s. s \<noteq> 0 \<longrightarrow> sk_from_bytes T (sk_to_bytes T s) = Some s)
     \<and> (\<forall>bs s. sk_from_bytes T bs = Some s \<longrightarrow> s \<noteq> 0)
     \<and> (\<forall>s. sk_check T s \<longleftrightarrow> s \<noteq> 0)
     \<and> (\<forall>a b. sk_add_n_check T a b = (if a + b = 0 then None else Some (a + b)))
     \<and> (\<forall>a b. sk_mul_n_check T a b = (if a * b = 0 then None else Some (a * b)))
     \<and> (\<forall>a. a \<noteq> 0 \<longrightarrow> sk_inverse T a = inverse a)"

datatype bls_error = KeyGeneration | LibraryError

datatype tbls_error =
    InvalidSecretKey bls_error
  | InvalidPublicKey bls_error
  | InvalidSignature bls_error
  | InvalidThreshold nat nat
  | VerificationFailed bls_error
  | AggregationFailed bls_error
  | EmptySignatureArray
  | DivisionByZero
  | FailedToConvertSkToBlstScalar
  | FailedToAddScalars
  | FailedToMultiplyScalars
  | IndicesNotUnique
  | SharesAreEmpty
  | FailedToConvertScalarToSecretKey
  | IndicesSharesMismatch
  | PolynomialIsEmpty
  | EmptyPublicKeyArray

definition ETH2_DST :: "nat list" where
  "ETH2_DST = map of_char ''BLS_SIG_BLS12381G2_XMD:SHA-256_SSWU_RO_POP_''"

definition IDENTITY_SIGNATURE :: "nat list" where
  "IDENTITY_SIGNATURE = 0xc0 # replicate 95 0"

section \<open>Scalars\<close>

definition scalar_from_u64 :: "nat \<Rightarrow> 's::field" where
  "scalar_from_u64 val = of_nat val"

definition scalar_add :: "('s, 'p, 'q) tbls \<Rightarrow> 's \<Rightarrow> 's \<Rightarrow> tbls_error + 's" where
  "scalar_add T a b = ok_or FailedToAddScalars (sk_add_n_check T a b)"

definition scalar_mult_scalars :: "('s, 'p, 'q) tbls \<Rightarrow> 's \<Rightarrow> 's \<Rightarrow> tbls_error + 's" where
  "scalar_mult_scalars T a b = ok_or FailedToMultiplyScalars (sk_mul_n_check T a b)"

definition scalar_mult_secret :: "('s, 'p, 'q) tbls \<Rightarrow> 's \<Rightarrow> 's \<Rightarrow> tbls_error + 's" where
  "scalar_mult_secret T sk scalar =
     res_bind (scalar_mult_scalars T sk scalar) (\<lambda>r. if sk_check T r then Inr r else Inl FailedToConvertSkToBlstScalar)"

definition scalar_add_secret :: "('s, 'p, 'q) tbls \<Rightarrow> 's \<Rightarrow> 's \<Rightarrow> tbls_error + 's" where
  "scalar_add_secret T sk1 sk2 =
     res_bind (scalar_add T sk1 sk2) (\<lambda>r. if sk_check T r then Inr r else Inl FailedToConvertScalarToSecretKey)"

definition scalar_negate :: "'s::field \<Rightarrow> tbls_error + 's" where
  "scalar_negate a = Inr (0 - a)"

definition scalar_div :: "('s::field, 'p, 'q) tbls \<Rightarrow> 's \<Rightarrow> 's \<Rightarrow> tbls_error + 's" where
  "scalar_div T numerator denominator =
     (if denominator = 0 then Inl DivisionByZero
      else scalar_mult_scalars T numerator (sk_inverse T denominator))"

definition signature_mult :: "('s, 'p, 'q) tbls \<Rightarrow> 'q \<Rightarrow> 's \<Rightarrow> tbls_error + 'q" where
  "signature_mult T sig scalar = Inr (p2_mult T scalar sig)"

section \<open>Polynomials and interpolation\<close>

definition evaluate_step :: "('s::field, 'p, 'q) tbls \<Rightarrow> bool \<Rightarrow> nat \<Rightarrow> 's \<Rightarrow> 's \<times> 's \<Rightarrow> tbls_error + 's \<times> 's" where
  "evaluate_step T again x coeff st =
     res_bind (scalar_mult_secret T coeff (snd st)) (\<lambda>term.
     res_bind (scalar_add_secret T (fst st) term) (\<lambda>res.
       if again then res_bind (scalar_mult_scalars T (snd st) (scalar_from_u64 x)) (\<lambda>x_power. Inr (res, x_power))
       else Inr (res, snd st)))"

definition tbls_evaluate_polynomial :: "('s::field, 'p, 'q) tbls \<Rightarrow> 's list \<Rightarrow> nat \<Rightarrow> tbls_error + 's" where
  "tbls_evaluate_polynomial T poly x =
     (case poly of
        [] \<Rightarrow> Inl PolynomialIsEmpty
      | a0 # rest \<Rightarrow>
          res_bind (res_fold (evaluate_step T (length poly > 2) x) rest (a0, scalar_from_u64 x)) (\<lambda>st. Inr (fst st)))"

definition index_difference :: "nat \<Rightarrow> nat \<Rightarrow> tbls_error + 's::field" where
  "index_difference x_j x_i =
     (if x_j > x_i then Inr (scalar_from_u64 (x_j - x_i)) else scalar_negate (scalar_from_u64 (x_i - x_j)))"

definition coefficient_step :: "('s::field, 'p, 'q) tbls \<Rightarrow> nat list \<Rightarrow> nat \<Rightarrow> nat \<Rightarrow> 's \<times> 's \<Rightarrow> tbls_error + 's \<times> 's" where
  "coefficient_step T indices i j st =
     (if i = j then Inr st
      else
        res_bind (scalar_mult_scalars T (fst st) (scalar_from_u64 (indices ! j))) (\<lambda>numerator.
        res_bind (index_difference (indices ! j) (indices ! i)) (\<lambda>diff.
        res_bind (scalar_mult_scalars T (snd st) diff) (\<lambda>denominator. Inr (numerator, denominator)))))"

definition compute_coefficient :: "('s::field, 'p, 'q) tbls \<Rightarrow> nat list \<Rightarrow> nat \<Rightarrow> tbls_error + 's" where
  "compute_coefficient T indices i =
     res_bind (res_fold (coefficient_step T indices i) [0..<length indices] (scalar_from_u64 1, scalar_from_u64 1))
     (\<lambda>st. scalar_div T (fst st) (snd st))"

definition compute_lagrange_coefficients :: "('s::field, 'p, 'q) tbls \<Rightarrow> nat list \<Rightarrow> tbls_error + 's list" where
  "compute_lagrange_coefficients T indices =
     (if length indices \<noteq> card (set indices) then Inl IndicesNotUnique
      else res_map (compute_coefficient T indices) [0..<length indices])"

definition lagrange_interpolate_secret :: "('s::field, 'p, 'q) tbls \<Rightarrow> nat list \<Rightarrow> 's list \<Rightarrow> tbls_error + 's" where
  "lagrange_interpolate_secret T indices shares =
     (if length indices \<noteq> length shares \<or> indices = [] then Inl IndicesSharesMismatch
      else res_bind (compute_lagrange_coefficients T indices) (\<lambda>coeffs.
        res_fold (\<lambda>i res. res_bind (scalar_mult_secret T (shares ! i) (coeffs ! i)) (\<lambda>term. scalar_add_secret T res term))
          [0..<length shares] 0))"

definition lagrange_interpolate_signature :: "('s::field, 'p, 'q::ab_group_add) tbls \<Rightarrow> nat list \<Rightarrow> 'q list \<Rightarrow> tbls_error + 'q" where
  "lagrange_interpolate_signature T indices signatures =
     (if length indices \<noteq> length signatures \<or> indices = [] then Inl EmptySignatureArray
      else res_bind (compute_lagrange_coefficients T indices) (\<lambda>coeffs.
        res_bind (signature_mult T (signatures ! 0) (coeffs ! 0)) (\<lambda>first.
          res_fold (\<lambda>i res. res_bind (signature_mult T (signatures ! i) (coeffs ! i)) (\<lambda>scaled. Inr (res + scaled)))
            [1..<length signatures] first)))"

section \<open>Operations\<close>

definition parse_sk :: "('s, 'p, 'q) tbls \<Rightarrow> nat list \<Rightarrow> tbls_error + 's" where
  "parse_sk T bytes = ok_or (InvalidSecretKey LibraryError) (sk_from_bytes T bytes)"

definition parse_sig :: "('s, 'p, 'q) tbls \<Rightarrow> nat list \<Rightarrow> tbls_error + 'q" where
  "parse_sig T bytes = ok_or (InvalidSignature LibraryError) (p2_uncompress T bytes)"

definition parse_pk :: "('s, 'p, 'q) tbls \<Rightarrow> nat list \<Rightarrow> tbls_error + 'p" where
  "parse_pk T bytes = ok_or (InvalidPublicKey LibraryError) (p1_uncompress T bytes)"

definition generate_secret_key :: "('s, 'p, 'q) tbls \<Rightarrow> (nat \<Rightarrow> nat list) \<Rightarrow> tbls_error + nat list" where
  "generate_secret_key T rng = res_bind (ok_or (InvalidSecretKey KeyGeneration) (key_gen T (rng 0))) (\<lambda>sk. Inr (sk_to_bytes T sk))"

definition generate_insecure_secret :: "('s, 'p, 'q) tbls \<Rightarrow> (nat \<Rightarrow> nat list) \<Rightarrow> tbls_error + nat list" where
  "generate_insecure_secret T rng =
     (case find (\<lambda>n. sk_from_bytes T (rng n) \<noteq> None) [0..<100] of
        Some n \<Rightarrow> Inr (rng n)
      | None \<Rightarrow> Inl (InvalidSecretKey KeyGeneration))"

definition secret_to_public_key :: "('s, 'p, 'q) tbls \<Rightarrow> nat list \<Rightarrow> tbls_error + nat list" where
  "secret_to_public_key T secret_key =
     res_bind (parse_sk T secret_key) (\<lambda>sk. Inr (p1_affine_compress T (p1_mult T sk (p1_generator T))))"

definition threshold_split_insecure ::
  "('s::field, 'p, 'q) tbls \<Rightarrow> nat list \<Rightarrow> nat \<Rightarrow> nat \<Rightarrow> (nat \<Rightarrow> nat list) \<Rightarrow> tbls_error + (nat \<times> nat list) list" where
  "threshold_split_insecure T secret_key n_total threshold rng =
     (if threshold \<le> 1 \<or> threshold > n_total then Inl (InvalidThreshold threshold n_total)
      else
        res_bind (parse_sk T secret_key) (\<lambda>sk.
        res_bind (res_map (\<lambda>n. ok_or (InvalidSecretKey KeyGeneration) (key_gen T (rng n))) [1..<threshold]) (\<lambda>coeffs.
          res_map (\<lambda>i. res_bind (tbls_evaluate_polynomial T (sk # coeffs) i) (\<lambda>share. Inr (i, sk_to_bytes T share))) [1..<n_total + 1])))"

definition threshold_split ::
  "('s::field, 'p, 'q) tbls \<Rightarrow> nat list \<Rightarrow> nat \<Rightarrow> nat \<Rightarrow> (nat \<Rightarrow> nat list) \<Rightarrow> tbls_error + (nat \<times> nat list) list" where
  "threshold_split T secret_key n_total threshold os_rng = threshold_split_insecure T secret_key n_total threshold os_rng"

definition recover_secret :: "('s::field, 'p, 'q) tbls \<Rightarrow> hash_order \<Rightarrow> (nat \<times> nat list) list \<Rightarrow> tbls_error + nat list" where
  "recover_secret T ord shares =
     (if shares = [] then Inl SharesAreEmpty
      else
        let visited = hash_iter (ord 0) shares
        in res_bind (res_map (\<lambda>e. parse_sk T (snd e)) visited) (\<lambda>share_secrets.
           res_bind (lagrange_interpolate_secret T (map fst visited) share_secrets) (\<lambda>recovered. Inr (sk_to_bytes T recovered))))"

definition tbls_aggregate :: "('s, 'p, 'q) tbls \<Rightarrow> nat list list \<Rightarrow> tbls_error + nat list" where
  "tbls_aggregate T signatures =
     (if signatures = [] then Inr IDENTITY_SIGNATURE
      else
        res_bind (res_map (parse_sig T) signatures) (\<lambda>sigs.
        res_bind (ok_or (AggregationFailed LibraryError) (aggregate_points T sigs)) (\<lambda>agg. Inr (p2_compress T agg))))"

definition threshold_aggregate :: "('s::field, 'p, 'q::ab_group_add) tbls \<Rightarrow> hash_order \<Rightarrow> (nat \<times> nat list) list \<Rightarrow> tbls_error + nat list" where
  "threshold_aggregate T ord partial_signatures_by_idx =
     (if partial_signatures_by_idx = [] then Inl EmptySignatureArray
      else
        let visited = hash_iter (ord 0) partial_signatures_by_idx
        in res_bind (res_map (\<lambda>e. parse_sig T (snd e)) visited) (\<lambda>signatures.
           res_bind (lagrange_interpolate_signature T (map fst visited) signatures) (\<lambda>recovered_sig. Inr (p2_compress T recovered_sig))))"

definition tbls_verify :: "('s, 'p, 'q) tbls \<Rightarrow> nat list \<Rightarrow> nat list \<Rightarrow> nat list \<Rightarrow> tbls_error + unit" where
  "tbls_verify T public_key data raw_signature =
     res_bind (parse_pk T public_key) (\<lambda>pk.
     res_bind (parse_sig T raw_signature) (\<lambda>sig.
       if pairing_verify T pk sig data ETH2_DST then Inr () else Inl (VerificationFailed LibraryError)))"

definition tbls_sign :: "('s, 'p, 'q) tbls \<Rightarrow> nat list \<Rightarrow> nat list \<Rightarrow> tbls_error + nat list" where
  "tbls_sign T private_key data =
     res_bind (parse_sk T private_key) (\<lambda>sk. Inr (p2_compress T (p2_mult T sk (hash_to_p2 T data ETH2_DST))))"

definition aggregate_public_keys :: "'p::ab_group_add list \<Rightarrow> tbls_error + 'p" where
  "aggregate_public_keys pks =
     (case pks of [] \<Rightarrow> Inl EmptyPublicKeyArray | pk # rest \<Rightarrow> Inr (fold (\<lambda>p agg. agg + p) rest pk))"

definition verify_aggregate :: "('s, 'p::ab_group_add, 'q) tbls \<Rightarrow> nat list list \<Rightarrow> nat list \<Rightarrow> nat list \<Rightarrow> tbls_error + unit" where
  "verify_aggregate T public_keys sig data =
     (if public_keys = [] then Inl EmptyPublicKeyArray
      else
        res_bind (res_map (parse_pk T) public_keys) (\<lambda>pks.
        res_bind (parse_sig T sig) (\<lambda>s.
        res_bind (aggregate_public_keys pks) (\<lambda>agg_pk.
          if pairing_verify T agg_pk s data ETH2_DST then Inr () else Inl (VerificationFailed LibraryError)))))"
section \<open>The arithmetic of the code\<close>

lemma scalar_ops:
  assumes "tbls_ok T"
  shows "scalar_mult_scalars T a b = (if a * b = 0 then Inl FailedToMultiplyScalars else Inr (a * b))"
    "scalar_mult_secret T a b = (if a * b = 0 then Inl FailedToMultiplyScalars else Inr (a * b))"
    "scalar_add_secret T a b = (if a + b = 0 then Inl FailedToAddScalars else Inr (a + b))"
  using assms by (simp_all add: tbls_ok_def scalar_mult_scalars_def scalar_mult_secret_def scalar_add_def scalar_add_secret_def)

lemma index_difference_eq: "index_difference x_j x_i = Inr (of_nat x_j - of_nat x_i)"
  by (simp add: index_difference_def scalar_negate_def scalar_from_u64_def of_nat_diff)

lemma sk_roundtrip: "tbls_ok T \<Longrightarrow> s \<noteq> 0 \<Longrightarrow> parse_sk T (sk_to_bytes T s) = Inr s"
  unfolding tbls_ok_def parse_sk_def by simp

lemma sig_roundtrip: "tbls_ok T \<Longrightarrow> parse_sig T (p2_compress T q) = Inr q"
  unfolding tbls_ok_def parse_sig_def by simp

text \<open>A polynomial that evaluates does so to its value, which is not zero.\<close>

lemma evaluate_step_Inr:
  assumes "tbls_ok T" "evaluate_step T again x c st = Inr st'"
  shows "fst st' = fst st + c * snd st" "fst st' \<noteq> 0" "again \<Longrightarrow> snd st' = snd st * of_nat x"
  using assms by (auto simp: evaluate_step_def scalar_ops [OF assms(1)] scalar_from_u64_def split: if_splits)

lemma evaluate_loop:
  assumes "tbls_ok T" "again \<or> length cs \<le> 1" "res_fold (evaluate_step T again x) cs st = Inr st'"
  shows "fst st' = fst st + snd st * poly_eval cs (of_nat x) \<and> (cs \<noteq> [] \<longrightarrow> fst st' \<noteq> 0)"
  using assms(2,3)
proof (induction cs arbitrary: st)
  case (Cons c cs)
  then obtain st1 where st1: "evaluate_step T again x c st = Inr st1" "res_fold (evaluate_step T again x) cs st1 = Inr st'" by auto
  note step = evaluate_step_Inr [OF assms(1) st1(1)]
  show ?case
  proof (cases again)
    case True
    then show ?thesis using Cons.IH [OF _ st1(2)] step st1(2) by (cases "cs = []") (auto simp: algebra_simps)
  next
    case False
    then have "cs = []" using Cons.prems(1) by simp
    then show ?thesis using step(1,2) st1(2) by (simp add: mult.commute)
  qed
qed simp

lemma evaluate_polynomial_Inr:
  assumes "tbls_ok T" "tbls_evaluate_polynomial T (a # cs) x = Inr s" "cs \<noteq> []"
  shows "s = poly_eval (a # cs) (of_nat x) \<and> s \<noteq> 0"
proof -
  obtain st where st: "res_fold (evaluate_step T (length (a # cs) > 2) x) cs (a, of_nat x) = Inr st" "s = fst st"
    using assms(2) by (auto simp: tbls_evaluate_polynomial_def scalar_from_u64_def)
  have "length (a # cs) > 2 \<or> length cs \<le> 1" by simp linarith
  from evaluate_loop [OF assms(1) this st(1)] show ?thesis using assms(3) by (auto simp: st(2))
qed

lemma coefficient_loop:
  fixes T :: "('s::field, 'p::ab_group_add, 'q::ab_group_add) tbls"
  assumes "tbls_ok T" "\<forall>j \<in> set js. j \<noteq> i \<longrightarrow> (of_nat (xs ! j) :: 's) \<noteq> 0 \<and> (of_nat (xs ! j) :: 's) \<noteq> of_nat (xs ! i)"
    "fst st \<noteq> 0" "snd st \<noteq> 0"
  shows "\<exists>st'. res_fold (coefficient_step T xs i) js st = Inr st' \<and> fst st' \<noteq> 0 \<and> snd st' \<noteq> 0
     \<and> fst st' / snd st' = fst st / snd st * (\<Prod>j \<leftarrow> filter (\<lambda>j. j \<noteq> i) js. of_nat (xs ! j) / (of_nat (xs ! j) - (of_nat (xs ! i) :: 's)))"
  using assms(2-)
proof (induction js arbitrary: st)
  case (Cons j js)
  show ?case
  proof (cases "i = j")
    case False
    let ?n = "of_nat (xs ! j) :: 's" and ?d = "of_nat (xs ! j) - of_nat (xs ! i) :: 's"
    let ?st = "(fst st * ?n, snd st * ?d)"
    have nz: "?n \<noteq> 0" "?d \<noteq> 0" using Cons.prems(1) False by auto
    then have "coefficient_step T xs i j st = Inr ?st"
      using False Cons.prems(2,3) by (simp add: coefficient_step_def scalar_ops(1) [OF assms(1)] scalar_from_u64_def index_difference_eq)
    then show ?thesis using False nz Cons.IH [of ?st] Cons.prems by (simp add: mult.assoc)
  qed (use Cons in \<open>simp add: coefficient_step_def\<close>)
qed simp

lemma coefficients_eq:
  fixes T :: "('s::field, 'p::ab_group_add, 'q::ab_group_add) tbls"
  assumes "tbls_ok T" "distinct xs" "inj_on (of_nat :: nat \<Rightarrow> 's) (insert 0 (set xs))" "0 \<notin> set xs"
  shows "compute_lagrange_coefficients T xs = Inr (map (lagrange (of_nat ` set xs :: 's set)) (map of_nat xs))"
proof -
  let ?ys = "map of_nat xs :: 's list"
  have dist: "distinct ?ys" using assms(2,3) by (simp add: distinct_map inj_on_subset [OF assms(3) subset_insertI])
  have nz: "of_nat x \<noteq> (0::'s)" if "x \<in> set xs" for x
    using assms(3,4) that inj_onD [OF assms(3), of x 0] by auto
  have "compute_coefficient T xs i = Inr (lagrange (set ?ys) (?ys ! i))" if i: "i < length xs" for i
  proof -
    have "\<forall>j \<in> set [0..<length xs]. j \<noteq> i \<longrightarrow> (of_nat (xs ! j) :: 's) \<noteq> 0 \<and> (of_nat (xs ! j) :: 's) \<noteq> of_nat (xs ! i)"
      using dist i nz by (auto simp: distinct_conv_nth)
    from coefficient_loop [OF assms(1) this, of "(1, 1)"] obtain n d where nd: "n \<noteq> 0" "d \<noteq> 0"
      "compute_coefficient T xs i = scalar_div T n d"
      "n / d = (\<Prod>j \<leftarrow> filter (\<lambda>j. j \<noteq> i) [0..<length xs]. of_nat (xs ! j) / (of_nat (xs ! j) - (of_nat (xs ! i) :: 's)))"
      by (auto simp: compute_coefficient_def scalar_from_u64_def)
    have "sk_inverse T d = inverse d" using assms(1) nd(2) by (simp add: tbls_ok_def)
    then have "compute_coefficient T xs i = Inr (n / d)"
      using nd(1-3) by (simp add: scalar_div_def scalar_ops(1) [OF assms(1)] divide_inverse)
    moreover have "map (\<lambda>j. of_nat (xs ! j) / (of_nat (xs ! j) - (of_nat (xs ! i) :: 's))) (filter (\<lambda>j. j \<noteq> i) [0..<length xs])
        = map (\<lambda>j. ?ys ! j / (?ys ! j - ?ys ! i)) (filter (\<lambda>j. j \<noteq> i) [0..<length ?ys])" using i by simp
    ultimately show ?thesis using lagrange_positions [OF dist, of i] i nd(4) by (simp only: length_map)
  qed
  then have "res_map (compute_coefficient T xs) [0..<length xs] = Inr (map (\<lambda>i. lagrange (set ?ys) (?ys ! i)) [0..<length xs])"
    by (intro res_map_total) simp
  also have "map (\<lambda>i. lagrange (set ?ys) (?ys ! i)) [0..<length xs] = map (lagrange (set ?ys)) ?ys"
    by (intro nth_equalityI) simp_all
  finally show ?thesis using assms(2) by (simp add: compute_lagrange_coefficients_def distinct_card)
qed
lemma interpolate_signature_eq:
  fixes T :: "('s::field, 'p::ab_group_add, 'q::ab_group_add) tbls"
  assumes "tbls_ok T" "distinct xs" "inj_on (of_nat :: nat \<Rightarrow> 's) (insert 0 (set xs))" "0 \<notin> set xs" "xs \<noteq> []" "length cs \<le> length xs"
  shows "lagrange_interpolate_signature T xs (map (\<lambda>x. p2_mult T (poly_eval cs (of_nat x)) h) xs) = Inr (p2_mult T (poly_eval cs 0) h)"
proof -
  let ?ys = "map of_nat xs :: 's list" and ?sigs = "map (\<lambda>x. p2_mult T (poly_eval cs (of_nat x)) h) xs"
  let ?f = "\<lambda>i. p2_mult T (lagrange (set ?ys) (?ys ! i)) (p2_mult T (poly_eval cs (?ys ! i)) h)"
  have m: "module (p2_mult T)" using assms(1) by (simp add: tbls_ok_def)
  have dist: "distinct ?ys" using assms(2,3) by (simp add: distinct_map inj_on_subset [OF assms(3) subset_insertI])
  have fold: "fold (\<lambda>i r. r + ?f i) is r = r + (\<Sum>i \<leftarrow> is. ?f i)" for "is" r
    by (induction "is" arbitrary: r) (simp_all add: add.assoc)
  have "res_fold (\<lambda>i res. res_bind (signature_mult T (?sigs ! i) (map (lagrange (set ?ys)) ?ys ! i)) (\<lambda>scaled. Inr (res + scaled))) [1..<length xs] (?f 0)
      = Inr (fold (\<lambda>i r. r + ?f i) [1..<length xs] (?f 0))"
    by (rule res_fold_total) (simp add: signature_mult_def)
  also have "\<dots> = Inr (\<Sum>i \<leftarrow> [0..<length xs]. ?f i)"
    using assms(5) by (simp only: fold) (cases xs, simp_all add: upt_conv_Cons del: upt_Suc)
  also have "map ?f [0..<length xs] = map (\<lambda>y. p2_mult T (lagrange (set ?ys) y) (p2_mult T (poly_eval cs y) h)) ?ys"
    by (intro nth_equalityI) simp_all
  also have "sum_list \<dots> = p2_mult T (poly_eval cs 0) h" using interpolation_group [OF m dist, of cs h] assms(5,6) by simp
  finally show ?thesis
    using coefficients_eq [OF assms(1-4)] assms(5) by (simp add: lagrange_interpolate_signature_def signature_mult_def)
qed

lemma res_map_Inr_nth: "res_map f xs = Inr ys \<Longrightarrow> length ys = length xs \<and> (\<forall>i < length xs. f (xs ! i) = Inr (ys ! i))"
  by (simp add: res_map_Inr list_all2_conv_all_nth)

text \<open>The shares of a split are the values of one polynomial whose value at zero is the key.\<close>

lemma split_shares:
  assumes "tbls_ok T" "threshold_split_insecure T sk n_total t rng = Inr shares"
  shows "\<exists>s cs. sk_from_bytes T sk = Some s \<and> length cs + 1 = t
    \<and> (\<forall>i b. (i, b) \<in> set shares \<longrightarrow> i \<in> {1..n_total} \<and> b = sk_to_bytes T (poly_eval (s # cs) (of_nat i)) \<and> poly_eval (s # cs) (of_nat i) \<noteq> 0)"
proof -
  obtain s cs where s: "sk_from_bytes T sk = Some s" "1 < t"
    "res_map (\<lambda>n. ok_or (InvalidSecretKey KeyGeneration) (key_gen T (rng n))) [1..<t] = Inr cs"
    "res_map (\<lambda>i. res_bind (tbls_evaluate_polynomial T (s # cs) i) (\<lambda>share. Inr (i, sk_to_bytes T share))) [1..<n_total + 1] = Inr shares"
    using assms(2) by (auto simp: threshold_split_insecure_def parse_sk_def split: if_splits)
  have len: "length cs + 1 = t" using res_map_Inr_nth [OF s(3)] s(2) by simp
  then have ne: "cs \<noteq> []" using s(2) by auto
  have "i \<in> {1..n_total} \<and> b = sk_to_bytes T (poly_eval (s # cs) (of_nat i)) \<and> poly_eval (s # cs) (of_nat i) \<noteq> 0" if "(i, b) \<in> set shares" for i b
  proof -
    obtain k where k: "k < length shares" "shares ! k = (i, b)" using \<open>(i, b) \<in> set shares\<close> by (auto simp: in_set_conv_nth)
    have len: "length shares = n_total" and nth: "\<forall>k < n_total. \<exists>v. tbls_evaluate_polynomial T (s # cs) (Suc k) = Inr v \<and> (Suc k, sk_to_bytes T v) = shares ! k"
      using res_map_Inr_nth [OF s(4)] by (simp_all del: upt_Suc)
    then obtain v where "tbls_evaluate_polynomial T (s # cs) (Suc k) = Inr v" "i = Suc k" "b = sk_to_bytes T v" "i \<in> {1..n_total}"
      using k by force
    then show ?thesis using evaluate_polynomial_Inr [OF assms(1) _ ne] by blast
  qed
  then show ?thesis using s(1) len by blast
qed

lemma split_signs:
  assumes "threshold_split_insecure T sk n_total t rng = Inr shares" shows "\<exists>sig. tbls_sign T sk msg = Inr sig"
  using assms by (auto simp: threshold_split_insecure_def tbls_sign_def split: if_splits)

lemma threshold_aggregate_split:
  fixes T :: "('s::field, 'p::ab_group_add, 'q::ab_group_add) tbls"
  assumes "tbls_ok T" "inj_on (of_nat :: nat \<Rightarrow> 's) {0..n_total}"
    "threshold_split_insecure T sk n_total t rng = Inr shares" "distinct (map fst parts)" "t \<le> length parts"
    "\<forall>(i, sig) \<in> set parts. \<exists>share. (i, share) \<in> set shares \<and> tbls_sign T share msg = Inr sig"
  shows "threshold_aggregate T ord parts = tbls_sign T sk msg"
proof -
  let ?h = "hash_to_p2 T msg ETH2_DST" and ?vis = "hash_iter (ord 0) parts"
  obtain s cs where s: "sk_from_bytes T sk = Some s" "length cs + 1 = t"
    and all: "\<forall>i b. (i, b) \<in> set shares \<longrightarrow> i \<in> {1..n_total} \<and> b = sk_to_bytes T (poly_eval (s # cs) (of_nat i)) \<and> poly_eval (s # cs) (of_nat i) \<noteq> 0"
    using split_shares [OF assms(1,3)] by (elim exE conjE) (erule (2) that)
  have part: "i \<in> {1..n_total} \<and> sig = p2_compress T (p2_mult T (poly_eval (s # cs) (of_nat i)) ?h)" if mem: "(i, sig) \<in> set parts" for i sig
  proof -
    obtain b where b: "(i, b) \<in> set shares" "tbls_sign T b msg = Inr sig" using bspec [OF assms(6) mem] by auto
    from all b(1) have "i \<in> {1..n_total}" "b = sk_to_bytes T (poly_eval (s # cs) (of_nat i))" "poly_eval (s # cs) (of_nat i) \<noteq> 0" by blast+
    then have "parse_sk T b = Inr (poly_eval (s # cs) (of_nat i))" using sk_roundtrip [OF assms(1)] by (simp del: poly_eval_simps)
    then show ?thesis using \<open>i \<in> {1..n_total}\<close> b(2) by (simp add: tbls_sign_def del: poly_eval_simps)
  qed
  have "res_map (\<lambda>e. parse_sig T (snd e)) ?vis = Inr (map (\<lambda>e. p2_mult T (poly_eval (s # cs) (of_nat (fst e))) ?h) ?vis)"
  proof (rule res_map_total)
    fix e assume "e \<in> set ?vis"
    then have "snd e = p2_compress T (p2_mult T (poly_eval (s # cs) (of_nat (fst e))) ?h)" using part [of "fst e" "snd e"] by simp
    then show "parse_sig T (snd e) = Inr (p2_mult T (poly_eval (s # cs) (of_nat (fst e))) ?h)"
      using sig_roundtrip [OF assms(1)] by (simp del: poly_eval_simps)
  qed
  moreover have "lagrange_interpolate_signature T (map fst ?vis) (map (\<lambda>x. p2_mult T (poly_eval (s # cs) (of_nat x)) ?h) (map fst ?vis))
      = Inr (p2_mult T (poly_eval (s # cs) 0) ?h)"
  proof (rule interpolate_signature_eq [OF assms(1)])
    have "insert 0 (set (map fst ?vis)) \<subseteq> {0..n_total}" using part by force
    then show "inj_on (of_nat :: nat \<Rightarrow> 's) (insert 0 (set (map fst ?vis)))" by (rule inj_on_subset [OF assms(2)])
    show "0 \<notin> set (map fst ?vis)" using part by force
  qed (use assms(4,5) s(2) in auto)
  ultimately show ?thesis
    using assms(5) s by (auto simp: threshold_aggregate_def tbls_sign_def parse_sk_def comp_def)
qed

text \<open>
  C37. Splitting a key and signing with its shares is signing with the key: when the partial
  signatures of any set of shares at least as large as the threshold are combined, the result is
  the signature of the key that was split, whichever shares take part and in whatever order the
  hash map presents them.
\<close>

theorem tbls_threshold_signature:
  fixes T :: "('s::field, 'p::ab_group_add, 'q::ab_group_add) tbls"
  assumes "tbls_ok T" "inj_on (of_nat :: nat \<Rightarrow> 's) {0..n_total}"
    "threshold_split_insecure T sk n_total t rng = Inr shares" "distinct (map fst parts)" "t \<le> length parts"
    "\<forall>(i, sig) \<in> set parts. \<exists>share. (i, share) \<in> set shares \<and> tbls_sign T share msg = Inr sig"
  shows "threshold_aggregate T ord parts = tbls_sign T sk msg"
  using assms by (rule threshold_aggregate_split)

definition sample_tbls :: "(gf5, gf5, gf5) tbls" where
  "sample_tbls = blst.extend sample_blst
     \<lparr>sk_from_bytes = (\<lambda>bs. let s = gf5_of (sum_list bs) in if s = F0 then None else Some s), sk_to_bytes = (\<lambda>s. [gf5_nat s]),
      key_gen = (\<lambda>bs. Some F1), sk_check = (\<lambda>s. s \<noteq> F0),
      sk_add_n_check = (\<lambda>a b. if a + b = F0 then None else Some (a + b)), sk_mul_n_check = (\<lambda>a b. if a * b = F0 then None else Some (a * b)),
      sk_inverse = inverse, aggregate_points = (\<lambda>qs. Some (sum_list qs))\<rparr>"

lemma sample_tbls_ok: "tbls_ok sample_tbls"
  by (auto simp: tbls_ok_def Let_def sample_tbls_def sample_blst_def blst.defs tbls.defs module_times zero_gf5_def split: if_splits)

lemma sample_split: "threshold_split_insecure sample_tbls [1] 3 2 (\<lambda>n. []) = Inr [(1, [2]), (2, [3]), (3, [4])]"
  by code_simp

lemma gf5_inj: "inj_on (of_nat :: nat \<Rightarrow> gf5) {0..3}"
proof -
  have "{0..3} = {0, 1, 2, 3::nat}" by auto
  then show ?thesis by (simp add: gf5_numerals) (simp add: gf5_defs)
qed

theorem tbls_threshold_signature_witness:
  "threshold_split_insecure sample_tbls [1] 3 2 (\<lambda>n. []) = Inr [(1, [2]), (2, [3]), (3, [4])]
    \<and> threshold_aggregate sample_tbls in_order [(3, [2]), (1, [1])] = tbls_sign sample_tbls [1] [7]"
proof -
  have sign: "tbls_sign sample_tbls [4] [7] = Inr [2]" "tbls_sign sample_tbls [2] [7] = Inr [1]" by code_simp+
  show ?thesis
    using tbls_threshold_signature [OF sample_tbls_ok gf5_inj sample_split, of "[(3, [2]), (1, [1])]" "[7]" in_order] sign sample_split by simp
qed

end
