(* ===== verification/Signed_Data.thy ===== *)
theory Signed_Data
  imports Duty_Types
begin

text \<open>
  Signed duty data (crates/core/src/signeddata.rs): the implementations of the trait with a
  signature, its replacement and the root of the signed message. The part of a payload that is
  signed over is one value of a type parameter, its tree-hash root an argument. The wrappers
  whose payload is a plain message with a signature (attestation, voluntary exit, randao reveal,
  the two committee selections, aggregate and proof, sync message, contribution and proof and
  its signed form) have the same three bodies and share a constructor.
\<close>

datatype data_version = VUnknown | VPhase0 | VAltair | VBellatrix | VCapella | VDeneb | VElectra | VFulu

datatype builder_version = BUnknown | V1

datatype signed_data_error =
    UnsupportedSignatureMessageRoot
  | MissingV1Registration
  | UnknownVersion
  | MissingAttestation data_version

section \<open>Payloads\<close>

record 'm signed_message =
  sm_message :: 'm
  sm_signature :: "nat list"

record 'm versioned_message =
  vm_version :: data_version
  vm_payload :: "'m signed_message"

record 'm versioned_attestation =
  va_version :: data_version
  va_validator_index :: "nat option"
  va_attestation :: "'m signed_message option"

record 'm versioned_registration =
  vr_version :: builder_version
  vr_v1 :: "'m signed_message option"

datatype 'm signed_data =
    RawSignature "nat list"
  | SignedProposal "'m versioned_message"
  | VersionedAttestation "'m versioned_attestation"
  | ValidatorRegistration "'m versioned_registration"
  | VersionedAggregateAndProof "'m versioned_message"
  | PlainSigned "'m signed_message"

definition set_message_signature :: "nat list \<Rightarrow> 'm signed_message \<Rightarrow> 'm signed_message" where
  "set_message_signature sig m = m\<lparr>sm_signature := sig\<rparr>"

section \<open>The trait\<close>

definition proposal_signature :: "'m versioned_message \<Rightarrow> signed_data_error + nat list" where
  "proposal_signature p = (if vm_version p = VUnknown then Inl UnknownVersion else Inr (sm_signature (vm_payload p)))"

definition proposal_set_signature :: "nat list \<Rightarrow> 'm versioned_message \<Rightarrow> signed_data_error + 'm versioned_message" where
  "proposal_set_signature sig p =
     (if vm_version p = VUnknown then Inl UnknownVersion else Inr (p\<lparr>vm_payload := set_message_signature sig (vm_payload p)\<rparr>))"

definition proposal_message_root :: "('m \<Rightarrow> nat list) \<Rightarrow> 'm versioned_message \<Rightarrow> signed_data_error + nat list" where
  "proposal_message_root root p = (if vm_version p = VUnknown then Inl UnknownVersion else Inr (root (sm_message (vm_payload p))))"

definition attestation_signature :: "'m versioned_attestation \<Rightarrow> signed_data_error + nat list" where
  "attestation_signature a =
     (if va_version a = VUnknown then Inl UnknownVersion
      else ok_or (MissingAttestation (va_version a)) (map_option sm_signature (va_attestation a)))"

definition attestation_set_signature :: "nat list \<Rightarrow> 'm versioned_attestation \<Rightarrow> signed_data_error + 'm versioned_attestation" where
  "attestation_set_signature sig a =
     (if va_version a = VUnknown then Inl UnknownVersion
      else res_bind (ok_or (MissingAttestation (va_version a)) (va_attestation a)) (\<lambda>m.
        Inr (a\<lparr>va_attestation := Some (set_message_signature sig m)\<rparr>)))"

definition attestation_message_root :: "('m \<Rightarrow> nat list) \<Rightarrow> 'm versioned_attestation \<Rightarrow> signed_data_error + nat list" where
  "attestation_message_root root a =
     (if va_version a = VUnknown then Inl UnknownVersion
      else ok_or (MissingAttestation (va_version a)) (map_option (\<lambda>m. root (sm_message m)) (va_attestation a)))"

definition registration_signature :: "'m versioned_registration \<Rightarrow> signed_data_error + nat list" where
  "registration_signature r =
     (case vr_version r of
        V1 \<Rightarrow> ok_or MissingV1Registration (map_option sm_signature (vr_v1 r))
      | BUnknown \<Rightarrow> Inl UnknownVersion)"

definition registration_set_signature :: "nat list \<Rightarrow> 'm versioned_registration \<Rightarrow> signed_data_error + 'm versioned_registration" where
  "registration_set_signature sig r =
     (case vr_version r of
        V1 \<Rightarrow> (case vr_v1 r of None \<Rightarrow> Inl MissingV1Registration | Some v1 \<Rightarrow> Inr (r\<lparr>vr_v1 := Some (set_message_signature sig v1)\<rparr>))
      | BUnknown \<Rightarrow> Inl UnknownVersion)"

definition registration_message_root :: "('m \<Rightarrow> nat list) \<Rightarrow> 'm versioned_registration \<Rightarrow> signed_data_error + nat list" where
  "registration_message_root root r =
     (case vr_version r of
        V1 \<Rightarrow> ok_or MissingV1Registration (map_option (\<lambda>m. root (sm_message m)) (vr_v1 r))
      | BUnknown \<Rightarrow> Inl UnknownVersion)"

definition aggregate_signature :: "'m versioned_message \<Rightarrow> signed_data_error + nat list" where
  "aggregate_signature a = (if vm_version a = VUnknown then Inl UnknownVersion else Inr (sm_signature (vm_payload a)))"

definition aggregate_set_signature :: "nat list \<Rightarrow> 'm versioned_message \<Rightarrow> signed_data_error + 'm versioned_message" where
  "aggregate_set_signature sig a =
     (if vm_version a = VUnknown then Inl UnknownVersion else Inr (a\<lparr>vm_payload := set_message_signature sig (vm_payload a)\<rparr>))"

definition aggregate_message_root :: "('m \<Rightarrow> nat list) \<Rightarrow> 'm versioned_message \<Rightarrow> signed_data_error + nat list" where
  "aggregate_message_root root a = (if vm_version a = VUnknown then Inl UnknownVersion else Inr (root (sm_message (vm_payload a))))"

text \<open>The dynamic dispatch of the trait object.\<close>

fun sd_signature :: "'m signed_data \<Rightarrow> signed_data_error + nat list" where
  "sd_signature (RawSignature s) = Inr s"
| "sd_signature (SignedProposal p) = proposal_signature p"
| "sd_signature (VersionedAttestation a) = attestation_signature a"
| "sd_signature (ValidatorRegistration r) = registration_signature r"
| "sd_signature (VersionedAggregateAndProof a) = aggregate_signature a"
| "sd_signature (PlainSigned m) = Inr (sm_signature m)"

fun sd_set_signature :: "nat list \<Rightarrow> 'm signed_data \<Rightarrow> signed_data_error + 'm signed_data" where
  "sd_set_signature sig (RawSignature s) = Inr (RawSignature sig)"
| "sd_set_signature sig (SignedProposal p) = map_sum id SignedProposal (proposal_set_signature sig p)"
| "sd_set_signature sig (VersionedAttestation a) = map_sum id VersionedAttestation (attestation_set_signature sig a)"
| "sd_set_signature sig (ValidatorRegistration r) = map_sum id ValidatorRegistration (registration_set_signature sig r)"
| "sd_set_signature sig (VersionedAggregateAndProof a) = map_sum id VersionedAggregateAndProof (aggregate_set_signature sig a)"
| "sd_set_signature sig (PlainSigned m) = Inr (PlainSigned (set_message_signature sig m))"

fun sd_message_root :: "('m \<Rightarrow> nat list) \<Rightarrow> 'm signed_data \<Rightarrow> signed_data_error + nat list" where
  "sd_message_root root (RawSignature s) = Inl UnsupportedSignatureMessageRoot"
| "sd_message_root root (SignedProposal p) = proposal_message_root root p"
| "sd_message_root root (VersionedAttestation a) = attestation_message_root root a"
| "sd_message_root root (ValidatorRegistration r) = registration_message_root root r"
| "sd_message_root root (VersionedAggregateAndProof a) = aggregate_message_root root a"
| "sd_message_root root (PlainSigned m) = Inr (root (sm_message m))"

text \<open>The contract of the trait that the aggregator relies on.\<close>

locale signed_payload =
  fixes signature :: "'d \<Rightarrow> 'e + nat list" and set_signature :: "nat list \<Rightarrow> 'd \<Rightarrow> 'e + 'd" and message_root :: "'d \<Rightarrow> 'e + nat list"
  assumes set_get: "set_signature sig d = Inr d' \<Longrightarrow> signature d' = Inr sig"
    and set_root: "set_signature sig d = Inr d' \<Longrightarrow> message_root d' = message_root d"
    and set_total: "signature d = Inr s \<Longrightarrow> \<exists>d'. set_signature sig d = Inr d'"
begin

lemma replace_signature: "signature d = Inr s \<Longrightarrow> \<exists>d'. set_signature sig d = Inr d' \<and> signature d' = Inr sig \<and> message_root d' = message_root d"
  using set_total set_get set_root by metis

end

lemmas signed_data_defs =
  set_message_signature_def proposal_signature_def proposal_set_signature_def proposal_message_root_def attestation_signature_def
  attestation_set_signature_def attestation_message_root_def registration_signature_def registration_set_signature_def
  registration_message_root_def aggregate_signature_def aggregate_set_signature_def aggregate_message_root_def

lemma map_sum_Inr [simp]: "map_sum f g r = Inr y \<longleftrightarrow> (\<exists>x. r = Inr x \<and> y = g x)"
  by (cases r) auto

interpretation sd: signed_payload sd_signature sd_set_signature "sd_message_root root"
proof unfold_locales
  fix sig :: "nat list" and d d' :: "'a signed_data"
  show "sd_set_signature sig d = Inr d' \<Longrightarrow> sd_signature d' = Inr sig"
    by (cases d) (auto simp: signed_data_defs split: if_splits builder_version.splits option.splits)
  show "sd_set_signature sig d = Inr d' \<Longrightarrow> sd_message_root root d' = sd_message_root root d"
    by (cases d) (auto simp: signed_data_defs split: if_splits builder_version.splits option.splits)
  show "sd_signature d = Inr s \<Longrightarrow> \<exists>d'. sd_set_signature sig d = Inr d'" for s
    by (cases d) (auto simp: signed_data_defs split: if_splits builder_version.splits option.splits)
qed

end
