(* ===== verification/Store.thy ===== *)
theory Store
  imports Prelude
begin

text \<open>
  The contract that the in-memory databases of the workflow share: a map of registers in
  which the first write wins, and whose registers are dropped together when the duty that
  owns them expires. The laws are stated once as locales; the databases discharge them for
  their own operations and inherit that they implement the abstract registers.
\<close>

datatype ('k, 'v, 'd) store_op = Put 'k 'v | Evict 'd

text \<open>The abstract register of one key: the first value written since the last eviction.\<close>

fun register :: "('k \<Rightarrow> 'd) \<Rightarrow> 'k \<Rightarrow> ('k, 'v, 'd) store_op list \<Rightarrow> 'v option \<Rightarrow> 'v option" where
  "register owner k [] cur = cur"
| "register owner k (Put k' v # ops) cur =
     register owner k ops (if k' = k \<and> cur = None then Some v else cur)"
| "register owner k (Evict d # ops) cur =
     register owner k ops (if owner k = d then None else cur)"

fun store_run :: "('k \<Rightarrow> 'v \<Rightarrow> 's \<Rightarrow> 's) \<Rightarrow> ('d \<Rightarrow> 's \<Rightarrow> 's) \<Rightarrow> ('k, 'v, 'd) store_op list \<Rightarrow> 's \<Rightarrow> 's" where
  "store_run put evict [] s = s"
| "store_run put evict (Put k v # ops) s = store_run put evict ops (put k v s)"
| "store_run put evict (Evict d # ops) s = store_run put evict ops (evict d s)"

lemma register_written:
  "register owner k ops cur = Some v \<Longrightarrow> cur = Some v \<or> Put k v \<in> set ops"
  by (induction owner k ops cur rule: register.induct) (auto split: if_splits)

lemma register_stable:
  "Evict (owner k) \<notin> set ops \<Longrightarrow> register owner k ops (Some v) = Some v"
  by (induction owner k ops "Some v" rule: register.induct) auto

lemma register_written_once:
  "Evict (owner k) \<notin> set ops \<Longrightarrow> Put k v \<in> set ops \<Longrightarrow> \<exists>w. register owner k ops cur = Some w"
proof (induction owner k ops cur rule: register.induct)
  case (2 owner k k' v' ops cur)
  then show ?case by (cases cur) (auto simp: register_stable)
qed auto

text \<open>The index from an owner (a duty, a slot) to the keys stored for it.\<close>

definition listed :: "('d \<times> 'k list) list \<Rightarrow> 'd \<Rightarrow> 'k list" where
  "listed idx d = (case map_of idx d of None \<Rightarrow> [] | Some ks \<Rightarrow> ks)"

lemma listed_push: "listed (entry_push d k idx) d' = listed idx d' @ (if d' = d then [k] else [])"
  by (simp add: listed_def map_of_entry_push)

lemma listed_delete: "listed (AList.delete d idx) d' = (if d' = d then [] else listed idx d')"
  by (simp add: listed_def delete_conv')

text \<open>Every stored key is listed under the owner it determines, and nothing else is.\<close>

definition index_by :: "('k \<Rightarrow> 'd) \<Rightarrow> 'k set \<Rightarrow> ('d \<times> 'k list) list \<Rightarrow> bool" where
  "index_by owner K idx \<longleftrightarrow> distinct (keys idx) \<and> (\<forall>d k. k \<in> set (listed idx d) \<longleftrightarrow> owner k = d \<and> k \<in> K)"

lemma index_by_push: "index_by owner K idx \<Longrightarrow> index_by owner (insert k K) (entry_push (owner k) k idx)"
  by (auto simp: index_by_def listed_push)

lemma index_by_delete: "index_by owner K idx \<Longrightarrow> index_by owner (K - {k. owner k = d}) (AList.delete d idx)"
  by (auto simp: index_by_def listed_delete distinct_delete)

lemma index_by_listed: "index_by owner K idx \<Longrightarrow> set (listed idx d) = {k \<in> K. owner k = d}"
  unfolding index_by_def by blast

text \<open>The same where the owner is not a function of the key: every stored key is listed
  under exactly one owner.\<close>

definition index_once :: "'k set \<Rightarrow> ('d \<times> 'k list) list \<Rightarrow> bool" where
  "index_once K idx \<longleftrightarrow> distinct (keys idx) \<and> (\<forall>k d. k \<in> set (listed idx d) \<longrightarrow> k \<in> K) \<and> (\<forall>k \<in> K. \<exists>d. k \<in> set (listed idx d))
     \<and> (\<forall>k d d'. k \<in> set (listed idx d) \<longrightarrow> k \<in> set (listed idx d') \<longrightarrow> d = d')"

lemma index_onceD:
  assumes "index_once K idx" "k \<in> set (listed idx d)"
  shows "k \<in> K" and "k \<in> set (listed idx d') \<Longrightarrow> d' = d"
  using assms by (auto simp: index_once_def)

lemma index_once_push:
  assumes "index_once K idx" "k \<notin> K"
  shows "index_once (insert k K) (entry_push d k idx)"
proof -
  have "k \<notin> set (listed idx d')" for d' using assms unfolding index_once_def by blast
  then show ?thesis using assms(1) unfolding index_once_def listed_push by auto
qed

lemma index_once_delete:
  assumes "index_once K idx"
  shows "index_once (K - set (listed idx d)) (AList.delete d idx)"
proof -
  have l: "k \<in> set (listed (AList.delete d idx) d') \<longleftrightarrow> d' \<noteq> d \<and> k \<in> set (listed idx d')" for k d'
    by (simp add: listed_delete)
  have "distinct (keys (AList.delete d idx))" using assms by (simp add: index_once_def distinct_delete)
  moreover have "k \<in> K - set (listed idx d)" if "d' \<noteq> d" "k \<in> set (listed idx d')" for k d'
    using index_onceD(1) [OF assms that(2)] index_onceD(2) [OF assms that(2), of d] that(1) by blast
  moreover have "\<exists>d'. d' \<noteq> d \<and> k \<in> set (listed idx d')" if k: "k \<in> K" "k \<notin> set (listed idx d)" for k
  proof -
    obtain d' where "k \<in> set (listed idx d')" using assms k(1) by (auto simp: index_once_def)
    with k(2) show ?thesis by (intro exI [of _ d']) auto
  qed
  ultimately show ?thesis using index_onceD(2) [OF assms] by (auto simp: index_once_def l)
qed

text \<open>Dropping a list of keys from a map.\<close>

lemma map_of_delete_list: "map_of (fold AList.delete ks m) k = (if k \<in> set ks then None else map_of m k)"
  by (induction ks arbitrary: m) (auto simp: delete_conv')

lemma distinct_delete_list: "distinct (keys m) \<Longrightarrow> distinct (keys (fold AList.delete ks m))"
  by (induction ks arbitrary: m) (auto simp: distinct_delete)

lemma set_delete_list: "set (fold AList.delete ks m) \<subseteq> set m"
proof (induction ks arbitrary: m)
  case (Cons k ks)
  have "set (AList.delete k m) \<subseteq> set m" by (auto simp: AList.delete_eq)
  then show ?case using Cons [of "AList.delete k m"] by auto
qed simp

lemma keys_delete_list: "set (keys (fold AList.delete ks m)) = set (keys m) - set ks"
  unfolding set_eq_iff Diff_iff set_keys_map_of map_of_delete_list by simp

locale first_write_store =
  fixes ok :: "'s \<Rightarrow> bool"
    and put :: "'k \<Rightarrow> 'v \<Rightarrow> 's \<Rightarrow> 's"
    and get :: "'s \<Rightarrow> 'k \<Rightarrow> 'v option"
    and fits :: "'k \<Rightarrow> 'v \<Rightarrow> bool"
  assumes ok_put: "ok s \<Longrightarrow> ok (put k v s)"
    and get_put: "ok s \<Longrightarrow> fits k v \<Longrightarrow> get (put k v s) k' =
      (if k' = k \<and> get s k = None then Some v else get s k')"
begin

lemma ok_puts: "ok s \<Longrightarrow> ok (fold (\<lambda>(k, v). put k v) kvs s)"
  by (induction kvs arbitrary: s) (auto simp: ok_put)

lemma put_idem: "ok s \<Longrightarrow> fits k v \<Longrightarrow> get (put k v (put k v s)) k' = get (put k v s) k'"
  by (simp add: get_put ok_put)

lemma put_then_put: "ok s \<Longrightarrow> fits k v \<Longrightarrow> fits k w \<Longrightarrow> get (put k w (put k v s)) k' = get (put k v s) k'"
  by (auto simp: get_put ok_put)

end

locale evicting_store = first_write_store ok put get fits
  for ok :: "'s \<Rightarrow> bool" and put :: "'k \<Rightarrow> 'v \<Rightarrow> 's \<Rightarrow> 's" and get :: "'s \<Rightarrow> 'k \<Rightarrow> 'v option"
    and fits :: "'k \<Rightarrow> 'v \<Rightarrow> bool" +
  fixes evict :: "'d \<Rightarrow> 's \<Rightarrow> 's"
    and owner :: "'k \<Rightarrow> 'd"
  assumes ok_evict: "ok s \<Longrightarrow> ok (evict d s)"
    and get_evict: "ok s \<Longrightarrow> get (evict d s) k = (if owner k = d then None else get s k)"
begin

lemma ok_run: "ok s \<Longrightarrow> ok (store_run put evict ops s)"
proof (induction ops arbitrary: s)
  case (Cons op ops)
  then show ?case by (cases op) (auto simp: ok_put ok_evict)
qed simp

text \<open>The store implements its registers.\<close>

lemma get_run:
  "ok s \<Longrightarrow> (\<And>k v. Put k v \<in> set ops \<Longrightarrow> fits k v) \<Longrightarrow>
   get (store_run put evict ops s) k = register owner k ops (get s k)"
proof (induction ops arbitrary: s)
  case (Cons op ops)
  then show ?case by (cases op) (auto simp: ok_put ok_evict get_put get_evict)
qed simp

end

end
