(* ===== verification/Parsig_DB.thy ===== *)
theory Parsig_DB
  imports Duty_Types Store
begin

text \<open>
  The in-memory database of partial signatures (crates/core/src/parsigdb/memory.rs): it
  collects partially signed data per duty and validator, rejects a second different value of
  the same share, hands a set of matching signatures to the threshold subscribers, and drops
  the data of expired duties. The message root of signed data and the subscribers are
  arguments; metrics are left out.
\<close>

section \<open>State\<close>

record parsig_key =
  k_duty :: duty
  k_pub_key :: pubkey

datatype 'e memdb_error = ParsigDataMismatch pubkey nat | SignedDataError 'e | InternalSubscriber

type_synonym 'd parsig_output = "(pubkey \<times> 'd par_signed_data list) list"

record ('d, 'e) memdb =
  internal_subs :: "(duty \<Rightarrow> 'd par_signed_set \<Rightarrow> 'e memdb_error + unit) list"
  thresh_subs :: "(duty \<Rightarrow> 'd parsig_output \<Rightarrow> 'e memdb_error + unit) list"
  entries :: "(parsig_key \<times> 'd par_signed_data list) list"
  keys_by_duty :: "(duty \<times> parsig_key list) list"
  threshold :: nat

definition memdb_new :: "nat \<Rightarrow> ('d, 'e) memdb" where
  "memdb_new thr = \<lparr>internal_subs = [], thresh_subs = [], entries = [], keys_by_duty = [], threshold = thr\<rparr>"

definition subscribe_internal :: "(duty \<Rightarrow> 'd par_signed_set \<Rightarrow> 'e memdb_error + unit) \<Rightarrow> ('d, 'e) memdb \<Rightarrow> ('d, 'e) memdb" where
  "subscribe_internal sub s = s\<lparr>internal_subs := internal_subs s @ [sub]\<rparr>"

definition subscribe_threshold :: "(duty \<Rightarrow> 'd parsig_output \<Rightarrow> 'e memdb_error + unit) \<Rightarrow> ('d, 'e) memdb \<Rightarrow> ('d, 'e) memdb" where
  "subscribe_threshold sub s = s\<lparr>thresh_subs := thresh_subs s @ [sub]\<rparr>"

section \<open>Matching signatures\<close>

definition group_by_root ::
  "('d \<Rightarrow> 'e + nat list) \<Rightarrow> 'd par_signed_data list \<Rightarrow> 'e memdb_error + (nat list \<times> 'd par_signed_data list) list" where
  "group_by_root root sigs =
     res_fold (\<lambda>sig m. case root (ps_signed_data sig) of
         Inl e \<Rightarrow> Inl (SignedDataError e)
       | Inr r \<Rightarrow> Inr (entry_push r sig m)) sigs []"

definition get_threshold_matching ::
  "('d \<Rightarrow> 'e + nat list) \<Rightarrow> hash_order \<Rightarrow> duty_type \<Rightarrow> 'd par_signed_data list \<Rightarrow> nat
     \<Rightarrow> 'e memdb_error + 'd par_signed_data list option" where
  "get_threshold_matching root ord typ sigs thr =
     (if length sigs < thr then Inr None
      else if typ = Signature then Inr (if length sigs = thr then Some sigs else None)
      else res_bind (group_by_root root sigs) (\<lambda>m.
        Inr (find (\<lambda>g. length g = thr) (map snd (hash_iter (ord 1) m)))))"

section \<open>Operations\<close>

datatype 'd store_outcome = Duplicate | Stored | Threshold "'d par_signed_data list"

definition stored_sigs :: "('d, 'e) memdb \<Rightarrow> parsig_key \<Rightarrow> 'd par_signed_data list" where
  "stored_sigs s k = (case map_of (entries s) k of None \<Rightarrow> [] | Some xs \<Rightarrow> xs)"

definition parsig_store ::
  "('d \<Rightarrow> 'e + nat list) \<Rightarrow> hash_order \<Rightarrow> parsig_key \<Rightarrow> 'd par_signed_data \<Rightarrow> ('d, 'e) memdb
     \<Rightarrow> ('e memdb_error + 'd store_outcome) \<times> ('d, 'e) memdb" where
  "parsig_store root ord k v s =
     (case find (\<lambda>x. ps_share_idx x = ps_share_idx v) (stored_sigs s k) of
        Some x \<Rightarrow> (if x = v then Inr Duplicate else Inl (ParsigDataMismatch (k_pub_key k) (ps_share_idx v)), s)
      | None \<Rightarrow>
          let s' = s\<lparr>entries := entry_push k v (entries s), keys_by_duty := entry_push (k_duty k) k (keys_by_duty s)\<rparr>
          in (case get_threshold_matching root ord (d_type (k_duty k)) (stored_sigs s' k) (threshold s') of
                Inl e \<Rightarrow> Inl e
              | Inr (Some psigs) \<Rightarrow> Inr (Threshold psigs)
              | Inr None \<Rightarrow> Inr Stored, s'))"

text \<open>The loop of \<open>store_external\<close>: what is stored before an error stays stored.\<close>

fun store_loop ::
  "('d \<Rightarrow> 'e + nat list) \<Rightarrow> hash_order \<Rightarrow> duty \<Rightarrow> (pubkey \<times> 'd par_signed_data) list \<Rightarrow> 'd parsig_output \<Rightarrow> ('d, 'e) memdb
     \<Rightarrow> ('e memdb_error + 'd parsig_output) \<times> ('d, 'e) memdb" where
  "store_loop root ord d [] out s = (Inr out, s)"
| "store_loop root ord d ((pk, v) # rest) out s =
     (case parsig_store root ord \<lparr>k_duty = d, k_pub_key = pk\<rparr> v s of
        (Inl e, s') \<Rightarrow> (Inl e, s')
      | (Inr (Threshold psigs), s') \<Rightarrow> store_loop root ord d rest (AList.update pk psigs out) s'
      | (Inr _, s') \<Rightarrow> store_loop root ord d rest out s')"

datatype 'd parsig_action =
    AddDeadline duty
  | CallThreshold duty "'d parsig_output"
  | CallInternal duty "'d par_signed_set"

text \<open>Calling subscribers in order, up to the first error.\<close>

fun notify :: "'a \<Rightarrow> ('x + unit) list \<Rightarrow> 'a list \<times> ('x + unit)" where
  "notify act [] = ([], Inr ())"
| "notify act (Inl e # rs) = ([act], Inl e)"
| "notify act (Inr u # rs) = (case notify act rs of (acts, r) \<Rightarrow> (act # acts, r))"

definition store_external ::
  "('d \<Rightarrow> 'e + nat list) \<Rightarrow> hash_order \<Rightarrow> duty \<Rightarrow> 'd par_signed_set \<Rightarrow> ('d, 'e) memdb
     \<Rightarrow> 'd parsig_action list \<times> ('e memdb_error + unit) \<times> ('d, 'e) memdb" where
  "store_external root ord d signed_data s =
     (case store_loop root ord d (hash_iter (ord 0) signed_data) [] s of
        (Inl e, s') \<Rightarrow> ([AddDeadline d], Inl e, s')
      | (Inr output, s') \<Rightarrow>
          if output = [] then ([AddDeadline d], Inr (), s')
          else (case notify (CallThreshold d output) (map (\<lambda>sub. sub d output) (thresh_subs s')) of
                  (acts, r) \<Rightarrow> (AddDeadline d # acts, r, s')))"

definition store_internal ::
  "('d \<Rightarrow> 'e + nat list) \<Rightarrow> hash_order \<Rightarrow> duty \<Rightarrow> 'd par_signed_set \<Rightarrow> ('d, 'e) memdb
     \<Rightarrow> 'd parsig_action list \<times> ('e memdb_error + unit) \<times> ('d, 'e) memdb" where
  "store_internal root ord d signed_set s =
     (case store_external root ord d signed_set s of
        (acts, Inl e, s') \<Rightarrow> (acts, Inl e, s')
      | (acts, Inr _, s') \<Rightarrow>
          (case notify (CallInternal d signed_set) (map (\<lambda>sub. sub d signed_set) (internal_subs s')) of
             (acts', r) \<Rightarrow> (acts @ acts', r, s')))"

definition parsig_trim :: "duty \<Rightarrow> ('d, 'e) memdb \<Rightarrow> ('d, 'e) memdb" where
  "parsig_trim d s =
     s\<lparr>entries := fold AList.delete (case map_of (keys_by_duty s) d of None \<Rightarrow> [] | Some ks \<Rightarrow> ks) (entries s),
       keys_by_duty := AList.delete d (keys_by_duty s)\<rparr>"

section \<open>Groups of equal roots\<close>

definition sigs_of_root :: "('d \<Rightarrow> 'e + nat list) \<Rightarrow> nat list \<Rightarrow> 'd par_signed_data list \<Rightarrow> 'd par_signed_data list" where
  "sigs_of_root root r sigs = filter (\<lambda>x. root (ps_signed_data x) = Inr r) sigs"

lemma group_loop:
  assumes "res_fold (\<lambda>sig m. case root (ps_signed_data sig) of
         Inl e \<Rightarrow> Inl (SignedDataError e)
       | Inr r \<Rightarrow> Inr (entry_push r sig m)) sigs m0 = Inr m" "distinct (keys m0)"
  shows "distinct (keys m) \<and> (\<forall>r. map_of m r =
    (case map_of m0 r of Some g \<Rightarrow> Some (g @ sigs_of_root root r sigs)
     | None \<Rightarrow> if sigs_of_root root r sigs = [] then None else Some (sigs_of_root root r sigs)))"
  using assms
proof (induction sigs arbitrary: m0)
  case Nil
  then show ?case by (simp add: sigs_of_root_def split: option.splits)
next
  case (Cons x sigs)
  then obtain r where r: "root (ps_signed_data x) = Inr r" by (auto split: sum.splits)
  show ?case
    using Cons.IH [of "entry_push r x m0"] Cons.prems r
    by (auto simp: map_of_entry_push sigs_of_root_def split: option.splits)
qed

lemma group_by_root_Inr:
  assumes "group_by_root root sigs = Inr m"
  shows "distinct (keys m)"
    and "(r, g) \<in> set m \<longleftrightarrow> g = sigs_of_root root r sigs \<and> g \<noteq> []"
proof -
  note loop = group_loop [OF assms [unfolded group_by_root_def]]
  show d: "distinct (keys m)" using loop by simp
  have "(r, g) \<in> set m \<longleftrightarrow> map_of m r = Some g" using d by simp
  then show "(r, g) \<in> set m \<longleftrightarrow> g = sigs_of_root root r sigs \<and> g \<noteq> []" using loop by auto
qed

lemma group_by_root_total:
  "\<forall>x \<in> set sigs. \<exists>r. root (ps_signed_data x) = Inr r \<Longrightarrow> \<exists>m. group_by_root root sigs = Inr m"
proof -
  have "\<exists>m. res_fold (\<lambda>sig m. case root (ps_signed_data sig) of
         Inl e \<Rightarrow> Inl (SignedDataError e) | Inr r \<Rightarrow> Inr (entry_push r sig m)) sigs m0 = Inr m"
    if "\<forall>x \<in> set sigs. \<exists>r. root (ps_signed_data x) = Inr r" for m0
    using that by (induction sigs arbitrary: m0) (auto split: sum.splits)
  then show "\<forall>x \<in> set sigs. \<exists>r. root (ps_signed_data x) = Inr r \<Longrightarrow> ?thesis"
    by (simp add: group_by_root_def)
qed

lemma find_map_snd_None: "find P (map snd m) = None \<longleftrightarrow> (\<forall>(r, g) \<in> set m. \<not> P g)"
  by (force simp: find_None_iff)

text \<open>What a successful threshold check says about the checked signatures.\<close>

lemma get_threshold_matching_Some:
  assumes "get_threshold_matching root ord t sigs thr = Inr (Some ps)"
  shows "length ps = thr \<and> (if t = Signature then ps = sigs else \<exists>r. ps = sigs_of_root root r sigs \<and> ps \<noteq> [])"
proof (cases "t = Signature")
  case True
  then show ?thesis using assms by (auto simp: get_threshold_matching_def split: if_splits)
next
  case False
  then obtain m where m: "group_by_root root sigs = Inr m"
    "find (\<lambda>g. length g = thr) (map snd (hash_iter (ord 1) m)) = Some ps"
    using assms by (auto simp: get_threshold_matching_def split: if_splits)
  have "ps \<in> snd ` set m \<and> length ps = thr" using find_Some_mem [OF m(2)] by simp
  then obtain r where "(r, ps) \<in> set m" "length ps = thr" by force
  then show ?thesis using False group_by_root_Inr(2) [OF m(1)] by auto
qed

lemma get_threshold_matching_None:
  assumes "get_threshold_matching root ord t sigs thr = Inr None" "0 < thr"
  shows "if t = Signature then length sigs \<noteq> thr else \<forall>r. length (sigs_of_root root r sigs) \<noteq> thr"
proof (cases "t = Signature \<or> length sigs < thr")
  case True
  have "length (sigs_of_root root r sigs) \<le> length sigs" for r by (simp add: sigs_of_root_def)
  then show ?thesis using True assms
    by (auto simp: get_threshold_matching_def not_less dest: le_less_trans split: if_splits)
next
  case False
  then obtain m where m: "group_by_root root sigs = Inr m"
    "find (\<lambda>g. length g = thr) (map snd (hash_iter (ord 1) m)) = None"
    using assms by (auto simp: get_threshold_matching_def split: if_splits)
  have "length (sigs_of_root root r sigs) \<noteq> thr" for r
  proof
    assume l: "length (sigs_of_root root r sigs) = thr"
    then have "(r, sigs_of_root root r sigs) \<in> set m" using group_by_root_Inr(2) [OF m(1)] assms(2) by auto
    then show False using m(2) l by (auto simp: find_map_snd_None)
  qed
  then show ?thesis using False by simp
qed

section \<open>The invariant\<close>

text \<open>Every key of the entries is listed under its duty and only there, and a key holds at
  most one signature per share.\<close>

definition shares_ok :: "(parsig_key \<times> 'd par_signed_data list) list \<Rightarrow> bool" where
  "shares_ok m \<longleftrightarrow> distinct (keys m) \<and> (\<forall>(k, xs) \<in> set m. xs \<noteq> [] \<and> distinct (map ps_share_idx xs))"

definition memdb_inv :: "('d, 'e) memdb \<Rightarrow> bool" where
  "memdb_inv s \<longleftrightarrow> shares_ok (entries s) \<and> index_by k_duty (set (keys (entries s))) (keys_by_duty s)"

lemma memdb_inv_new: "memdb_inv (memdb_new thr)"
  by (simp add: memdb_inv_def memdb_new_def shares_ok_def index_by_def listed_def)

lemma stored_sigs_share:
  assumes "memdb_inv s" shows "distinct (map ps_share_idx (stored_sigs s k))"
proof (cases "map_of (entries s) k")
  case (Some xs)
  then have "(k, xs) \<in> set (entries s)" by (rule map_of_SomeD)
  then show ?thesis using assms Some by (auto simp: memdb_inv_def shares_ok_def stored_sigs_def)
qed (simp add: stored_sigs_def)

definition memdb_push :: "parsig_key \<Rightarrow> 'd par_signed_data \<Rightarrow> ('d, 'e) memdb \<Rightarrow> ('d, 'e) memdb" where
  "memdb_push k v s =
     s\<lparr>entries := entry_push k v (entries s), keys_by_duty := entry_push (k_duty k) k (keys_by_duty s)\<rparr>"

lemma stored_sigs_push: "stored_sigs (memdb_push k v s) k' = stored_sigs s k' @ (if k' = k then [v] else [])"
  by (simp add: stored_sigs_def memdb_push_def map_of_entry_push)

lemma memdb_push_simps [simp]:
  "threshold (memdb_push k v s) = threshold s"
  "internal_subs (memdb_push k v s) = internal_subs s"
  "thresh_subs (memdb_push k v s) = thresh_subs s"
  by (simp_all add: memdb_push_def)

lemma keys_entry_push: "set (keys (entry_push k v m)) = insert k (set (keys m))"
  by (simp add: entry_push_def dom_update)

lemma shares_ok_push:
  assumes "shares_ok m" "ps_share_idx v \<notin> ps_share_idx ` set xs" "distinct (map ps_share_idx xs)"
  shows "shares_ok (AList.update k (xs @ [v]) m)"
  unfolding shares_ok_def
proof (intro conjI ballI)
  show "distinct (keys (AList.update k (xs @ [v]) m))" using assms(1) by (simp add: shares_ok_def)
  fix y assume "y \<in> set (AList.update k (xs @ [v]) m)"
  then have "y = (k, xs @ [v]) \<or> y \<in> set m"
    using assms(1) set_values_update_subset [of m "fst y" "snd y"] by (auto simp: shares_ok_def)
  then show "case y of (k, xs) \<Rightarrow> xs \<noteq> [] \<and> distinct (map ps_share_idx xs)"
    using assms by (auto simp: shares_ok_def)
qed

lemma memdb_push_inv:
  assumes "memdb_inv s" "ps_share_idx v \<notin> ps_share_idx ` set (stored_sigs s k)"
  shows "memdb_inv (memdb_push k v s)"
proof -
  have "entry_push k v (entries s) = AList.update k (stored_sigs s k @ [v]) (entries s)"
    by (simp add: entry_push_def stored_sigs_def)
  then have "shares_ok (entry_push k v (entries s))"
    using assms stored_sigs_share [OF assms(1)] by (simp add: shares_ok_push memdb_inv_def)
  moreover have "index_by k_duty (set (keys (entry_push k v (entries s)))) (entry_push (k_duty k) k (keys_by_duty s))"
    using assms(1) unfolding keys_entry_push by (simp add: memdb_inv_def index_by_push)
  ultimately show ?thesis by (simp add: memdb_inv_def memdb_push_def)
qed

text \<open>A store either leaves the database as it is or appends the value under its key.\<close>

lemma parsig_store_cases:
  obtains (old) x where "x \<in> set (stored_sigs s k)" "ps_share_idx x = ps_share_idx v" "snd (parsig_store root ord k v s) = s"
      "fst (parsig_store root ord k v s) = (if x = v then Inr Duplicate else Inl (ParsigDataMismatch (k_pub_key k) (ps_share_idx v)))"
  | (new) "ps_share_idx v \<notin> ps_share_idx ` set (stored_sigs s k)" "snd (parsig_store root ord k v s) = memdb_push k v s"
      "fst (parsig_store root ord k v s) =
         (case get_threshold_matching root ord (d_type (k_duty k)) (stored_sigs s k @ [v]) (threshold s) of
            Inl e \<Rightarrow> Inl e | Inr (Some psigs) \<Rightarrow> Inr (Threshold psigs) | Inr None \<Rightarrow> Inr Stored)"
proof (cases "find (\<lambda>x. ps_share_idx x = ps_share_idx v) (stored_sigs s k)")
  case None
  then have "ps_share_idx v \<notin> ps_share_idx ` set (stored_sigs s k)" by (auto simp: find_None_iff)
  then show ?thesis
    using None stored_sigs_push [of k v s k] by (intro new) (simp_all add: parsig_store_def Let_def flip: memdb_push_def)
next
  case (Some x)
  then show ?thesis using find_Some_mem [OF Some] by (intro old [of x]) (simp_all add: parsig_store_def)
qed

lemma parsig_store_inv: "memdb_inv s \<Longrightarrow> memdb_inv (snd (parsig_store root ord k v s))"
  by (rule parsig_store_cases [of s k v root ord]) (auto simp: memdb_push_inv)

lemma store_loop_inv: "memdb_inv s \<Longrightarrow> memdb_inv (snd (store_loop root ord d kvs out s))"
proof (induction root ord d kvs out s rule: store_loop.induct)
  case (2 root ord d pk v rest out s)
  have "memdb_inv (snd (parsig_store root ord \<lparr>k_duty = d, k_pub_key = pk\<rparr> v s))" using 2 by (simp add: parsig_store_inv)
  then show ?case using 2 by (auto split: prod.splits sum.splits store_outcome.splits)
qed simp

lemma stored_sigs_trim:
  assumes "memdb_inv s"
  shows "map_of (entries (parsig_trim d s)) k = (if k_duty k = d then None else map_of (entries s) k)"
proof -
  have "k \<in> set (listed (keys_by_duty s) d) \<longleftrightarrow> k_duty k = d \<and> k \<in> set (keys (entries s))"
    using assms unfolding memdb_inv_def index_by_def by blast
  then show ?thesis by (auto simp: parsig_trim_def map_of_delete_list map_of_eq_None_iff simp flip: listed_def)
qed

lemma parsig_trim_inv:
  assumes "memdb_inv s" shows "memdb_inv (parsig_trim d s)"
proof -
  have "shares_ok (entries (parsig_trim d s))"
    using assms set_delete_list
    by (fastforce simp: memdb_inv_def shares_ok_def parsig_trim_def distinct_delete_list)
  moreover have "set (keys (entries (parsig_trim d s))) = set (keys (entries s)) - {k. k_duty k = d}"
    unfolding set_eq_iff Diff_iff mem_Collect_eq set_keys_map_of stored_sigs_trim [OF assms] by simp
  then have "index_by k_duty (set (keys (entries (parsig_trim d s)))) (keys_by_duty (parsig_trim d s))"
    using assms by (simp add: memdb_inv_def parsig_trim_def index_by_delete)
  ultimately show ?thesis by (simp add: memdb_inv_def)
qed

text \<open>What a store that reaches the threshold hands on.\<close>

lemma parsig_threshold_set:
  assumes "memdb_inv s" "parsig_store root ord k v s = (Inr (Threshold ps), s')"
  shows "length ps = threshold s \<and> distinct (map ps_share_idx ps) \<and> set ps \<subseteq> set (stored_sigs s' k)
    \<and> (d_type (k_duty k) \<noteq> Signature \<longrightarrow> (\<exists>r. \<forall>x \<in> set ps. root (ps_signed_data x) = Inr r))"
proof (cases rule: parsig_store_cases [of s k v root ord])
  case (old x)
  then show ?thesis using assms(2) by (auto split: if_splits)
next
  case new
  have sigs: "stored_sigs s' k = stored_sigs s k @ [v]" using new(2) assms(2) by (simp add: stored_sigs_push)
  have d: "distinct (map ps_share_idx (stored_sigs s' k))"
    using stored_sigs_share [OF assms(1), of k] new(1) by (simp add: sigs)
  have m: "get_threshold_matching root ord (d_type (k_duty k)) (stored_sigs s' k) (threshold s) = Inr (Some ps)"
    using new(3) assms(2) by (auto simp: sigs split: sum.splits option.splits)
  then show ?thesis
    using get_threshold_matching_Some [OF m] d by (auto simp: sigs_of_root_def distinct_map_filter split: if_splits)
qed

section \<open>Properties\<close>


text \<open>A message root that is the data itself, and two shares of one attestation.\<close>

definition sample_root :: "nat list \<Rightarrow> unit + nat list" where
  "sample_root d = Inr d"

definition sample_key :: parsig_key where
  "sample_key = \<lparr>k_duty = new_duty 1 Attester, k_pub_key = [7]\<rparr>"

definition sample_share :: "nat \<Rightarrow> nat \<Rightarrow> nat list par_signed_data" where
  "sample_share d i = \<lparr>ps_signed_data = [d], ps_share_idx = i\<rparr>"

definition sample_db :: "(nat list, unit) memdb" where
  "sample_db = snd (parsig_store sample_root in_order sample_key (sample_share 5 1) (memdb_new 2))"


lemma store_external_state:
  "snd (snd (store_external root ord d ss s)) = snd (store_loop root ord d (hash_iter (ord 0) ss) [] s)"
  by (auto simp: store_external_def split: prod.splits sum.splits)

lemma store_internal_state:
  "snd (snd (store_internal root ord d ss s)) = snd (snd (store_external root ord d ss s))"
  by (auto simp: store_internal_def split: prod.splits sum.splits)

text \<open>
  C19. The database keeps its invariant, whether an operation succeeds or fails half way: a key
  holds at most one signature per share, and the index by duty lists exactly the stored
  keys, so that trimming an expired duty removes all of its data and nothing else.
\<close>

theorem parsigdb_invariant:
  "memdb_inv (memdb_new thr)
   \<and> (memdb_inv s \<longrightarrow> memdb_inv (snd (snd (store_external root ord d ss s)))
      \<and> memdb_inv (snd (snd (store_internal root ord d ss s)))
      \<and> memdb_inv (parsig_trim d s)
      \<and> (\<forall>k. stored_sigs (parsig_trim d s) k = (if k_duty k = d then [] else stored_sigs s k)))"
  by (simp add: memdb_inv_new store_internal_state store_external_state store_loop_inv parsig_trim_inv stored_sigs_def stored_sigs_trim)

theorem parsigdb_invariant_witness:
  "stored_sigs sample_db sample_key \<noteq> [] \<and> stored_sigs (parsig_trim (new_duty 1 Attester) sample_db) sample_key = []"
proof -
  have inv: "memdb_inv sample_db" by (simp add: sample_db_def parsig_store_inv memdb_inv_new)
  then have "stored_sigs (parsig_trim (new_duty 1 Attester) sample_db) sample_key =
      (if k_duty sample_key = new_duty 1 Attester then [] else stored_sigs sample_db sample_key)"
    using parsigdb_invariant [of 2 sample_db sample_root in_order "new_duty 1 Attester" "[]"] by blast
  moreover have "stored_sigs sample_db sample_key \<noteq> []" by code_simp
  ultimately show ?thesis by (simp add: sample_key_def)
qed

section \<open>Crossing the threshold\<close>

text \<open>The outcomes of storing a sequence of values under one key.\<close>

fun store_seq ::
  "('d \<Rightarrow> 'e + nat list) \<Rightarrow> hash_order \<Rightarrow> parsig_key \<Rightarrow> 'd par_signed_data list \<Rightarrow> ('d, 'e) memdb
     \<Rightarrow> ('e memdb_error + 'd store_outcome) list" where
  "store_seq root ord k [] s = []"
| "store_seq root ord k (v # vs) s =
     (case parsig_store root ord k v s of (r, s') \<Rightarrow> r # store_seq root ord k vs s')"

definition reached :: "'e memdb_error + 'd store_outcome \<Rightarrow> bool" where
  "reached r \<longleftrightarrow> (\<exists>ps. r = Inr (Threshold ps))"

lemma threshold_one_root:
  assumes "\<forall>x \<in> set sigs. root (ps_signed_data x) = Inr r" "t \<noteq> Signature" "0 < thr"
  shows "get_threshold_matching root ord t sigs thr = Inr (if length sigs = thr then Some sigs else None)"
proof -
  have r: "sigs_of_root root r' sigs = (if r' = r then sigs else [])" for r'
    using assms(1) by (auto simp: sigs_of_root_def filter_empty_conv)
  obtain m where "group_by_root root sigs = Inr m" using group_by_root_total assms(1) by blast
  then have "\<exists>res. get_threshold_matching root ord t sigs thr = Inr res"
    using assms(2) by (simp add: get_threshold_matching_def)
  then obtain res where res: "get_threshold_matching root ord t sigs thr = Inr res" by blast
  show ?thesis
  proof (cases res)
    case None
    then have "\<forall>r'. length (sigs_of_root root r' sigs) \<noteq> thr"
      using get_threshold_matching_None [of root ord t sigs thr] res assms(2,3) by auto
    then have "length sigs \<noteq> thr" using r [of r] by metis
    then show ?thesis using None res by simp
  next
    case (Some ps)
    then show ?thesis using get_threshold_matching_Some [of root ord t sigs thr ps] res assms(2) r by (auto split: if_splits)
  qed
qed

lemma store_seq_reached:
  assumes "\<forall>x \<in> set (stored_sigs s k) \<union> set vs. root (ps_signed_data x) = Inr r" "d_type (k_duty k) \<noteq> Signature"
    and "0 < threshold s" "memdb_inv s"
  defines "n \<equiv> card (ps_share_idx ` (set (stored_sigs s k) \<union> set vs))"
  shows "length (filter reached (store_seq root ord k vs s)) =
    (if length (stored_sigs s k) < threshold s \<and> threshold s \<le> n then 1 else 0)"
  unfolding n_def using assms(1-4)
proof (induction vs arbitrary: s)
  case Nil
  then show ?case using distinct_length_card_image [OF stored_sigs_share [OF Nil(4)], of k] by simp
next
  case (Cons v vs)
  show ?case
  proof (cases rule: parsig_store_cases [of s k v root ord])
    case (old x)
    then have "insert (ps_share_idx v) (ps_share_idx ` set (stored_sigs s k)) = ps_share_idx ` set (stored_sigs s k)"
      by (metis image_eqI insert_absorb)
    then have "ps_share_idx ` (set (stored_sigs s k) \<union> set (v # vs)) = ps_share_idx ` (set (stored_sigs s k) \<union> set vs)"
      by (simp add: image_Un) blast
    moreover have "\<not> reached (fst (parsig_store root ord k v s))" using old(4) by (auto simp: reached_def)
    ultimately show ?thesis using Cons.IH [of s] Cons.prems old(3) by (simp add: case_prod_unfold)
  next
    case new
    let ?s' = "memdb_push k v s"
    have sigs: "stored_sigs ?s' k = stored_sigs s k @ [v]" by (simp add: stored_sigs_push)
    have "get_threshold_matching root ord (d_type (k_duty k)) (stored_sigs s k @ [v]) (threshold s)
        = Inr (if length (stored_sigs s k @ [v]) = threshold s then Some (stored_sigs s k @ [v]) else None)"
      using Cons.prems by (intro threshold_one_root) auto
    then have reach: "reached (fst (parsig_store root ord k v s)) \<longleftrightarrow> Suc (length (stored_sigs s k)) = threshold s"
      using new(3) by (simp add: reached_def)
    have inv: "memdb_inv ?s'" using Cons.prems(4) new(1) by (rule memdb_push_inv)
    have "Suc (length (stored_sigs s k)) = card (ps_share_idx ` set (stored_sigs ?s' k))"
      using distinct_length_card_image [OF stored_sigs_share [OF inv], of k] by (simp add: sigs)
    also have "\<dots> \<le> card (ps_share_idx ` (set (stored_sigs s k) \<union> set (v # vs)))"
      by (intro card_mono) (auto simp: sigs)
    finally have le: "Suc (length (stored_sigs s k)) \<le> card (ps_share_idx ` (set (stored_sigs s k) \<union> set (v # vs)))" .
    have IH: "length (filter reached (store_seq root ord k vs ?s')) =
      (if Suc (length (stored_sigs s k)) < threshold s \<and> threshold s \<le> card (ps_share_idx ` (set (stored_sigs s k) \<union> set (v # vs)))
       then 1 else 0)"
      using Cons.IH [of ?s'] Cons.prems inv by (simp add: sigs Un_insert_left Un_insert_right)
    show ?thesis using IH reach le new(2) by (auto simp: case_prod_unfold)
  qed
qed

text \<open>
  C20. When all partial signatures of a validator's duty are over one message root, the
  threshold fires exactly once, as soon as the threshold number of shares is stored,
  however many shares follow, repeat or are rejected.
\<close>

theorem parsig_threshold_once:
  assumes "memdb_inv s" "0 < threshold s" "d_type (k_duty k) \<noteq> Signature" "stored_sigs s k = []"
    and "\<forall>v \<in> set vs. root (ps_signed_data v) = Inr r"
  shows "length (filter reached (store_seq root ord k vs s)) =
    (if threshold s \<le> card (ps_share_idx ` set vs) then 1 else 0)"
  using store_seq_reached [of s k vs root r ord] assms by simp

theorem parsig_threshold_once_witness:
  "length (filter reached (store_seq sample_root in_order sample_key
     [sample_share 5 1, sample_share 5 1, sample_share 5 3, sample_share 5 2] (memdb_new 2))) = 1"
proof -
  let ?vs = "[sample_share 5 1, sample_share 5 1, sample_share 5 3, sample_share 5 2]"
  have 1: "0 < threshold (memdb_new 2 :: (nat list, unit) memdb)" "d_type (k_duty sample_key) \<noteq> Signature"
    "stored_sigs (memdb_new 2 :: (nat list, unit) memdb) sample_key = []"
    by (simp_all add: memdb_new_def stored_sigs_def sample_key_def new_duty_def)
  have 2: "\<forall>v \<in> set ?vs. sample_root (ps_signed_data v) = Inr [5]"
    by (simp add: sample_root_def sample_share_def)
  have "card (ps_share_idx ` set ?vs) = 3" by (simp add: sample_share_def)
  then show ?thesis using parsig_threshold_once [OF memdb_inv_new 1 2] by (simp only: memdb_new_def memdb.simps) simp
qed

text \<open>Without that agreement it fires again: a third share over another root finds the first
  two still at the threshold.\<close>

lemma parsig_threshold_refires:
  "store_seq sample_root in_order sample_key [sample_share 5 1, sample_share 5 2, sample_share 6 3] (memdb_new 2)
     = [Inr Stored, Inr (Threshold [sample_share 5 1, sample_share 5 2]), Inr (Threshold [sample_share 5 1, sample_share 5 2])]"
  by code_simp

section \<open>Refinement of the shared contract\<close>

definition parsig_get :: "('d, 'e) memdb \<Rightarrow> parsig_key \<times> nat \<Rightarrow> 'd option" where
  "parsig_get s ki = map_option ps_signed_data (find (\<lambda>x. ps_share_idx x = snd ki) (stored_sigs s (fst ki)))"

definition parsig_put :: "('d \<Rightarrow> 'e + nat list) \<Rightarrow> hash_order \<Rightarrow> parsig_key \<times> nat \<Rightarrow> 'd \<Rightarrow> ('d, 'e) memdb \<Rightarrow> ('d, 'e) memdb" where
  "parsig_put root ord ki v s = snd (parsig_store root ord (fst ki) \<lparr>ps_signed_data = v, ps_share_idx = snd ki\<rparr> s)"

lemma find_append: "find P (xs @ ys) = (case find P xs of Some x \<Rightarrow> Some x | None \<Rightarrow> find P ys)"
  by (induction xs) auto

lemma parsig_get_push: "parsig_get (memdb_push k v s) ki =
  (if ki = (k, ps_share_idx v) \<and> parsig_get s ki = None then Some (ps_signed_data v) else parsig_get s ki)"
  by (cases ki) (auto simp: parsig_get_def stored_sigs_push find_append split: option.splits)

lemma parsig_get_None: "parsig_get s (k, i) = None \<longleftrightarrow> i \<notin> ps_share_idx ` set (stored_sigs s k)"
  by (auto simp: parsig_get_def find_None_iff)

lemma parsig_get_put:
  "parsig_get (parsig_put root ord ki v s) ki' = (if ki' = ki \<and> parsig_get s ki = None then Some v else parsig_get s ki')"
proof -
  obtain k i where ki: "ki = (k, i)" by fastforce
  let ?v = "\<lparr>ps_signed_data = v, ps_share_idx = i\<rparr>"
  show ?thesis
  proof (cases rule: parsig_store_cases [of s k ?v root ord])
    case (old x)
    then have "i \<in> ps_share_idx ` set (stored_sigs s k)" by force
    then have "parsig_get s ki \<noteq> None" by (simp add: ki parsig_get_None)
    then show ?thesis using old(3) by (auto simp: parsig_put_def ki)
  next
    case new
    then show ?thesis by (auto simp: parsig_put_def ki parsig_get_push)
  qed
qed

lemma parsig_get_trim:
  "memdb_inv s \<Longrightarrow> parsig_get (parsig_trim d s) ki = (if k_duty (fst ki) = d then None else parsig_get s ki)"
  by (simp add: parsig_get_def stored_sigs_def stored_sigs_trim)

interpretation parsigs: evicting_store memdb_inv "parsig_put root ord" parsig_get "\<lambda>_ _. True" parsig_trim "\<lambda>ki. k_duty (fst ki)"
  for root :: "'d \<Rightarrow> 'e + nat list" and ord
  by unfold_locales (simp_all add: parsig_put_def [abs_def] parsig_store_inv parsig_get_put [unfolded parsig_put_def] parsig_trim_inv parsig_get_trim)

text \<open>
  C21. The database implements write-once registers: after any sequence of stores and trims, a
  share's data is the first value stored for that duty, validator and share since the duty
  was last trimmed. In particular a conflicting later share never replaces an earlier one.
\<close>

theorem parsigdb_refines_registers:
  "parsig_get (store_run (parsig_put root ord) parsig_trim ops (memdb_new thr)) ki
     = register (\<lambda>ki. k_duty (fst ki)) ki ops None"
proof -
  have "parsig_get (memdb_new thr :: ('a, 'b) memdb) ki = None" by (simp add: parsig_get_def stored_sigs_def memdb_new_def)
  then show ?thesis by (subst parsigs.get_run [OF memdb_inv_new]) simp_all
qed

lemma store_loop_keeps:
  "parsig_get s ki = Some w \<Longrightarrow> parsig_get (snd (store_loop root ord d kvs out s)) ki = Some w"
proof (induction root ord d kvs out s rule: store_loop.induct)
  case (2 root ord d pk v rest out s)
  have "parsig_get (snd (parsig_store root ord \<lparr>k_duty = d, k_pub_key = pk\<rparr> v s)) ki = Some w"
    using "2.prems" parsig_get_put [of root ord "(\<lparr>k_duty = d, k_pub_key = pk\<rparr>, ps_share_idx v)" "ps_signed_data v" s ki]
    by (cases v) (auto simp: parsig_put_def split: if_splits)
  then show ?case using 2 by (auto split: prod.splits sum.splits store_outcome.splits)
qed simp

lemma parsig_store_accepted:
  assumes "parsig_store root ord k v s = (Inr r, s')"
  shows "parsig_get s' (k, ps_share_idx v) = Some (ps_signed_data v)"
proof (cases rule: parsig_store_cases [of s k v root ord])
  case (old x)
  then have "x = v" "s' = s" using assms by (auto split: if_splits)
  then have "find (\<lambda>x. ps_share_idx x = ps_share_idx v) (stored_sigs s k) = Some v"
    using assms old(1,2) find_None_iff [of "\<lambda>x. ps_share_idx x = ps_share_idx v" "stored_sigs s k"]
    by (cases "find (\<lambda>x. ps_share_idx x = ps_share_idx v) (stored_sigs s k)") (auto simp: parsig_store_def split: if_splits)
  then show ?thesis by (simp add: parsig_get_def \<open>s' = s\<close>)
next
  case new
  then have "s' = memdb_push k v s" using assms by simp
  then show ?thesis using new(1) by (simp add: parsig_get_push parsig_get_None)
qed

lemma store_loop_accepted:
  "fst (store_loop root ord d kvs out s) = Inr out' \<Longrightarrow> (pk, v) \<in> set kvs \<Longrightarrow>
   parsig_get (snd (store_loop root ord d kvs out s)) (\<lparr>k_duty = d, k_pub_key = pk\<rparr>, ps_share_idx v) = Some (ps_signed_data v)"
proof (induction root ord d kvs out s rule: store_loop.induct)
  case (2 root ord d pk' v' rest out s)
  obtain r s' where st: "parsig_store root ord \<lparr>k_duty = d, k_pub_key = pk'\<rparr> v' s = (Inr r, s')"
    using "2.prems"(1) by (auto split: prod.splits sum.splits)
  show ?case
  proof (cases "(pk, v) = (pk', v')")
    case True
    then show ?thesis using store_loop_keeps [OF parsig_store_accepted [OF st]] st by (auto split: store_outcome.splits)
  next
    case False
    then show ?thesis using 2 st by (auto split: store_outcome.splits)
  qed
qed simp

text \<open>
  An accepted set is stored completely: when storing a received set succeeds, every
  validator's partial signature of the set is in the database afterwards.
\<close>

lemma store_external_accepted:
  assumes st: "store_external root ord d ss s = (acts, Inr (), s')" and "(pk, v) \<in> set ss"
  shows "parsig_get s' (\<lparr>k_duty = d, k_pub_key = pk\<rparr>, ps_share_idx v) = Some (ps_signed_data v)"
proof -
  obtain out where "fst (store_loop root ord d (hash_iter (ord 0) ss) [] s) = Inr out"
    using st by (cases "store_loop root ord d (hash_iter (ord 0) ss) [] s") (auto simp: store_external_def split: sum.splits)
  moreover have "s' = snd (store_loop root ord d (hash_iter (ord 0) ss) [] s)"
    using store_external_state [of root ord d ss s] st by simp
  ultimately show ?thesis using store_loop_accepted assms(2) by fastforce
qed

end
