(* ===== verification/Sig_Agg.thy ===== *)
theory Sig_Agg
  imports Tbls Signed_Data Parsig_DB
begin

text \<open>
  The signature aggregator (crates/core/src/sigagg.rs): for every validator of a duty it combines
  the partial signatures that reached the threshold into one signature, puts it into the signed
  data, verifies it and hands the set to its subscribers. The verification against the beacon
  chain and the subscribers are arguments; spans and log lines are left out.
\<close>

section \<open>State and errors\<close>

datatype sigagg_error =
    InvalidAggregatorThreshold
  | EmptySet
  | RequireThresholdSignatures pubkey
  | InsufficientDistinctSignatures pubkey
  | SignatureFromCore pubkey signed_data_error
  | SetSignature pubkey signed_data_error
  | ThresholdAggregate pubkey tbls_error
  | InvalidEth2SignedData
  | PubkeyFromCore
  | AggregateVerificationFailed

type_synonym 'm agg_signed_set = "(pubkey \<times> 'm signed_data) list"

record 'm aggregator =
  ag_threshold :: nat
  ag_verify_fn :: "pubkey \<Rightarrow> 'm signed_data \<Rightarrow> sigagg_error + unit"
  ag_subs :: "(duty \<Rightarrow> 'm agg_signed_set \<Rightarrow> sigagg_error + unit) list"

definition aggregator_new :: "nat \<Rightarrow> (pubkey \<Rightarrow> 'm signed_data \<Rightarrow> sigagg_error + unit) \<Rightarrow> sigagg_error + 'm aggregator" where
  "aggregator_new thr verify_fn =
     (if thr = 0 then Inl InvalidAggregatorThreshold
      else Inr \<lparr>ag_threshold = thr, ag_verify_fn = verify_fn, ag_subs = []\<rparr>)"

definition aggregator_subscribe :: "(duty \<Rightarrow> 'm agg_signed_set \<Rightarrow> sigagg_error + unit) \<Rightarrow> 'm aggregator \<Rightarrow> 'm aggregator" where
  "aggregator_subscribe sub a = a\<lparr>ag_subs := ag_subs a @ [sub]\<rparr>"

section \<open>Aggregation\<close>

text \<open>The last signature of a share wins.\<close>

definition collect_sigs :: "pubkey \<Rightarrow> 'm signed_data par_signed_data list \<Rightarrow> sigagg_error + (nat \<times> nat list) list" where
  "collect_sigs pk par_sigs =
     res_fold (\<lambda>par_sig bls_sigs.
         case sd_signature (ps_signed_data par_sig) of
           Inl e \<Rightarrow> Inl (SignatureFromCore pk e)
         | Inr sig \<Rightarrow> Inr (AList.update (ps_share_idx par_sig) sig bls_sigs)) par_sigs []"

fun full_sig :: "'m signed_data par_signed_data list \<Rightarrow> 'm signed_data option" where
  "full_sig [] = None"
| "full_sig (ps # rest) =
     (case ps_signed_data ps of
        VersionedAttestation att \<Rightarrow> if va_validator_index att \<noteq> None then Some (ps_signed_data ps) else full_sig rest
      | _ \<Rightarrow> None)"

definition sig_template :: "'m signed_data par_signed_data list \<Rightarrow> 'm signed_data" where
  "sig_template par_sigs = (case full_sig par_sigs of Some d \<Rightarrow> d | None \<Rightarrow> ps_signed_data (hd par_sigs))"

definition aggregate_one ::
  "('s::field, 'p, 'q::ab_group_add) tbls \<Rightarrow> hash_order \<Rightarrow> 'm aggregator \<Rightarrow> pubkey \<Rightarrow> 'm signed_data par_signed_data list
    \<Rightarrow> sigagg_error + 'm signed_data" where
  "aggregate_one T ord a pk par_sigs =
     (if length par_sigs < ag_threshold a then Inl (RequireThresholdSignatures pk)
      else res_bind (collect_sigs pk par_sigs) (\<lambda>bls_sigs.
        if length bls_sigs < ag_threshold a then Inl (InsufficientDistinctSignatures pk)
        else case threshold_aggregate T ord bls_sigs of
          Inl e \<Rightarrow> Inl (ThresholdAggregate pk e)
        | Inr agg_bytes \<Rightarrow>
            (case sd_set_signature agg_bytes (sig_template par_sigs) of
               Inl e \<Rightarrow> Inl (SetSignature pk e)
             | Inr agg_signed \<Rightarrow> res_bind (ag_verify_fn a pk agg_signed) (\<lambda>_. Inr agg_signed))))"

text \<open>The result is the calls of the subscribers and the outcome.\<close>

definition sigagg_aggregate ::
  "('s::field, 'p, 'q::ab_group_add) tbls \<Rightarrow> hash_order \<Rightarrow> 'm aggregator \<Rightarrow> duty \<Rightarrow> (pubkey \<times> 'm signed_data par_signed_data list) list
    \<Rightarrow> (duty \<times> 'm agg_signed_set) list \<times> (sigagg_error + unit)" where
  "sigagg_aggregate T ord a d sigs =
     (if sigs = [] then ([], Inl EmptySet)
      else case res_fold (\<lambda>(pk, par_sigs) out.
            res_bind (aggregate_one T (\<lambda>site. ord (Suc site)) a pk par_sigs) (\<lambda>signed. Inr (AList.update pk signed out)))
          (hash_iter (ord 0) sigs) [] of
        Inl e \<Rightarrow> ([], Inl e)
      | Inr out \<Rightarrow> notify (d, out) (map (\<lambda>sub. sub d out) (ag_subs a)))"

section \<open>One validator\<close>

lemma collect_loop:
  assumes "distinct (map ps_share_idx ps)" "\<forall>p \<in> set ps. sd_signature (ps_signed_data p) = Inr (f p)"
    "set (keys m) \<inter> ps_share_idx ` set ps = {}"
  shows "res_fold (\<lambda>par_sig bls_sigs.
         case sd_signature (ps_signed_data par_sig) of
           Inl e \<Rightarrow> Inl (SignatureFromCore pk e)
         | Inr sig \<Rightarrow> Inr (AList.update (ps_share_idx par_sig) sig bls_sigs)) ps m
    = Inr (m @ map (\<lambda>p. (ps_share_idx p, f p)) ps)"
  using assms
proof (induction ps arbitrary: m)
  case (Cons p ps)
  then have "AList.update (ps_share_idx p) (f p) m = m @ [(ps_share_idx p, f p)]" by (simp add: update_fresh)
  then show ?case using Cons.IH [of "m @ [(ps_share_idx p, f p)]"] Cons.prems by auto
qed simp

lemma collect_sigs_eq:
  assumes "distinct (map ps_share_idx ps)" "\<forall>p \<in> set ps. sd_signature (ps_signed_data p) = Inr (f p)"
  shows "collect_sigs pk ps = Inr (map (\<lambda>p. (ps_share_idx p, f p)) ps)"
  unfolding collect_sigs_def using collect_loop [OF assms, of "[]"] by simp

lemma full_sig_mem: "full_sig ps = Some d \<Longrightarrow> d \<in> ps_signed_data ` set ps"
  by (induction ps) (auto split: signed_data.splits if_splits)

lemma sig_template_mem: "ps \<noteq> [] \<Longrightarrow> sig_template ps \<in> ps_signed_data ` set ps"
  by (auto simp: sig_template_def dest: full_sig_mem split: option.split)

text \<open>Partial signatures of the shares of a split key.\<close>

definition signed_by_shares ::
  "('s, 'p, 'q) tbls \<Rightarrow> (nat \<times> nat list) list \<Rightarrow> nat list \<Rightarrow> 'm signed_data par_signed_data \<Rightarrow> bool" where
  "signed_by_shares T shares msg p \<longleftrightarrow> (\<exists>share sig. (ps_share_idx p, share) \<in> set shares
     \<and> tbls_sign T share msg = Inr sig \<and> sd_signature (ps_signed_data p) = Inr sig)"

lemma aggregate_one_split:
  fixes T :: "('s::field, 'p::ab_group_add, 'q::ab_group_add) tbls"
  assumes "tbls_ok T" "inj_on (of_nat :: nat \<Rightarrow> 's) {0..n_total}" "threshold_split_insecure T sk n_total t rng = Inr shares"
    "ag_threshold a = t" "0 < t" "t \<le> length ps" "distinct (map ps_share_idx ps)" "\<forall>p \<in> set ps. signed_by_shares T shares msg p"
    "tbls_sign T sk msg = Inr sig" "sd_set_signature sig (sig_template ps) = Inr d"
  shows "aggregate_one T ord a pk ps = res_bind (ag_verify_fn a pk d) (\<lambda>_. Inr d)"
proof -
  define f where "f p = projr (sd_signature (ps_signed_data p))" for p :: "'a signed_data par_signed_data"
  let ?parts = "map (\<lambda>p. (ps_share_idx p, f p)) ps"
  have f: "\<forall>p \<in> set ps. sd_signature (ps_signed_data p) = Inr (f p)"
    using assms(8) by (auto simp: signed_by_shares_def f_def)
  have "threshold_aggregate T ord ?parts = tbls_sign T sk msg"
  proof (rule threshold_aggregate_split [OF assms(1-3)])
    show "\<forall>(i, sig) \<in> set ?parts. \<exists>share. (i, share) \<in> set shares \<and> tbls_sign T share msg = Inr sig"
      using assms(8) by (fastforce simp: signed_by_shares_def f_def)
  qed (use assms(6,7) in \<open>simp_all add: comp_def\<close>)
  then show ?thesis
    using assms(4,6,9,10) collect_sigs_eq [OF assms(7) f] by (simp add: aggregate_one_def)
qed

section \<open>A whole duty\<close>

text \<open>
  C38. Aggregating a duty is all or nothing. Either the aggregation of one of the validators fails,
  and then its error is returned and no subscriber is called; or every validator's signatures
  aggregate, and then the subscribers are called one after the other with the set that holds
  exactly the aggregate of each validator, until one of them fails.
\<close>

theorem sigagg_all_or_nothing:
  fixes T :: "('s::field, 'p, 'q::ab_group_add) tbls"
  assumes "distinct (keys sigs)" "sigs \<noteq> []"
  shows "(\<exists>pk ps e. (pk, ps) \<in> set sigs \<and> aggregate_one T (\<lambda>site. ord (Suc site)) a pk ps = Inl e \<and> sigagg_aggregate T ord a d sigs = ([], Inl e))
    \<or> (\<exists>out. (\<forall>pk signed. map_of out pk = Some signed \<longleftrightarrow> (\<exists>ps. (pk, ps) \<in> set sigs \<and> aggregate_one T (\<lambda>site. ord (Suc site)) a pk ps = Inr signed))
          \<and> set (keys out) = set (keys sigs)
          \<and> sigagg_aggregate T ord a d sigs = notify (d, out) (map (\<lambda>sub. sub d out) (ag_subs a)))"
proof -
  let ?one = "aggregate_one T (\<lambda>site. ord (Suc site)) a"
  let ?g = "\<lambda>e. ?one (fst e) (snd e)" and ?vis = "hash_iter (ord 0) sigs"
  let ?loop = "res_fold (\<lambda>e out. res_bind (?g e) (\<lambda>signed. Inr (AList.update (fst e) signed out))) ?vis []"
  have agg: "sigagg_aggregate T ord a d sigs =
      (case ?loop of Inl e \<Rightarrow> ([], Inl e) | Inr out \<Rightarrow> notify (d, out) (map (\<lambda>sub. sub d out) (ag_subs a)))"
    using assms(2) by (simp add: sigagg_aggregate_def case_prod_unfold)
  show ?thesis
  proof (cases ?loop)
    case (Inl e)
    then obtain x where "x \<in> set ?vis" "?g x = Inl e" using res_fold_update_error [where g = ?g and kf = fst, OF Inl] by (elim bexE) (erule (1) that)
    then show ?thesis using Inl by (intro disjI1 exI [of _ "fst x"] exI [of _ "snd x"] exI [of _ e]) (simp add: agg)
  next
    case (Inr out)
    then obtain vs where vs: "list_all2 (\<lambda>x v. ?g x = Inr v) ?vis vs" using res_fold_update_values [where g = ?g and kf = fst, OF Inr] by (elim exE) (erule that)
    have dist: "distinct (map fst ?vis)" using assms(1) by simp
    have out: "out = zip (map fst ?vis) vs" using res_fold_update [OF vs dist, of "[]"] Inr by simp
    have len: "length ?vis = length vs" using vs by (rule list_all2_lengthD)
    have "map_of out pk = Some signed \<longleftrightarrow> (\<exists>ps. (pk, ps) \<in> set sigs \<and> ?one pk ps = Inr signed)" for pk signed
    proof -
      have "map_of out pk = Some signed \<longleftrightarrow> (\<exists>i < length vs. fst (?vis ! i) = pk \<and> vs ! i = signed)"
        using dist len map_of_eq_Some_iff [of out pk signed] by (auto simp: out in_set_zip) (metis len nth_map)
      also have "\<dots> \<longleftrightarrow> (\<exists>i < length vs. fst (?vis ! i) = pk \<and> ?g (?vis ! i) = Inr signed)"
        using list_all2_nthD2 [OF vs] by auto
      also have "\<dots> \<longleftrightarrow> (\<exists>e \<in> set ?vis. fst e = pk \<and> ?g e = Inr signed)"
        unfolding len [symmetric] by (metis in_set_conv_nth)
      also have "\<dots> \<longleftrightarrow> (\<exists>ps. (pk, ps) \<in> set sigs \<and> ?one pk ps = Inr signed)" by force
      finally show ?thesis .
    qed
    moreover have "set (keys out) = set (keys sigs)"
      using len by (simp add: out)
    ultimately show ?thesis using Inr by (intro disjI2 exI [of _ out]) (simp add: agg)
  qed
qed

definition sample_aggregator :: "nat list aggregator" where
  "sample_aggregator = \<lparr>ag_threshold = 2, ag_verify_fn = (\<lambda>_ _. Inr ()), ag_subs = [\<lambda>_ _. Inr ()]\<rparr>"

definition sample_partial :: "nat \<Rightarrow> nat \<Rightarrow> nat list signed_data par_signed_data" where
  "sample_partial i sig = \<lparr>ps_signed_data = PlainSigned \<lparr>sm_message = [7], sm_signature = [sig]\<rparr>, ps_share_idx = i\<rparr>"

theorem sigagg_all_or_nothing_witness:
  "\<exists>out. map_of out [9] = Some (PlainSigned \<lparr>sm_message = [7], sm_signature = [3]\<rparr>)
    \<and> sigagg_aggregate sample_tbls in_order sample_aggregator (new_duty 1 Attester) [([9], [sample_partial 3 2, sample_partial 1 1])]
      = ([(new_duty 1 Attester, out)], Inr ())"
proof -
  let ?sigs = "[([9], [sample_partial 3 2, sample_partial 1 1])]"
  have one: "aggregate_one sample_tbls (\<lambda>site. in_order (Suc site)) sample_aggregator [9] [sample_partial 3 2, sample_partial 1 1]
      = Inr (PlainSigned \<lparr>sm_message = [7], sm_signature = [3]\<rparr>)" by code_simp
  have sigs: "distinct (keys ?sigs)" "?sigs \<noteq> []" by simp_all
  have subs: "ag_subs sample_aggregator = [\<lambda>_ _. Inr ()]" by (simp add: sample_aggregator_def)
  from sigagg_all_or_nothing [OF sigs, of sample_tbls in_order sample_aggregator "new_duty 1 Attester"] show ?thesis
    by (auto simp: one [unfolded One_nat_def] subs)
qed

end
