(* ===== verification/Aggsig_DB.thy ===== *)
theory Aggsig_DB
  imports Duty_Types Store
begin

text \<open>
  The in-memory database of aggregated signatures (crates/core/src/aggsigdb): an actor that
  stores the signed data of a duty per validator, refuses to overwrite it, and answers the
  readers that wait for it. A reader is the identity of its reply channel; whether a reader
  has gone away is an argument of each step.
\<close>

section \<open>State and actions\<close>

datatype agg_error = MismatchingData | Terminated

record 'd aggsig =
  ag_entries :: "(duty \<times> (pubkey \<times> 'd) list) list"
  ag_waiters :: "((duty \<times> pubkey) \<times> nat list) list"

definition aggsig_new :: "'d aggsig" where
  "aggsig_new = \<lparr>ag_entries = [], ag_waiters = []\<rparr>"

datatype 'd agg_action =
    AggAddDeadline duty
  | Reply nat 'd
  | StoreReply nat "agg_error + unit"

definition for_duty :: "'d aggsig \<Rightarrow> duty \<Rightarrow> (pubkey \<times> 'd) list" where
  "for_duty s d = (case map_of (ag_entries s) d of None \<Rightarrow> [] | Some m \<Rightarrow> m)"

definition waiters_for :: "'d aggsig \<Rightarrow> duty \<times> pubkey \<Rightarrow> nat list" where
  "waiters_for s k = (case map_of (ag_waiters s) k of None \<Rightarrow> [] | Some ws \<Rightarrow> ws)"

definition agg_get :: "'d aggsig \<Rightarrow> duty \<times> pubkey \<Rightarrow> 'd option" where
  "agg_get s k = map_of (for_duty s (fst k)) (snd k)"

section \<open>Operations\<close>

text \<open>A vacant entry is filled and its readers are answered.\<close>

definition agg_insert :: "duty \<Rightarrow> pubkey \<Rightarrow> 'd \<Rightarrow> 'd aggsig \<Rightarrow> 'd aggsig" where
  "agg_insert d pk v s =
     s\<lparr>ag_entries := AList.update d (AList.update pk v (for_duty s d)) (ag_entries s),
       ag_waiters := AList.delete (d, pk) (ag_waiters s)\<rparr>"

fun agg_store_loop ::
  "(nat \<Rightarrow> bool) \<Rightarrow> duty \<Rightarrow> (pubkey \<times> 'd) list \<Rightarrow> 'd aggsig \<Rightarrow> 'd agg_action list \<times> (agg_error + unit) \<times> 'd aggsig" where
  "agg_store_loop closed d [] s = ([], Inr (), s)"
| "agg_store_loop closed d ((pk, v) # rest) s =
     (case map_of (for_duty s d) pk of
        None \<Rightarrow>
          let replies = map (\<lambda>w. Reply w v) (filter (\<lambda>w. \<not> closed w) (waiters_for s (d, pk)))
          in (case agg_store_loop closed d rest (agg_insert d pk v s) of (acts, r, s') \<Rightarrow> (replies @ acts, r, s'))
      | Some w \<Rightarrow> if w \<noteq> v then ([], Inl MismatchingData, s) else agg_store_loop closed d rest s)"

definition agg_store ::
  "(nat \<Rightarrow> bool) \<Rightarrow> hash_order \<Rightarrow> duty \<Rightarrow> (pubkey \<times> 'd) list \<Rightarrow> 'd aggsig
     \<Rightarrow> 'd agg_action list \<times> (agg_error + unit) \<times> 'd aggsig" where
  "agg_store closed ord d ss s =
     (if ss = [] then ([], Inr (), s)
      else (case agg_store_loop closed d (hash_iter (ord 0) ss) (s\<lparr>ag_entries := AList.update d (for_duty s d) (ag_entries s)\<rparr>) of
              (acts, r, s') \<Rightarrow> (AggAddDeadline d # acts, r, s')))"

definition agg_evict :: "duty \<Rightarrow> 'd aggsig \<Rightarrow> 'd aggsig" where
  "agg_evict d s = s\<lparr>ag_entries := AList.delete d (ag_entries s)\<rparr>"

definition trim_readers :: "(nat \<Rightarrow> bool) \<Rightarrow> 'd aggsig \<Rightarrow> 'd aggsig" where
  "trim_readers closed s =
     s\<lparr>ag_waiters := filter (\<lambda>(k, ws). ws \<noteq> []) (map (\<lambda>(k, ws). (k, filter (\<lambda>w. \<not> closed w) ws)) (ag_waiters s))\<rparr>"

text \<open>The actor's loop: a cancellation or the loss of all handles stops it.\<close>

datatype 'd agg_event =
    AggCancelled
  | HandlesDropped
  | AggExpired duty
  | StoreMsg duty "(pubkey \<times> 'd) list" nat
  | WaitForMsg duty pubkey nat

definition wait_for_msg :: "duty \<times> pubkey \<Rightarrow> nat \<Rightarrow> 'd aggsig \<Rightarrow> 'd agg_action list \<times> 'd aggsig" where
  "wait_for_msg k w s =
     (case agg_get s k of
        Some found \<Rightarrow> ([Reply w found], s)
      | None \<Rightarrow> ([], s\<lparr>ag_waiters := entry_push k w (ag_waiters s)\<rparr>))"

definition agg_step ::
  "(nat \<Rightarrow> bool) \<Rightarrow> hash_order \<Rightarrow> 'd agg_event \<Rightarrow> 'd aggsig \<Rightarrow> ('d agg_action list \<times> 'd aggsig) option" where
  "agg_step closed ord ev s =
     map_option (\<lambda>(acts, s'). (acts, trim_readers closed s'))
       (case ev of
          AggCancelled \<Rightarrow> None
        | HandlesDropped \<Rightarrow> None
        | AggExpired d \<Rightarrow> Some ([], agg_evict d s)
        | StoreMsg d ss rid \<Rightarrow> (case agg_store closed ord d ss s of (acts, r, s') \<Rightarrow> Some (acts @ [StoreReply rid r], s'))
        | WaitForMsg d pk w \<Rightarrow> Some (wait_for_msg (d, pk) w s))"

text \<open>The handle's calls: the request may not be accepted and the reply channel may be
  dropped; both are reported as termination.\<close>

definition handle_store :: "bool \<Rightarrow> (agg_error + unit) option \<Rightarrow> agg_error + unit" where
  "handle_store sent response = (if \<not> sent then Inl Terminated else res_bind (ok_or Terminated response) id)"

definition handle_wait_for :: "bool \<Rightarrow> 'd option \<Rightarrow> agg_error + 'd" where
  "handle_wait_for sent response = (if \<not> sent then Inl Terminated else ok_or Terminated response)"

section \<open>Reads after the operations\<close>

lemma for_duty_insert: "for_duty (agg_insert d pk v s) d' = (if d' = d then AList.update pk v (for_duty s d) else for_duty s d')"
  by (simp add: for_duty_def agg_insert_def update_conv')

lemma agg_get_insert: "agg_get (agg_insert d pk v s) k = (if k = (d, pk) then Some v else agg_get s k)"
  by (cases k) (simp add: agg_get_def for_duty_insert update_conv')

lemma waiters_for_insert: "waiters_for (agg_insert d pk v s) k = (if k = (d, pk) then [] else waiters_for s k)"
  by (simp add: waiters_for_def agg_insert_def delete_conv')

lemma agg_get_evict: "agg_get (agg_evict d s) k = (if fst k = d then None else agg_get s k)"
  by (simp add: agg_get_def for_duty_def agg_evict_def delete_conv')

lemma waiters_evict: "ag_waiters (agg_evict d s) = ag_waiters s"
  by (simp add: agg_evict_def)

lemma waiters_for_evict: "waiters_for (agg_evict d s) k = waiters_for s k"
  by (simp add: waiters_for_def waiters_evict)

lemma agg_open_entry:
  "agg_get (s\<lparr>ag_entries := AList.update d (for_duty s d) (ag_entries s)\<rparr>) k = agg_get s k"
  "waiters_for (s\<lparr>ag_entries := m\<rparr>) k = waiters_for s k"
  by (simp_all add: agg_get_def for_duty_def waiters_for_def update_conv')

section \<open>The invariant\<close>

text \<open>No reader waits for data that is present.\<close>

definition agg_inv :: "'d aggsig \<Rightarrow> bool" where
  "agg_inv s \<longleftrightarrow> distinct (keys (ag_waiters s)) \<and> (\<forall>k. waiters_for s k \<noteq> [] \<longrightarrow> agg_get s k = None)"

lemma agg_insert_inv: "agg_inv s \<Longrightarrow> agg_inv (agg_insert d pk v s)"
  by (auto simp: agg_inv_def agg_get_insert waiters_for_insert) (simp add: agg_insert_def distinct_delete)

lemma agg_open_entry_inv: "agg_inv s \<Longrightarrow> agg_inv (s\<lparr>ag_entries := AList.update d (for_duty s d) (ag_entries s)\<rparr>)"
  by (simp add: agg_inv_def agg_open_entry)

lemma agg_store_loop_inv: "agg_inv s \<Longrightarrow> agg_inv (snd (snd (agg_store_loop closed d kvs s)))"
proof (induction closed d kvs s rule: agg_store_loop.induct)
  case (2 closed d pk v rest s)
  then show ?case by (auto simp: agg_insert_inv split: option.splits prod.splits)
qed simp

lemma agg_store_inv: "agg_inv s \<Longrightarrow> agg_inv (snd (snd (agg_store closed ord d ss s)))"
  using agg_store_loop_inv [OF agg_open_entry_inv, of s closed d "hash_iter (ord 0) ss" d]
  by (auto simp: agg_store_def split: prod.splits)

lemma agg_evict_inv: "agg_inv s \<Longrightarrow> agg_inv (agg_evict d s)"
  by (simp add: agg_inv_def agg_get_evict waiters_for_evict waiters_evict)

lemma map_of_retain:
  "distinct (keys m) \<Longrightarrow> map_of (filter (\<lambda>(k, ws). ws \<noteq> []) (map (\<lambda>(k, ws). (k, filter P ws)) m)) k
     = (case map_of m k of None \<Rightarrow> None | Some ws \<Rightarrow> if filter P ws = [] then None else Some (filter P ws))"
proof (induction m)
  case (Cons x m)
  obtain k' ws where x: "x = (k', ws)" by fastforce
  show ?case
  proof (cases "k' = k")
    case True
    then have "map_of m k = None" using Cons.prems by (simp add: x map_of_eq_None_iff)
    then show ?thesis using Cons True by (simp add: x del: filter_empty_conv)
  next
    case False
    then show ?thesis using Cons by (simp add: x del: filter_empty_conv)
  qed
qed simp

lemma waiters_for_trim:
  assumes "distinct (keys (ag_waiters s))"
  shows "waiters_for (trim_readers closed s) k = filter (\<lambda>w. \<not> closed w) (waiters_for s k)"
  by (cases "map_of (ag_waiters s) k") (simp_all add: waiters_for_def trim_readers_def map_of_retain [OF assms] del: filter_empty_conv)

lemma agg_get_trim: "agg_get (trim_readers closed s) k = agg_get s k"
  by (simp add: agg_get_def for_duty_def trim_readers_def)

lemma distinct_trim: "distinct (keys (ag_waiters s)) \<Longrightarrow> distinct (keys (ag_waiters (trim_readers closed s)))"
  by (simp add: trim_readers_def distinct_map_filter comp_def case_prod_unfold)

lemma trim_readers_inv: "agg_inv s \<Longrightarrow> agg_inv (trim_readers closed s)"
  unfolding agg_inv_def by (metis distinct_trim agg_get_trim waiters_for_trim filter.simps(1))

lemma waiters_for_push: "waiters_for (s\<lparr>ag_waiters := entry_push k w (ag_waiters s)\<rparr>) k' = waiters_for s k' @ (if k' = k then [w] else [])"
  by (simp add: waiters_for_def map_of_entry_push)

lemma wait_for_msg_inv: "agg_inv s \<Longrightarrow> agg_inv (snd (wait_for_msg k w s))"
proof (cases "agg_get s k")
  case None
  assume "agg_inv s"
  moreover have "agg_get (s\<lparr>ag_waiters := m\<rparr>) k' = agg_get s k'" for m k' by (simp add: agg_get_def for_duty_def)
  ultimately show ?thesis using None by (auto simp: wait_for_msg_def agg_inv_def waiters_for_push)
qed (simp add: wait_for_msg_def)

lemma agg_store_loop_keeps: "agg_get s k = Some w \<Longrightarrow> agg_get (snd (snd (agg_store_loop closed d kvs s))) k = Some w"
proof (induction closed d kvs s rule: agg_store_loop.induct)
  case (2 closed d pk v rest s)
  have "map_of (for_duty s d) pk = None \<Longrightarrow> k \<noteq> (d, pk)" using "2.prems" by (auto simp: agg_get_def)
  then show ?case using 2 by (auto simp: agg_get_insert split: option.splits prod.splits)
qed simp

text \<open>How one pass over a set treats the readers.\<close>

lemma agg_store_loop_waiters:
  assumes "agg_store_loop closed d kvs s = (acts, r, s')"
  shows "w \<in> set (waiters_for s k) \<Longrightarrow> closed w \<or> w \<in> set (waiters_for s' k) \<or> (\<exists>v. Reply w v \<in> set acts \<and> agg_get s' k = Some v)"
    and "Reply w v \<in> set acts \<Longrightarrow> \<exists>k. w \<in> set (waiters_for s k) \<and> agg_get s' k = Some v"
  using assms
proof (induction closed d kvs s arbitrary: acts rule: agg_store_loop.induct)
  case (2 closed d pk v' rest s)
  {
    case 1
    show ?case
    proof (cases "map_of (for_duty s d) pk")
      case None
      then obtain acts' where l: "agg_store_loop closed d rest (agg_insert d pk v' s) = (acts', r, s')"
        "acts = map (\<lambda>w. Reply w v') (filter (\<lambda>w. \<not> closed w) (waiters_for s (d, pk))) @ acts'"
        using 1(2) by (auto split: prod.splits)
      have "agg_get s' (d, pk) = Some v'"
        using agg_store_loop_keeps [of "agg_insert d pk v' s" "(d, pk)" v' closed d rest] l(1) by (simp add: agg_get_insert)
      then show ?thesis using "2.IH"(1) [OF None refl _ l(1)] 1(1) l(2) by (cases "k = (d, pk)") (auto simp: waiters_for_insert)
    next
      case (Some x)
      then show ?thesis using "2.IH"(3) [OF Some] 1 by (auto split: if_splits)
    qed
  next
    case 2
    show ?case
    proof (cases "map_of (for_duty s d) pk")
      case None
      then obtain acts' where l: "agg_store_loop closed d rest (agg_insert d pk v' s) = (acts', r, s')"
        "acts = map (\<lambda>w. Reply w v') (filter (\<lambda>w. \<not> closed w) (waiters_for s (d, pk))) @ acts'"
        using 2(2) by (auto split: prod.splits)
      have "agg_get s' (d, pk) = Some v'"
        using agg_store_loop_keeps [of "agg_insert d pk v' s" "(d, pk)" v' closed d rest] l(1) by (simp add: agg_get_insert)
      moreover have "\<exists>k. w \<in> set (waiters_for s k) \<and> agg_get s' k = Some v" if "Reply w v \<in> set acts'"
        using "2.IH"(2) [OF None refl that l(1)] by (auto simp: waiters_for_insert split: if_splits)
      ultimately show ?thesis using 2(1) l(2) by auto
    next
      case (Some x)
      then show ?thesis using "2.IH"(4) [OF Some] 2 by (auto split: if_splits)
    qed
  }
qed simp_all

section \<open>Readers\<close>

definition reader_kept :: "(nat \<Rightarrow> bool) \<Rightarrow> 'd aggsig \<Rightarrow> 'd aggsig \<Rightarrow> 'd agg_action list \<Rightarrow> bool" where
  "reader_kept closed s s' acts \<longleftrightarrow> (\<forall>k. \<forall>w \<in> set (waiters_for s k).
     closed w \<or> w \<in> set (waiters_for s' k) \<or> (\<exists>v. Reply w v \<in> set acts \<and> agg_get s' k = Some v))"

lemma reader_kept_trim:
  assumes "agg_inv s'" shows "reader_kept closed s (trim_readers closed s') acts \<longleftrightarrow> reader_kept closed s s' acts"
proof -
  have "distinct (keys (ag_waiters s'))" using assms by (simp add: agg_inv_def)
  then show ?thesis unfolding reader_kept_def agg_get_trim waiters_for_trim [OF \<open>distinct (keys (ag_waiters s'))\<close>] by auto
qed

definition replies_true :: "'d aggsig \<Rightarrow> 'd aggsig \<Rightarrow> 'd agg_action list \<Rightarrow> bool" where
  "replies_true s s' acts \<longleftrightarrow> (\<forall>w v. Reply w v \<in> set acts \<longrightarrow> (\<exists>k. w \<in> set (waiters_for s k) \<and> agg_get s' k = Some v))"

lemma agg_store_readers:
  assumes "agg_store closed ord d ss s = (acts, r, s')"
  shows "reader_kept closed s s' acts \<and> replies_true s s' acts"
proof (cases "ss = []")
  case True
  then show ?thesis using assms by (auto simp: agg_store_def reader_kept_def replies_true_def)
next
  case False
  let ?s0 = "s\<lparr>ag_entries := AList.update d (for_duty s d) (ag_entries s)\<rparr>"
  obtain acts' where l: "agg_store_loop closed d (hash_iter (ord 0) ss) ?s0 = (acts', r, s')" "acts = AggAddDeadline d # acts'"
    using assms False by (auto simp: agg_store_def split: prod.splits)
  note loop = agg_store_loop_waiters [OF l(1), unfolded agg_open_entry(2)]
  have "reader_kept closed s s' acts" using loop(1) l(2) by (auto simp: reader_kept_def)
  moreover have "replies_true s s' acts" using loop(2) l(2) by (auto simp: replies_true_def)
  ultimately show ?thesis by simp
qed

lemma reader_kept_append: "reader_kept closed s s' acts \<Longrightarrow> reader_kept closed s s' (acts @ acts')"
  by (auto simp: reader_kept_def)

lemma wait_for_readers:
  assumes "wait_for_msg k w s = (acts, s')"
  shows "reader_kept closed s s' acts" and "Reply w' v \<in> set acts \<Longrightarrow> w' = w \<and> agg_get s' k = Some v"
  using assms by (auto simp: wait_for_msg_def reader_kept_def waiters_for_push split: option.splits)

lemma agg_step_kept:
  assumes "agg_inv s" "agg_step closed ord ev s = Some (acts, s')"
  shows "agg_inv s' \<and> reader_kept closed s s' acts
    \<and> (\<forall>w v. Reply w v \<in> set acts \<longrightarrow>
         (\<exists>k. (w \<in> set (waiters_for s k) \<or> ev = WaitForMsg (fst k) (snd k) w) \<and> agg_get s' k = Some v))"
proof (cases ev)
  case (AggExpired d)
  then have "acts = []" "s' = trim_readers closed (agg_evict d s)" using assms(2) by (simp_all add: agg_step_def)
  then show ?thesis
    using assms(1) by (simp add: trim_readers_inv agg_evict_inv reader_kept_trim) (simp add: reader_kept_def waiters_for_evict)
next
  case (StoreMsg d ss rid)
  then obtain acts' r s1 where st: "agg_store closed ord d ss s = (acts', r, s1)" "acts = acts' @ [StoreReply rid r]"
    "s' = trim_readers closed s1"
    using assms(2) by (auto simp: agg_step_def split: prod.splits)
  then have "agg_inv s1" using agg_store_inv [OF assms(1), of closed ord d ss] by simp
  then show ?thesis
    using agg_store_readers [OF st(1)] st(2,3) unfolding replies_true_def
    by (auto simp: trim_readers_inv reader_kept_trim agg_get_trim reader_kept_append) blast
next
  case (WaitForMsg d pk w)
  then obtain s1 where st: "wait_for_msg (d, pk) w s = (acts, s1)" "s' = trim_readers closed s1"
    using assms(2) by (auto simp: agg_step_def split: prod.splits)
  then have "agg_inv s1" using wait_for_msg_inv [OF assms(1), of "(d, pk)" w] by simp
  then show ?thesis
    using wait_for_readers [OF st(1)] st(2) WaitForMsg
    by (auto simp: trim_readers_inv reader_kept_trim agg_get_trim) blast
qed (use assms(2) in \<open>simp_all add: agg_step_def\<close>)

text \<open>
  C23. No reader is lost and no reader is told a wrong value. The invariant that nobody waits
  for data that is present is kept by every step of the actor. A reader that waits before
  the step and has not gone away still waits after it or has been answered with the value
  that is now stored under its key; and every answer of the step goes to a reader of a key
  with exactly the stored value of that key.
\<close>

theorem agg_step_readers:
  assumes "agg_inv s" "agg_step closed ord ev s = Some (acts, s')"
  shows "agg_inv s' \<and> reader_kept closed s s' acts
    \<and> (\<forall>w v. Reply w v \<in> set acts \<longrightarrow>
         (\<exists>k. (w \<in> set (waiters_for s k) \<or> ev = WaitForMsg (fst k) (snd k) w) \<and> agg_get s' k = Some v))"
  using agg_step_kept [OF assms] .

lemma agg_inv_new: "agg_inv aggsig_new"
  by (simp add: agg_inv_def aggsig_new_def waiters_for_def)

definition sample_waiting :: "nat aggsig" where
  "sample_waiting = snd (wait_for_msg (new_duty 1 Attester, [7]) 100 aggsig_new)"

lemma sample_waiting_inv: "agg_inv sample_waiting"
  by (simp add: sample_waiting_def wait_for_msg_inv agg_inv_new)

theorem agg_step_readers_witness:
  "\<exists>acts s'. agg_step (\<lambda>_. False) in_order (StoreMsg (new_duty 1 Attester) [([7], 5)] 0) sample_waiting = Some (acts, s')
     \<and> agg_inv s' \<and> Reply 100 5 \<in> set acts"
proof -
  let ?r = "agg_step (\<lambda>_. False) in_order (StoreMsg (new_duty 1 Attester) [([7], 5)] 0) sample_waiting"
  have ev: "map_option fst ?r = Some [AggAddDeadline (new_duty 1 Attester), Reply 100 5, StoreReply 0 (Inr ())]" by code_simp
  then obtain s' where "?r = Some ([AggAddDeadline (new_duty 1 Attester), Reply 100 5, StoreReply 0 (Inr ())], s')" by auto
  then show ?thesis using agg_step_readers [OF sample_waiting_inv, of "\<lambda>_. False" in_order] by simp
qed

text \<open>A run of the actor. The argument of each step says which readers have gone away.\<close>

fun agg_run :: "hash_order \<Rightarrow> ((nat \<Rightarrow> bool) \<times> 'd agg_event) list \<Rightarrow> 'd aggsig \<Rightarrow> ('d agg_action list \<times> 'd aggsig) option" where
  "agg_run ord [] s = Some ([], s)"
| "agg_run ord ((closed, ev) # evs) s =
     (case agg_step closed ord ev s of
        None \<Rightarrow> None
      | Some (acts, s') \<Rightarrow> map_option (\<lambda>(acts', s''). (acts @ acts', s'')) (agg_run ord evs s'))"

text \<open>
  C24. A reader is answered: if it waits for a key, does not go away, and the key's data is
  present at the end of a run of the actor, then the reader was sent a value during the run.
\<close>

theorem agg_reader_answered:
  assumes "agg_inv s" "w \<in> set (waiters_for s k)" "\<forall>(closed, ev) \<in> set evs. \<not> closed w"
    and "agg_run ord evs s = Some (acts, s')" "agg_get s' k = Some v"
  shows "\<exists>v'. Reply w v' \<in> set acts"
  using assms
proof (induction evs arbitrary: s acts)
  case Nil
  then have "waiters_for s k \<noteq> []" "agg_get s k \<noteq> None" by auto
  then show ?case using Nil.prems(1) by (metis agg_inv_def)
next
  case (Cons e evs)
  obtain closed ev where e: "e = (closed, ev)" by fastforce
  obtain acts1 s1 acts2 where st: "agg_step closed ord ev s = Some (acts1, s1)" "agg_run ord evs s1 = Some (acts2, s')" "acts = acts1 @ acts2"
    using Cons.prems(4) by (auto simp: e split: option.splits prod.splits)
  have step: "agg_inv s1" "reader_kept closed s s1 acts1" using agg_step_kept [OF Cons.prems(1) st(1)] by simp_all
  moreover have "\<not> closed w" using Cons.prems(3) by (simp add: e)
  ultimately consider "w \<in> set (waiters_for s1 k)" | x where "Reply w x \<in> set acts1"
    using Cons.prems(2) unfolding reader_kept_def by blast
  then show ?case
  proof cases
    case 1
    then show ?thesis using Cons.IH [OF step(1) _ _ st(2)] Cons.prems(3,5) st(3) by auto
  next
    case 2
    then show ?thesis using st(3) by auto
  qed
qed

theorem agg_reader_answered_witness:
  "\<exists>acts s'. agg_run in_order [(\<lambda>_. False, AggExpired (new_duty 0 Attester)), (\<lambda>_. False, StoreMsg (new_duty 1 Attester) [([7], 5)] 0)]
     sample_waiting = Some (acts, s') \<and> agg_get s' (new_duty 1 Attester, [7]) = Some 5 \<and> (\<exists>v'. Reply 100 v' \<in> set acts)"
proof -
  let ?evs = "[(\<lambda>_. False, AggExpired (new_duty 0 Attester)), (\<lambda>_. False, StoreMsg (new_duty 1 Attester) [([7], 5)] 0)]"
  have "map_option (\<lambda>(acts, s'). agg_get s' (new_duty 1 Attester, [7])) (agg_run in_order ?evs sample_waiting) = Some (Some 5)"
    by code_simp
  then obtain acts s' where run: "agg_run in_order ?evs sample_waiting = Some (acts, s')"
    "agg_get s' (new_duty 1 Attester, [7]) = Some 5"
    by auto
  have "100 \<in> set (waiters_for sample_waiting (new_duty 1 Attester, [7]))" by code_simp
  then show ?thesis using agg_reader_answered [OF sample_waiting_inv _ _ run] run by auto
qed

section \<open>Refinement of the shared contract\<close>

definition agg_put :: "(nat \<Rightarrow> bool) \<Rightarrow> hash_order \<Rightarrow> duty \<times> pubkey \<Rightarrow> 'd \<Rightarrow> 'd aggsig \<Rightarrow> 'd aggsig" where
  "agg_put closed ord k v s = snd (snd (agg_store closed ord (fst k) [(snd k, v)] s))"

lemma hash_iter_single [simp]: "hash_iter ord [x] = [x]"
proof -
  have "mset (hash_iter ord [x]) = {#x#}" by simp
  then show ?thesis by (metis mset_single_iff_right)
qed

lemma agg_get_put:
  "agg_get (agg_put closed ord k v s) k' = (if k' = k \<and> agg_get s k = None then Some v else agg_get s k')"
proof -
  let ?s0 = "s\<lparr>ag_entries := AList.update (fst k) (for_duty s (fst k)) (ag_entries s)\<rparr>"
  have "map_of (for_duty ?s0 (fst k)) (snd k) = agg_get s k"
    using agg_open_entry(1) [where s = s and d = "fst k" and k = k] by (simp add: agg_get_def)
  then show ?thesis
    by (cases "agg_get s k") (auto simp: agg_put_def agg_store_def agg_get_insert agg_open_entry)
qed

interpretation aggsigs: evicting_store agg_inv "agg_put closed ord" agg_get "\<lambda>_ _. True" agg_evict fst
  for closed ord
proof
  show "agg_inv (agg_put closed ord k v s)" if "agg_inv s" for k and v :: 'a and s
    unfolding agg_put_def by (rule agg_store_inv [OF that])
qed (simp_all add: agg_get_put agg_evict_inv agg_get_evict)


end
