(* ===== verification/Duty_DB.thy ===== *)
theory Duty_DB
  imports Deadline Store Signed_Data
begin

text \<open>
  The in-memory database of unsigned duty data (crates/core/src/dutydb/memory.rs) with the
  data it stores (crates/core/src/signeddata.rs, unsigneddata.rs): clash checks on every
  store, eviction of expired duties, and the lookups of the blocking queries. Tree-hash
  roots are an argument, as are the outcome of registering the duty with the deadliner and
  the order in which a set is visited.
\<close>

section \<open>Unsigned data\<close>

type_synonym root = "nat list"

text \<open>A beacon block of some fork: its slot and the rest of its contents.\<close>

record 'b beacon_block =
  bb_slot :: nat
  bb_body :: 'b

datatype 'b proposal_block =
    Phase0 "'b beacon_block"
  | Altair "'b beacon_block"
  | Bellatrix "'b beacon_block"
  | BellatrixBlinded "'b beacon_block"
  | Capella "'b beacon_block"
  | CapellaBlinded "'b beacon_block"
  | Deneb "'b beacon_block" "root list" "root list"
  | DenebBlinded "'b beacon_block"
  | Electra "'b beacon_block" "root list" "root list"
  | ElectraBlinded "'b beacon_block"
  | Fulu "'b beacon_block" "root list" "root list"
  | FuluBlinded "'b beacon_block"

fun block_version :: "'b proposal_block \<Rightarrow> data_version" where
  "block_version (Phase0 b) = VPhase0"
| "block_version (Altair b) = VAltair"
| "block_version (Bellatrix b) = VBellatrix"
| "block_version (BellatrixBlinded b) = VBellatrix"
| "block_version (Capella b) = VCapella"
| "block_version (CapellaBlinded b) = VCapella"
| "block_version (Deneb b p bl) = VDeneb"
| "block_version (DenebBlinded b) = VDeneb"
| "block_version (Electra b p bl) = VElectra"
| "block_version (ElectraBlinded b) = VElectra"
| "block_version (Fulu b p bl) = VFulu"
| "block_version (FuluBlinded b) = VFulu"

fun is_blinded :: "'b proposal_block \<Rightarrow> bool" where
  "is_blinded (BellatrixBlinded b) = True"
| "is_blinded (CapellaBlinded b) = True"
| "is_blinded (DenebBlinded b) = True"
| "is_blinded (ElectraBlinded b) = True"
| "is_blinded (FuluBlinded b) = True"
| "is_blinded _ = False"

fun block_slot :: "'b proposal_block \<Rightarrow> nat" where
  "block_slot (Phase0 b) = bb_slot b"
| "block_slot (Altair b) = bb_slot b"
| "block_slot (Bellatrix b) = bb_slot b"
| "block_slot (BellatrixBlinded b) = bb_slot b"
| "block_slot (Capella b) = bb_slot b"
| "block_slot (CapellaBlinded b) = bb_slot b"
| "block_slot (Deneb b p bl) = bb_slot b"
| "block_slot (DenebBlinded b) = bb_slot b"
| "block_slot (Electra b p bl) = bb_slot b"
| "block_slot (ElectraBlinded b) = bb_slot b"
| "block_slot (Fulu b p bl) = bb_slot b"
| "block_slot (FuluBlinded b) = bb_slot b"

fun block_root :: "('b beacon_block \<Rightarrow> root) \<Rightarrow> 'b proposal_block \<Rightarrow> root" where
  "block_root th (Phase0 b) = th b"
| "block_root th (Altair b) = th b"
| "block_root th (Bellatrix b) = th b"
| "block_root th (BellatrixBlinded b) = th b"
| "block_root th (Capella b) = th b"
| "block_root th (CapellaBlinded b) = th b"
| "block_root th (Deneb b p bl) = th b"
| "block_root th (DenebBlinded b) = th b"
| "block_root th (Electra b p bl) = th b"
| "block_root th (ElectraBlinded b) = th b"
| "block_root th (Fulu b p bl) = th b"
| "block_root th (FuluBlinded b) = th b"

record 'b versioned_proposal =
  vp_block :: "'b proposal_block"
  vp_consensus_block_value :: nat
  vp_execution_payload_value :: nat

record checkpoint =
  cp_epoch :: nat
  cp_root :: root

record attestation_data =
  adata_slot :: nat
  adata_index :: nat
  adata_beacon_block_root :: root
  adata_source :: checkpoint
  adata_target :: checkpoint

record unsigned_attestation =
  ua_data :: attestation_data
  ua_duty :: attester_duty

text \<open>An aggregated attestation: its data, if it has a payload, and the rest.\<close>

record 'b aggregated_attestation =
  aa_data :: "attestation_data option"
  aa_rest :: 'b

record 'b sync_contribution =
  sc_slot :: nat
  sc_beacon_block_root :: root
  sc_subcommittee_index :: nat
  sc_rest :: 'b

datatype 'b unsigned_data =
    UProposal "'b versioned_proposal"
  | UAttestation unsigned_attestation
  | UAggAttestation "'b aggregated_attestation"
  | USyncContribution "'b sync_contribution"

text \<open>The tree-hash roots of the data.\<close>

record 'b tree_hash =
  th_block :: "'b beacon_block \<Rightarrow> root"
  th_attestation :: "attestation_data \<Rightarrow> root"
  th_contribution :: "'b sync_contribution \<Rightarrow> root"

definition proposal_slot :: "'b versioned_proposal \<Rightarrow> nat" where
  "proposal_slot p = block_slot (vp_block p)"

definition proposal_root :: "'b tree_hash \<Rightarrow> 'b versioned_proposal \<Rightarrow> root" where
  "proposal_root th p = block_root (th_block th) (vp_block p)"

section \<open>State\<close>

datatype dutydb_error =
    ExpiredDuty
  | DeadlineComputation
  | UnexpectedProposerSetLength
  | DeprecatedDutyBuilderProposer
  | UnsupportedDutyType
  | Shutdown
  | AwaitDutyExpired
  | ClashingPublicKey nat nat nat
  | ClashingAttestationData nat nat
  | ClashingSyncContributions nat nat
  | ClashingBlocks nat
  | PubKeyNotFound nat nat nat
  | UnknownDutyType
  | InvalidVersionedProposal
  | InvalidAttestationData
  | InvalidAggregatedAttestation
  | InvalidSyncContribution

record att_key =
  ak_slot :: nat
  ak_committee_index :: nat

record pk_key =
  pk_slot :: nat
  pk_committee_index :: nat
  pk_validator_index :: nat

record contrib_key =
  ck_slot :: nat
  ck_subcommittee_index :: nat
  ck_root :: root

datatype 'v lookup = Found 'v | Evicted | Pending

record 'b duty_db =
  attestation_duties :: "(att_key \<times> attestation_data) list"
  attestation_pub_keys :: "(pk_key \<times> pubkey) list"
  attestation_keys_by_slot :: "(nat \<times> pk_key list) list"
  proposer_duties :: "(nat \<times> 'b versioned_proposal) list"
  aggregation_duties :: "(root \<times> 'b aggregated_attestation) list"
  aggregation_keys_by_slot :: "(nat \<times> root list) list"
  contrib_duties :: "(contrib_key \<times> 'b sync_contribution) list"
  contrib_keys_by_slot :: "(nat \<times> contrib_key list) list"
  max_evicted_attestation_slot :: "nat option"
  max_evicted_proposer_slot :: "nat option"
  max_evicted_contrib_slot :: "nat option"
  deadliner_rx :: "duty list"

definition duty_db_new :: "'b duty_db" where
  "duty_db_new = \<lparr>attestation_duties = [], attestation_pub_keys = [], attestation_keys_by_slot = [], proposer_duties = [],
     aggregation_duties = [], aggregation_keys_by_slot = [], contrib_duties = [], contrib_keys_by_slot = [],
     max_evicted_attestation_slot = None, max_evicted_proposer_slot = None, max_evicted_contrib_slot = None, deadliner_rx = []\<rparr>"

section \<open>Storing one value\<close>

type_synonym 'b db_op = "'b duty_db \<Rightarrow> (dutydb_error + unit) \<times> 'b duty_db"

definition store_proposal :: "'b tree_hash \<Rightarrow> 'b versioned_proposal \<Rightarrow> 'b db_op" where
  "store_proposal th p s =
     (let slot = proposal_slot p
      in case map_of (proposer_duties s) slot of
           Some existing \<Rightarrow> if proposal_root th existing \<noteq> proposal_root th p then (Inl (ClashingBlocks slot), s) else (Inr (), s)
         | None \<Rightarrow> (Inr (), s\<lparr>proposer_duties := AList.update slot p (proposer_duties s)\<rparr>))"

definition store_att_pubkey :: "nat \<Rightarrow> nat \<Rightarrow> nat \<Rightarrow> nat \<Rightarrow> pubkey \<Rightarrow> 'b db_op" where
  "store_att_pubkey slot duty_slot ci vi pubkey s =
     (let k = \<lparr>pk_slot = slot, pk_committee_index = ci, pk_validator_index = vi\<rparr>
      in case map_of (attestation_pub_keys s) k of
           Some existing \<Rightarrow> if existing \<noteq> pubkey then (Inl (ClashingPublicKey slot ci vi), s) else (Inr (), s)
         | None \<Rightarrow> (Inr (), s\<lparr>attestation_pub_keys := AList.update k pubkey (attestation_pub_keys s),
             attestation_keys_by_slot := entry_push duty_slot k (attestation_keys_by_slot s)\<rparr>))"

definition store_att_data :: "nat \<Rightarrow> nat \<Rightarrow> attestation_data \<Rightarrow> 'b db_op" where
  "store_att_data slot ci data s =
     (let k = \<lparr>ak_slot = slot, ak_committee_index = ci\<rparr>
      in case map_of (attestation_duties s) k of
           Some existing \<Rightarrow>
             if adata_source existing \<noteq> adata_source data \<or> adata_target existing \<noteq> adata_target data
                \<or> adata_beacon_block_root existing \<noteq> adata_beacon_block_root data
             then (Inl (ClashingAttestationData slot ci), s) else (Inr (), s)
         | None \<Rightarrow> (Inr (), s\<lparr>attestation_duties := AList.update k data (attestation_duties s)\<rparr>))"

text \<open>Under committee index zero the head of the chain may differ between validators.\<close>

definition store_att_data_commidx0 :: "nat \<Rightarrow> attestation_data \<Rightarrow> 'b db_op" where
  "store_att_data_commidx0 slot data s =
     (let k = \<lparr>ak_slot = slot, ak_committee_index = 0\<rparr>
      in case map_of (attestation_duties s) k of
           Some existing \<Rightarrow>
             if adata_source existing \<noteq> adata_source data \<or> adata_target existing \<noteq> adata_target data
             then (Inl (ClashingAttestationData slot 0), s) else (Inr (), s)
         | None \<Rightarrow> (Inr (), s\<lparr>attestation_duties := AList.update k data (attestation_duties s)\<rparr>))"

definition store_attestation :: "pubkey \<Rightarrow> unsigned_attestation \<Rightarrow> 'b db_op" where
  "store_attestation pubkey att =
     (let slot = adata_slot (ua_data att);
          duty_slot = at_slot (ua_duty att);
          ci = at_committee_index (ua_duty att);
          vi = at_validator_index (ua_duty att)
      in op_then (store_att_pubkey slot duty_slot ci vi pubkey)
           (op_then (store_att_data slot ci (ua_data att))
             (op_then (store_att_pubkey slot duty_slot 0 vi pubkey)
               (store_att_data_commidx0 slot (ua_data att)))))"

definition store_agg_attestation :: "'b tree_hash \<Rightarrow> 'b aggregated_attestation \<Rightarrow> 'b db_op" where
  "store_agg_attestation th agg s =
     (case aa_data agg of
        None \<Rightarrow> (Inl InvalidAggregatedAttestation, s)
      | Some data \<Rightarrow>
          let k = th_attestation th data;
              s1 = (if k \<in> set (keys (aggregation_duties s)) then s
                    else s\<lparr>aggregation_keys_by_slot := entry_push (adata_slot data) k (aggregation_keys_by_slot s)\<rparr>)
          in (Inr (), s1\<lparr>aggregation_duties := AList.update k agg (aggregation_duties s1)\<rparr>))"

definition store_sync_contribution :: "'b tree_hash \<Rightarrow> 'b sync_contribution \<Rightarrow> 'b db_op" where
  "store_sync_contribution th c s =
     (let k = \<lparr>ck_slot = sc_slot c, ck_subcommittee_index = sc_subcommittee_index c, ck_root = sc_beacon_block_root c\<rparr>
      in case map_of (contrib_duties s) k of
           Some existing \<Rightarrow>
             if th_contribution th existing \<noteq> th_contribution th c
             then (Inl (ClashingSyncContributions (sc_slot c) (sc_subcommittee_index c)), s) else (Inr (), s)
         | None \<Rightarrow> (Inr (), s\<lparr>contrib_duties := AList.update k c (contrib_duties s),
             contrib_keys_by_slot := entry_push (sc_slot c) k (contrib_keys_by_slot s)\<rparr>))"

section \<open>Eviction\<close>

definition bump_high_water :: "nat option \<Rightarrow> nat \<Rightarrow> nat option" where
  "bump_high_water mark slot = Some (case mark of None \<Rightarrow> slot | Some current \<Rightarrow> max current slot)"

definition delete_duty :: "duty \<Rightarrow> 'b db_op" where
  "delete_duty d s =
     (let slot = d_slot d
      in if d_type d = Proposer then
           (Inr (), s\<lparr>proposer_duties := AList.delete slot (proposer_duties s),
              max_evicted_proposer_slot := bump_high_water (max_evicted_proposer_slot s) slot\<rparr>)
         else if d_type d = BuilderProposer then (Inl DeprecatedDutyBuilderProposer, s)
         else if d_type d = Attester then
           let ks = listed (attestation_keys_by_slot s) slot
           in (Inr (), s\<lparr>attestation_keys_by_slot := AList.delete slot (attestation_keys_by_slot s),
              attestation_pub_keys := fold AList.delete ks (attestation_pub_keys s),
              attestation_duties := fold AList.delete
                (map (\<lambda>k. \<lparr>ak_slot = pk_slot k, ak_committee_index = pk_committee_index k\<rparr>) ks) (attestation_duties s),
              max_evicted_attestation_slot := bump_high_water (max_evicted_attestation_slot s) slot\<rparr>)
         else if d_type d = Aggregator then
           let ks = listed (aggregation_keys_by_slot s) slot
           in (Inr (), s\<lparr>aggregation_keys_by_slot := AList.delete slot (aggregation_keys_by_slot s),
              aggregation_duties := fold AList.delete ks (aggregation_duties s)\<rparr>)
         else if d_type d = SyncContribution then
           let ks = listed (contrib_keys_by_slot s) slot
           in (Inr (), s\<lparr>contrib_keys_by_slot := AList.delete slot (contrib_keys_by_slot s),
              contrib_duties := fold AList.delete ks (contrib_duties s),
              max_evicted_contrib_slot := bump_high_water (max_evicted_contrib_slot s) slot\<rparr>)
         else (Inl UnknownDutyType, s))"

section \<open>The store operation\<close>

definition store_set :: "'b tree_hash \<Rightarrow> duty_type \<Rightarrow> (pubkey \<times> 'b unsigned_data) list \<Rightarrow> 'b db_op" where
  "store_set th t us s =
     (if t = Proposer then
        (if length us > 1 then (Inl UnexpectedProposerSetLength, s)
         else (case us of
                 [] \<Rightarrow> (Inr (), s)
               | (pk, UProposal p) # rest \<Rightarrow> store_proposal th p s
               | _ \<Rightarrow> (Inl InvalidVersionedProposal, s)))
      else if t = Attester then
        op_loop (\<lambda>(pk, data). case data of UAttestation a \<Rightarrow> store_attestation pk a | _ \<Rightarrow> (\<lambda>s. (Inl InvalidAttestationData, s))) us s
      else if t = Aggregator then
        op_loop (\<lambda>(pk, data). case data of UAggAttestation a \<Rightarrow> store_agg_attestation th a
          | _ \<Rightarrow> (\<lambda>s. (Inl InvalidAggregatedAttestation, s))) us s
      else if t = SyncContribution then
        op_loop (\<lambda>(pk, data). case data of USyncContribution c \<Rightarrow> store_sync_contribution th c
          | _ \<Rightarrow> (\<lambda>s. (Inl InvalidSyncContribution, s))) us s
      else (Inl UnsupportedDutyType, s))"

text \<open>The waiters that \<open>wake\<close> notifies: those of the four stored duty types.\<close>

definition wake :: "duty_type \<Rightarrow> duty_type list" where
  "wake t = (if t \<in> {Proposer, Attester, Aggregator, SyncContribution} then [t] else [])"

text \<open>The expired duties queued by the deadliner are taken one by one.\<close>

fun drain :: "duty list \<Rightarrow> 'b duty_db \<Rightarrow> duty_type list \<times> (dutydb_error + unit) \<times> 'b duty_db" where
  "drain [] s = ([], Inr (), s\<lparr>deadliner_rx := []\<rparr>)"
| "drain (d # rx) s =
     (case delete_duty d s of
        (Inl e, s') \<Rightarrow> ([], Inl e, s'\<lparr>deadliner_rx := rx\<rparr>)
      | (Inr u, s') \<Rightarrow> (case drain rx s' of (ws, r, s'') \<Rightarrow> (wake (d_type d) @ ws, r, s'')))"

definition dutydb_store ::
  "'b tree_hash \<Rightarrow> hash_order \<Rightarrow> add_outcome \<Rightarrow> duty \<Rightarrow> (pubkey \<times> 'b unsigned_data) list \<Rightarrow> 'b duty_db
     \<Rightarrow> duty_type list \<times> (dutydb_error + unit) \<times> 'b duty_db" where
  "dutydb_store th ord added d us s =
     (if d_type d = BuilderProposer then ([], Inl DeprecatedDutyBuilderProposer, s)
      else case added of
        AlreadyExpired \<Rightarrow> ([], Inl ExpiredDuty, s)
      | NoDeadline \<Rightarrow> ([], Inl UnsupportedDutyType, s)
      | FailedToCompute \<Rightarrow> ([], Inl DeadlineComputation, s)
      | Scheduled \<Rightarrow>
          (case store_set th (d_type d) (hash_iter (ord 0) us) s of
             (Inl e, s') \<Rightarrow> ([], Inl e, s')
           | (Inr u, s') \<Rightarrow> (case drain (deadliner_rx s') s' of (ws, r, s'') \<Rightarrow> (wake (d_type d) @ ws, r, s''))))"

section \<open>Queries\<close>

definition evicted_up_to :: "nat option \<Rightarrow> nat \<Rightarrow> bool" where
  "evicted_up_to mark slot = (case mark of None \<Rightarrow> False | Some hw \<Rightarrow> slot \<le> hw)"

definition await_proposal :: "nat \<Rightarrow> 'b duty_db \<Rightarrow> 'b versioned_proposal lookup" where
  "await_proposal slot s =
     (case map_of (proposer_duties s) slot of
        Some v \<Rightarrow> Found v
      | None \<Rightarrow> if evicted_up_to (max_evicted_proposer_slot s) slot then Evicted else Pending)"

definition await_attestation :: "nat \<Rightarrow> nat \<Rightarrow> 'b duty_db \<Rightarrow> attestation_data lookup" where
  "await_attestation slot ci s =
     (case map_of (attestation_duties s) \<lparr>ak_slot = slot, ak_committee_index = ci\<rparr> of
        Some v \<Rightarrow> Found v
      | None \<Rightarrow> if evicted_up_to (max_evicted_attestation_slot s) slot then Evicted else Pending)"

definition await_agg_attestation :: "root \<Rightarrow> 'b duty_db \<Rightarrow> 'b aggregated_attestation lookup" where
  "await_agg_attestation r s =
     (case map_of (aggregation_duties s) r of Some v \<Rightarrow> Found v | None \<Rightarrow> Pending)"

definition await_sync_contribution :: "nat \<Rightarrow> nat \<Rightarrow> root \<Rightarrow> 'b duty_db \<Rightarrow> 'b sync_contribution lookup" where
  "await_sync_contribution slot si r s =
     (case map_of (contrib_duties s) \<lparr>ck_slot = slot, ck_subcommittee_index = si, ck_root = r\<rparr> of
        Some v \<Rightarrow> Found v
      | None \<Rightarrow> if evicted_up_to (max_evicted_contrib_slot s) slot then Evicted else Pending)"

definition pub_key_by_attestation :: "nat \<Rightarrow> nat \<Rightarrow> nat \<Rightarrow> 'b duty_db \<Rightarrow> dutydb_error + pubkey" where
  "pub_key_by_attestation slot ci vi s =
     ok_or (PubKeyNotFound slot ci vi)
       (map_of (attestation_pub_keys s) \<lparr>pk_slot = slot, pk_committee_index = ci, pk_validator_index = vi\<rparr>)"

text \<open>The loop of a blocking query: it looks, and while the answer is pending it parks until
  it is cancelled or notified, when it looks at the state of that moment. The value is
  \<open>None\<close> while the query is still parked.\<close>

datatype 'b wakeup = Cancelled | Notified "'b duty_db"

fun await_data :: "('b duty_db \<Rightarrow> 'v lookup) \<Rightarrow> 'b duty_db \<Rightarrow> 'b wakeup list \<Rightarrow> (dutydb_error + 'v) option" where
  "await_data lookup s ws =
     (case lookup s of
        Found v \<Rightarrow> Some (Inr v)
      | Evicted \<Rightarrow> Some (Inl AwaitDutyExpired)
      | Pending \<Rightarrow>
          (case ws of
             [] \<Rightarrow> None
           | Cancelled # _ \<Rightarrow> Some (Inl Shutdown)
           | Notified s' # ws' \<Rightarrow> await_data lookup s' ws'))"

section \<open>The invariant\<close>

definition att_key_of :: "pk_key \<Rightarrow> att_key" where
  "att_key_of k = \<lparr>ak_slot = pk_slot k, ak_committee_index = pk_committee_index k\<rparr>"

definition contrib_key_of :: "'b sync_contribution \<Rightarrow> contrib_key" where
  "contrib_key_of c = \<lparr>ck_slot = sc_slot c, ck_subcommittee_index = sc_subcommittee_index c, ck_root = sc_beacon_block_root c\<rparr>"

text \<open>Attestations: every public key is listed once under a duty slot, and attestation data is
  only kept while a public key of its slot and committee is, so that it is evicted with it.\<close>

definition att_ok :: "'b duty_db \<Rightarrow> bool" where
  "att_ok s \<longleftrightarrow> index_once (set (keys (attestation_pub_keys s))) (attestation_keys_by_slot s)
     \<and> set (keys (attestation_duties s)) \<subseteq> att_key_of ` set (keys (attestation_pub_keys s))"

definition agg_ok :: "'b duty_db \<Rightarrow> bool" where
  "agg_ok s \<longleftrightarrow> index_once (set (keys (aggregation_duties s))) (aggregation_keys_by_slot s)"

definition contrib_ok :: "'b duty_db \<Rightarrow> bool" where
  "contrib_ok s \<longleftrightarrow> index_by ck_slot (set (keys (contrib_duties s))) (contrib_keys_by_slot s)
     \<and> (\<forall>k c. map_of (contrib_duties s) k = Some c \<longrightarrow> contrib_key_of c = k)"

definition proposer_ok :: "'b duty_db \<Rightarrow> bool" where
  "proposer_ok s \<longleftrightarrow> (\<forall>slot p. map_of (proposer_duties s) slot = Some p \<longrightarrow> proposal_slot p = slot)"

definition duty_db_inv :: "'b duty_db \<Rightarrow> bool" where
  "duty_db_inv s \<longleftrightarrow> att_ok s \<and> agg_ok s \<and> contrib_ok s \<and> proposer_ok s"

lemma keys_update: "set (keys (AList.update k v m)) = insert k (set (keys m))"
  by (simp add: dom_update)

lemma duty_db_inv_new: "duty_db_inv duty_db_new"
  by (simp add: duty_db_inv_def duty_db_new_def att_ok_def agg_ok_def contrib_ok_def proposer_ok_def index_once_def
      index_by_def listed_def)

lemma duty_db_inv_fields:
  "att_ok (s\<lparr>proposer_duties := m, max_evicted_proposer_slot := w\<rparr>) = att_ok s"
  "att_ok (s\<lparr>deadliner_rx := rx\<rparr>) = att_ok s" "agg_ok (s\<lparr>deadliner_rx := rx\<rparr>) = agg_ok s"
  "contrib_ok (s\<lparr>deadliner_rx := rx\<rparr>) = contrib_ok s" "proposer_ok (s\<lparr>deadliner_rx := rx\<rparr>) = proposer_ok s"
  by (simp_all add: att_ok_def agg_ok_def contrib_ok_def proposer_ok_def)

lemma store_proposal_inv: "duty_db_inv s \<Longrightarrow> duty_db_inv (snd (store_proposal th p s))"
  by (auto simp: store_proposal_def Let_def duty_db_inv_def att_ok_def agg_ok_def contrib_ok_def proposer_ok_def update_conv'
      split: option.splits simp del: map_of_eq_Some_iff)

lemma store_att_pubkey_att_ok:
  assumes "att_ok s" shows "att_ok (snd (store_att_pubkey slot ds ci vi pk s))"
proof -
  let ?k = "\<lparr>pk_slot = slot, pk_committee_index = ci, pk_validator_index = vi\<rparr>"
  show ?thesis
  proof (cases "map_of (attestation_pub_keys s) ?k")
    case None
    then have "?k \<notin> set (keys (attestation_pub_keys s))" by (simp add: set_keys_map_of del: set_map)
    with assms have "index_once (insert ?k (set (keys (attestation_pub_keys s)))) (entry_push ds ?k (attestation_keys_by_slot s))"
      unfolding att_ok_def by (blast intro: index_once_push)
    then show ?thesis
      using assms None unfolding att_ok_def by (simp add: store_att_pubkey_def Let_def keys_update del: set_map) blast
  next
    case (Some x)
    then show ?thesis using assms by (simp add: store_att_pubkey_def)
  qed
qed

lemma store_att_pubkey_stored:
  "store_att_pubkey slot ds ci vi pk s = (Inr u, s') \<Longrightarrow>
   map_of (attestation_pub_keys s') \<lparr>pk_slot = slot, pk_committee_index = ci, pk_validator_index = vi\<rparr> = Some pk"
  by (auto simp: store_att_pubkey_def Let_def update_conv' split: option.splits if_splits simp del: map_of_eq_Some_iff)

lemma att_ok_add_data:
  assumes "att_ok s" "k \<in> att_key_of ` set (keys (attestation_pub_keys s))"
  shows "att_ok (s\<lparr>attestation_duties := AList.update k v (attestation_duties s)\<rparr>)"
  using assms unfolding att_ok_def by (simp add: keys_update del: set_map)

lemma att_key_of_stored:
  assumes "map_of (attestation_pub_keys s) \<lparr>pk_slot = slot, pk_committee_index = ci, pk_validator_index = vi\<rparr> = Some pk"
  shows "\<lparr>ak_slot = slot, ak_committee_index = ci\<rparr> \<in> att_key_of ` set (keys (attestation_pub_keys s))"
proof -
  have "\<lparr>pk_slot = slot, pk_committee_index = ci, pk_validator_index = vi\<rparr> \<in> set (keys (attestation_pub_keys s))"
    using assms by (simp only: set_keys_map_of) simp
  then have "att_key_of \<lparr>pk_slot = slot, pk_committee_index = ci, pk_validator_index = vi\<rparr> \<in> att_key_of ` set (keys (attestation_pub_keys s))"
    by (rule imageI)
  then show ?thesis by (simp add: att_key_of_def)
qed

lemma store_att_data_att_ok:
  assumes "att_ok s" "\<lparr>ak_slot = slot, ak_committee_index = ci\<rparr> \<in> att_key_of ` set (keys (attestation_pub_keys s))"
  shows "att_ok (snd (store_att_data slot ci data s))"
    and "ci = 0 \<Longrightarrow> att_ok (snd (store_att_data_commidx0 slot data s))"
  using assms att_ok_add_data [OF assms]
  by (auto simp: store_att_data_def store_att_data_commidx0_def Let_def split: option.splits)

lemma store_attestation_att_ok:
  assumes "att_ok s" shows "att_ok (snd (store_attestation pk att s))"
proof -
  let ?slot = "adata_slot (ua_data att)" and ?ds = "at_slot (ua_duty att)"
  let ?ci = "at_committee_index (ua_duty att)" and ?vi = "at_validator_index (ua_duty att)"
  obtain r1 s1 where 1: "store_att_pubkey ?slot ?ds ?ci ?vi pk s = (r1, s1)" by fastforce
  obtain r2 s2 where 2: "store_att_data ?slot ?ci (ua_data att) s1 = (r2, s2)" by fastforce
  obtain r3 s3 where 3: "store_att_pubkey ?slot ?ds 0 ?vi pk s2 = (r3, s3)" by fastforce
  obtain r4 s4 where 4: "store_att_data_commidx0 ?slot (ua_data att) s3 = (r4, s4)" by fastforce
  have ok1: "att_ok s1" using store_att_pubkey_att_ok [OF assms, of ?slot ?ds ?ci ?vi pk] 1 by simp
  have ok2: "att_ok s2" if "r1 = Inr ()"
    using store_att_data_att_ok(1) [OF ok1 att_key_of_stored [OF store_att_pubkey_stored [OF 1 [unfolded that]]], of "ua_data att"] 2 by simp
  have ok3: "att_ok s3" if "r1 = Inr ()"
    using store_att_pubkey_att_ok [OF ok2 [OF that], of ?slot ?ds 0 ?vi pk] 3 by simp
  have ok4: "att_ok s4" if "r1 = Inr ()" "r3 = Inr ()"
    using store_att_data_att_ok(2) [OF ok3 [OF that(1)] att_key_of_stored [OF store_att_pubkey_stored [OF 3 [unfolded that(2)]]], of "ua_data att"] 4
    by simp
  have eq: "store_attestation pk att s = (case r1 of Inl e \<Rightarrow> (Inl e, s1) | Inr _ \<Rightarrow>
      (case r2 of Inl e \<Rightarrow> (Inl e, s2) | Inr _ \<Rightarrow> (case r3 of Inl e \<Rightarrow> (Inl e, s3) | Inr _ \<Rightarrow> (r4, s4))))"
    by (simp add: store_attestation_def op_then_def Let_def 1 2 3 4 split: sum.splits)
  show ?thesis
    using ok1 ok2 ok3 ok4 unfolding eq by (auto split: sum.splits)
qed

text \<open>Which parts of the state an operation can change.\<close>

definition same_proposals :: "'b duty_db \<Rightarrow> 'b duty_db \<Rightarrow> bool" where
  "same_proposals s s' \<longleftrightarrow> proposer_duties s' = proposer_duties s \<and> max_evicted_proposer_slot s' = max_evicted_proposer_slot s"

definition same_attestations :: "'b duty_db \<Rightarrow> 'b duty_db \<Rightarrow> bool" where
  "same_attestations s s' \<longleftrightarrow> attestation_duties s' = attestation_duties s \<and> attestation_pub_keys s' = attestation_pub_keys s
     \<and> attestation_keys_by_slot s' = attestation_keys_by_slot s \<and> max_evicted_attestation_slot s' = max_evicted_attestation_slot s"

definition same_aggregations :: "'b duty_db \<Rightarrow> 'b duty_db \<Rightarrow> bool" where
  "same_aggregations s s' \<longleftrightarrow> aggregation_duties s' = aggregation_duties s \<and> aggregation_keys_by_slot s' = aggregation_keys_by_slot s"

definition same_contribs :: "'b duty_db \<Rightarrow> 'b duty_db \<Rightarrow> bool" where
  "same_contribs s s' \<longleftrightarrow> contrib_duties s' = contrib_duties s \<and> contrib_keys_by_slot s' = contrib_keys_by_slot s
     \<and> max_evicted_contrib_slot s' = max_evicted_contrib_slot s"

lemmas same_defs = same_proposals_def same_attestations_def same_aggregations_def same_contribs_def

definition touches :: "duty_type \<Rightarrow> 'b duty_db \<Rightarrow> 'b duty_db \<Rightarrow> bool" where
  "touches t s s' \<longleftrightarrow> (t = Proposer \<or> same_proposals s s') \<and> (t = Attester \<or> same_attestations s s')
     \<and> (t = Aggregator \<or> same_aggregations s s') \<and> (t = SyncContribution \<or> same_contribs s s')"

lemma touches_refl [simp]: "touches t s s"
  by (simp add: touches_def same_defs)

lemma touches_trans: "touches t s s' \<Longrightarrow> touches t s' s'' \<Longrightarrow> touches t s s''"
  by (auto simp: touches_def same_defs)

lemma store_touches:
  "touches Proposer s (snd (store_proposal th p s))"
  "touches Attester s (snd (store_att_pubkey slot ds ci vi pk s))"
  "touches Attester s (snd (store_att_data slot ci data s))"
  "touches Attester s (snd (store_att_data_commidx0 slot data s))"
  "touches Aggregator s (snd (store_agg_attestation th agg s))"
  "touches SyncContribution s (snd (store_sync_contribution th c s))"
  by (auto simp: store_proposal_def store_att_pubkey_def store_att_data_def store_att_data_commidx0_def store_agg_attestation_def
      store_sync_contribution_def touches_def same_defs Let_def split: option.splits)

lemma op_then_touches:
  assumes "\<And>s. touches t s (snd (f s))" "\<And>s. touches t s (snd (g s))"
  shows "touches t s (snd (op_then f g s))"
proof (rule op_then_inv)
  show "touches t s s" by simp
  show "touches t s (snd (f s'))" "touches t s (snd (g s'))" if "touches t s s'" for s'
    by (rule touches_trans [OF that assms(1)], rule touches_trans [OF that assms(2)])
qed

lemma op_loop_touches:
  assumes "\<And>x s. touches t s (snd (f x s))"
  shows "touches t s (snd (op_loop f xs s))"
proof (rule op_loop_inv)
  show "touches t s (snd (f x s'))" if "touches t s s'" for x s' by (rule touches_trans [OF that assms])
qed simp

lemma store_attestation_touches: "touches Attester s (snd (store_attestation pk att s))"
  unfolding store_attestation_def Let_def by (intro op_then_touches store_touches)

lemma store_set_touches: "touches t s (snd (store_set th t us s))"
proof -
  consider "t = Proposer" | "t = Attester" | "t = Aggregator" | "t = SyncContribution"
    | "t \<notin> {Proposer, Attester, Aggregator, SyncContribution}" by blast
  then show ?thesis
  proof cases
    case 1
    then show ?thesis by (auto simp: store_set_def store_touches split: list.splits unsigned_data.splits)
  next
    case 2
    show ?thesis unfolding 2 store_set_def
      by (auto intro!: op_loop_touches simp: store_attestation_touches split: unsigned_data.splits)
  next
    case 3
    show ?thesis unfolding 3 store_set_def by (auto intro!: op_loop_touches simp: store_touches split: unsigned_data.splits)
  next
    case 4
    show ?thesis unfolding 4 store_set_def by (auto intro!: op_loop_touches simp: store_touches split: unsigned_data.splits)
  next
    case 5
    then show ?thesis by (simp add: store_set_def)
  qed
qed

lemma delete_duty_touches: "touches (d_type d) s (snd (delete_duty d s))"
  by (simp add: delete_duty_def Let_def touches_def same_defs)

lemma inv_touches:
  assumes "duty_db_inv s" "touches t s s'"
    and "t = Proposer \<Longrightarrow> proposer_ok s'" "t = Attester \<Longrightarrow> att_ok s'" "t = Aggregator \<Longrightarrow> agg_ok s'" "t = SyncContribution \<Longrightarrow> contrib_ok s'"
  shows "duty_db_inv s'"
proof -
  have "proposer_ok s'" using assms by (cases "t = Proposer") (auto simp: touches_def same_defs duty_db_inv_def proposer_ok_def)
  moreover have "att_ok s'" using assms by (cases "t = Attester") (simp_all add: touches_def same_defs duty_db_inv_def att_ok_def)
  moreover have "agg_ok s'" using assms by (cases "t = Aggregator") (simp_all add: touches_def same_defs duty_db_inv_def agg_ok_def)
  moreover have "contrib_ok s'"
    using assms by (cases "t = SyncContribution") (simp_all add: touches_def same_defs duty_db_inv_def contrib_ok_def)
  ultimately show ?thesis by (simp add: duty_db_inv_def)
qed

lemma store_agg_attestation_ok:
  assumes "agg_ok s" shows "agg_ok (snd (store_agg_attestation th agg s))"
proof (cases "aa_data agg")
  case (Some data)
  let ?k = "th_attestation th data"
  show ?thesis
  proof (cases "?k \<in> set (keys (aggregation_duties s))")
    case True
    then have "insert ?k (set (keys (aggregation_duties s))) = set (keys (aggregation_duties s))" by (rule insert_absorb)
    then show ?thesis
      using assms Some True by (simp add: agg_ok_def store_agg_attestation_def Let_def keys_update del: set_map)
  next
    case False
    then have "index_once (insert ?k (set (keys (aggregation_duties s)))) (entry_push (adata_slot data) ?k (aggregation_keys_by_slot s))"
      using assms unfolding agg_ok_def by (blast intro: index_once_push)
    then show ?thesis
      using Some False by (simp add: agg_ok_def store_agg_attestation_def Let_def keys_update del: set_map)
  qed
qed (use assms in \<open>simp add: store_agg_attestation_def\<close>)

lemma store_sync_contribution_ok:
  assumes "contrib_ok s" shows "contrib_ok (snd (store_sync_contribution th c s))"
proof (cases "map_of (contrib_duties s) (contrib_key_of c)")
  case None
  have "index_by ck_slot (insert (contrib_key_of c) (set (keys (contrib_duties s))))
      (entry_push (ck_slot (contrib_key_of c)) (contrib_key_of c) (contrib_keys_by_slot s))"
    using assms unfolding contrib_ok_def by (blast intro: index_by_push)
  moreover have "snd (store_sync_contribution th c s) = s\<lparr>contrib_duties := AList.update (contrib_key_of c) c (contrib_duties s),
      contrib_keys_by_slot := entry_push (ck_slot (contrib_key_of c)) (contrib_key_of c) (contrib_keys_by_slot s)\<rparr>"
    using None by (simp add: store_sync_contribution_def contrib_key_of_def Let_def)
  ultimately show ?thesis
    using assms by (simp add: contrib_ok_def keys_update update_conv' del: set_map map_of_eq_Some_iff)
next
  case (Some x)
  then show ?thesis using assms by (simp add: store_sync_contribution_def contrib_key_of_def Let_def)
qed

lemma store_proposal_ok: "proposer_ok s \<Longrightarrow> proposer_ok (snd (store_proposal th p s))"
  by (auto simp: store_proposal_def Let_def proposer_ok_def update_conv' split: option.splits simp del: map_of_eq_Some_iff)

lemma store_set_inv:
  assumes "duty_db_inv s" shows "duty_db_inv (snd (store_set th t us s))"
proof (rule inv_touches [OF assms store_set_touches])
  have ok: "att_ok s" "agg_ok s" "contrib_ok s" "proposer_ok s" using assms by (simp_all add: duty_db_inv_def)
  show "proposer_ok (snd (store_set th t us s))" if "t = Proposer"
    using ok(4) that by (auto simp: store_set_def store_proposal_ok split: list.splits unsigned_data.splits)
  show "att_ok (snd (store_set th t us s))" if "t = Attester"
    unfolding that store_set_def
    by (simp, rule op_loop_inv [where P = att_ok]) (use ok(1) in \<open>auto simp: store_attestation_att_ok split: unsigned_data.splits\<close>)
  show "agg_ok (snd (store_set th t us s))" if "t = Aggregator"
    unfolding that store_set_def
    by (simp, rule op_loop_inv [where P = agg_ok]) (use ok(2) in \<open>auto simp: store_agg_attestation_ok split: unsigned_data.splits\<close>)
  show "contrib_ok (snd (store_set th t us s))" if "t = SyncContribution"
    unfolding that store_set_def
    by (simp, rule op_loop_inv [where P = contrib_ok]) (use ok(3) in \<open>auto simp: store_sync_contribution_ok split: unsigned_data.splits\<close>)
qed

lemma delete_duty_att_ok:
  assumes "att_ok s" "d_type d = Attester" shows "att_ok (snd (delete_duty d s))"
proof -
  let ?ks = "listed (attestation_keys_by_slot s) (d_slot d)"
  have "index_once (set (keys (attestation_pub_keys s)) - set ?ks) (AList.delete (d_slot d) (attestation_keys_by_slot s))"
    using assms(1) unfolding att_ok_def by (blast intro: index_once_delete)
  moreover have "set (keys (attestation_duties s)) - att_key_of ` set ?ks \<subseteq> att_key_of ` (set (keys (attestation_pub_keys s)) - set ?ks)"
    using assms(1) unfolding att_ok_def by blast
  ultimately show ?thesis
    using assms(2) by (simp add: att_ok_def delete_duty_def Let_def keys_delete_list att_key_of_def [symmetric] del: set_map)
      (simp add: set_map [of att_key_of ?ks] flip: att_key_of_def)
qed

lemma delete_duty_inv:
  assumes "duty_db_inv s" shows "duty_db_inv (snd (delete_duty d s))"
proof (rule inv_touches [OF assms delete_duty_touches])
  have ok: "att_ok s" "agg_ok s" "contrib_ok s" "proposer_ok s" using assms by (simp_all add: duty_db_inv_def)
  show "proposer_ok (snd (delete_duty d s))" if "d_type d = Proposer"
    using ok(4) that by (simp add: delete_duty_def Let_def proposer_ok_def delete_conv' del: map_of_eq_Some_iff)
  show "att_ok (snd (delete_duty d s))" if "d_type d = Attester" using ok(1) that by (rule delete_duty_att_ok)
  show "agg_ok (snd (delete_duty d s))" if "d_type d = Aggregator"
    using ok(2) that index_once_delete [of "set (keys (aggregation_duties s))" "aggregation_keys_by_slot s" "d_slot d"]
    by (simp add: delete_duty_def Let_def agg_ok_def keys_delete_list del: set_map)
  show "contrib_ok (snd (delete_duty d s))" if "d_type d = SyncContribution"
  proof -
    have idx: "index_by ck_slot (set (keys (contrib_duties s))) (contrib_keys_by_slot s)" using ok(3) by (simp add: contrib_ok_def)
    have "set (keys (contrib_duties s)) - set (listed (contrib_keys_by_slot s) (d_slot d))
        = set (keys (contrib_duties s)) - {k. ck_slot k = d_slot d}"
      unfolding index_by_listed [OF idx] by blast
    then show ?thesis
      using ok(3) that index_by_delete [OF idx, of "d_slot d"]
      by (simp add: delete_duty_def Let_def contrib_ok_def keys_delete_list map_of_delete_list del: set_map map_of_eq_Some_iff)
  qed
qed

lemma drain_inv: "duty_db_inv s \<Longrightarrow> duty_db_inv (snd (snd (drain rx s)))"
proof (induction rx arbitrary: s)
  case Nil
  then show ?case by (simp add: duty_db_inv_def duty_db_inv_fields)
next
  case (Cons d rx)
  have "duty_db_inv (snd (delete_duty d s))" using Cons.prems by (rule delete_duty_inv)
  then show ?case
    using Cons.IH [of "snd (delete_duty d s)"] by (auto simp: duty_db_inv_def duty_db_inv_fields split: prod.splits sum.splits)
qed


text \<open>Sample data: roots that list a few fields, and the attestation of a validator.\<close>

definition sample_th :: "nat tree_hash" where
  "sample_th = \<lparr>th_block = (\<lambda>b. [bb_slot b, bb_body b]), th_attestation = (\<lambda>a. [adata_slot a, adata_index a]),
     th_contribution = (\<lambda>c. [sc_slot c, sc_rest c])\<rparr>"

definition sample_data :: "nat \<Rightarrow> nat \<Rightarrow> attestation_data" where
  "sample_data slot r = \<lparr>adata_slot = slot, adata_index = 0, adata_beacon_block_root = [r],
     adata_source = \<lparr>cp_epoch = 0, cp_root = [1]\<rparr>, adata_target = \<lparr>cp_epoch = 1, cp_root = [2]\<rparr>\<rparr>"

definition sample_att :: "nat \<Rightarrow> nat \<Rightarrow> nat \<Rightarrow> nat \<Rightarrow> nat unsigned_data" where
  "sample_att slot r ci vi = UAttestation \<lparr>ua_data = sample_data slot r, ua_duty = \<lparr>at_slot = slot, at_validator_index = vi,
     at_committee_index = ci, at_committee_length = 8, at_committees_at_slot = 4, at_validator_committee_index = 0\<rparr>\<rparr>"


section \<open>Refinement of the shared contract\<close>

definition put_proposal :: "'b tree_hash \<Rightarrow> nat \<Rightarrow> 'b versioned_proposal \<Rightarrow> 'b duty_db \<Rightarrow> 'b duty_db" where
  "put_proposal th slot p s = snd (store_proposal th p s)"

definition put_contribution :: "'b tree_hash \<Rightarrow> contrib_key \<Rightarrow> 'b sync_contribution \<Rightarrow> 'b duty_db \<Rightarrow> 'b duty_db" where
  "put_contribution th k c s = snd (store_sync_contribution th c s)"

definition evict :: "duty_type \<Rightarrow> nat \<Rightarrow> 'b duty_db \<Rightarrow> 'b duty_db" where
  "evict t slot s = snd (delete_duty (new_duty slot t) s)"

lemma evict_inv: "duty_db_inv s \<Longrightarrow> duty_db_inv (evict t slot s)"
  by (simp add: evict_def delete_duty_inv)

lemma contribs_evict:
  assumes "duty_db_inv s"
  shows "map_of (contrib_duties (evict SyncContribution slot s)) k = (if ck_slot k = slot then None else map_of (contrib_duties s) k)"
proof -
  have idx: "index_by ck_slot (set (keys (contrib_duties s))) (contrib_keys_by_slot s)"
    using assms by (simp add: duty_db_inv_def contrib_ok_def)
  show ?thesis
    by (auto simp: evict_def delete_duty_def new_duty_def Let_def map_of_delete_list index_by_listed [OF idx] map_of_eq_None_iff)
qed

interpretation proposals: evicting_store duty_db_inv "put_proposal th" "\<lambda>s. map_of (proposer_duties s)"
  "\<lambda>slot p. proposal_slot p = slot" "evict Proposer" "\<lambda>slot. slot" for th :: "'b tree_hash"
proof
  fix s :: "'b duty_db" and slot slot' :: nat and p
  assume inv: "duty_db_inv s"
  show "duty_db_inv (put_proposal th slot p s)"
    unfolding put_proposal_def by (rule inv_touches [OF inv store_touches(1)]) (use inv in \<open>simp_all add: duty_db_inv_def store_proposal_ok\<close>)
  show "map_of (proposer_duties (put_proposal th slot p s)) slot' =
      (if slot' = slot \<and> map_of (proposer_duties s) slot = None then Some p else map_of (proposer_duties s) slot')"
    if "proposal_slot p = slot"
    using that by (auto simp: put_proposal_def store_proposal_def Let_def update_conv' split: option.splits simp del: map_of_eq_Some_iff)
  show "duty_db_inv (evict Proposer slot s)" using inv by (rule evict_inv)
  show "map_of (proposer_duties (evict Proposer slot s)) slot' = (if slot' = slot then None else map_of (proposer_duties s) slot')"
    by (simp add: evict_def delete_duty_def new_duty_def Let_def delete_conv')
qed

interpretation contributions: evicting_store duty_db_inv "put_contribution th" "\<lambda>s. map_of (contrib_duties s)"
  "\<lambda>k c. contrib_key_of c = k" "evict SyncContribution" ck_slot for th :: "'b tree_hash"
proof
  fix s :: "'b duty_db" and k k' slot and c
  assume inv: "duty_db_inv s"
  show "duty_db_inv (put_contribution th k c s)"
    unfolding put_contribution_def
    by (rule inv_touches [OF inv store_touches(6)]) (use inv in \<open>simp_all add: duty_db_inv_def store_sync_contribution_ok\<close>)
  show "map_of (contrib_duties (put_contribution th k c s)) k' =
      (if k' = k \<and> map_of (contrib_duties s) k = None then Some c else map_of (contrib_duties s) k')"
    if "contrib_key_of c = k"
    using that by (auto simp: put_contribution_def store_sync_contribution_def contrib_key_of_def Let_def update_conv'
        split: option.splits simp del: map_of_eq_Some_iff)
  show "duty_db_inv (evict SyncContribution slot s)" using inv by (rule evict_inv)
  show "map_of (contrib_duties (evict SyncContribution slot s)) k = (if ck_slot k = slot then None else map_of (contrib_duties s) k)"
    using inv by (rule contribs_evict)
qed

text \<open>
  C27. Blocks and sync contributions are write-once registers: after any sequence of stores and
  evictions, the block of a slot (and the contribution of a slot, subcommittee and root) is
  the first one stored since that slot was last evicted. A clashing value never replaces it.
\<close>

theorem dutydb_refines_registers:
  assumes "\<And>slot p. Put slot p \<in> set ops \<Longrightarrow> proposal_slot p = slot"
    and "\<And>k c. Put k c \<in> set ops' \<Longrightarrow> contrib_key_of c = k"
  shows "map_of (proposer_duties (store_run (put_proposal th) (evict Proposer) ops duty_db_new)) slot = register (\<lambda>slot. slot) slot ops None
    \<and> map_of (contrib_duties (store_run (put_contribution th) (evict SyncContribution) ops' duty_db_new)) k = register ck_slot k ops' None"
proof -
  have new: "map_of (proposer_duties (duty_db_new :: 'a duty_db)) slot = None" "map_of (contrib_duties (duty_db_new :: 'a duty_db)) k = None"
    by (simp_all add: duty_db_new_def)
  show ?thesis
    using proposals.get_run [OF duty_db_inv_new assms(1), of ops th slot] contributions.get_run [OF duty_db_inv_new assms(2), of ops' th k]
    by (simp only: new)
qed

definition sample_proposal :: "nat \<Rightarrow> nat \<Rightarrow> nat versioned_proposal" where
  "sample_proposal slot b = \<lparr>vp_block = Capella \<lparr>bb_slot = slot, bb_body = b\<rparr>, vp_consensus_block_value = 0, vp_execution_payload_value = 0\<rparr>"

theorem dutydb_refines_registers_witness:
  "map_of (proposer_duties (store_run (put_proposal sample_th) (evict Proposer)
     [Put 4 (sample_proposal 4 1), Put 4 (sample_proposal 4 2), Evict 3] duty_db_new)) 4 = Some (sample_proposal 4 1)"
proof -
  let ?ops = "[Put 4 (sample_proposal 4 1), Put 4 (sample_proposal 4 2), Evict 3] :: (nat, nat versioned_proposal, nat) store_op list"
  let ?none = "[] :: (contrib_key, nat sync_contribution, nat) store_op list"
  have 1: "\<And>slot p. Put slot p \<in> set ?ops \<Longrightarrow> proposal_slot p = slot" by (auto simp: proposal_slot_def sample_proposal_def)
  have 2: "\<And>k c. Put k c \<in> set ?none \<Longrightarrow> contrib_key_of c = k" by simp
  have "map_of (proposer_duties (store_run (put_proposal sample_th) (evict Proposer) ?ops duty_db_new)) 4 = register (\<lambda>slot. slot) 4 ?ops None"
    by (rule dutydb_refines_registers [where ops = ?ops and ops' = ?none and th = sample_th and slot = 4
        and k = "\<lparr>ck_slot = 0, ck_subcommittee_index = 0, ck_root = []\<rparr>", OF 1 2, THEN conjunct1])
  then show ?thesis by simp
qed

section \<open>Reading what was stored\<close>

text \<open>What the queries return for a validator's attestation once it is stored.\<close>

definition readable :: "pubkey \<Rightarrow> unsigned_attestation \<Rightarrow> 'b duty_db \<Rightarrow> bool" where
  "readable pk a s \<longleftrightarrow>
     (let slot = adata_slot (ua_data a); ci = at_committee_index (ua_duty a); vi = at_validator_index (ua_duty a)
      in pub_key_by_attestation slot ci vi s = Inr pk \<and> pub_key_by_attestation slot 0 vi s = Inr pk
       \<and> (\<exists>x. await_attestation slot ci s = Found x \<and> adata_source x = adata_source (ua_data a)
            \<and> adata_target x = adata_target (ua_data a)
            \<and> adata_beacon_block_root x = adata_beacon_block_root (ua_data a))
       \<and> (\<exists>x. await_attestation slot 0 s = Found x \<and> adata_source x = adata_source (ua_data a)
            \<and> adata_target x = adata_target (ua_data a)))"

definition att_grows :: "'b duty_db \<Rightarrow> 'b duty_db \<Rightarrow> bool" where
  "att_grows s s' \<longleftrightarrow> map_of (attestation_duties s) \<subseteq>\<^sub>m map_of (attestation_duties s')
     \<and> map_of (attestation_pub_keys s) \<subseteq>\<^sub>m map_of (attestation_pub_keys s')"

lemma att_grows_refl [simp]: "att_grows s s"
  by (simp add: att_grows_def)

lemma att_grows_trans: "att_grows s s' \<Longrightarrow> att_grows s' s'' \<Longrightarrow> att_grows s s''"
  unfolding att_grows_def by (meson map_le_trans)

lemma map_le_update: "map_of m k = None \<Longrightarrow> map_of m \<subseteq>\<^sub>m map_of (AList.update k v m)"
  by (auto simp: map_le_def update_conv')

lemma store_att_grows:
  "att_grows s (snd (store_att_pubkey slot ds ci vi pk s))"
  "att_grows s (snd (store_att_data slot ci data s))"
  "att_grows s (snd (store_att_data_commidx0 slot data s))"
  by (auto simp: store_att_pubkey_def store_att_data_def store_att_data_commidx0_def att_grows_def map_le_update Let_def split: option.splits)

lemma op_then_grows:
  assumes "\<And>s. att_grows s (snd (f s))" "\<And>s. att_grows s (snd (g s))"
  shows "att_grows s (snd (op_then f g s))"
proof (rule op_then_inv)
  show "att_grows s s" by simp
  show "att_grows s (snd (f s'))" "att_grows s (snd (g s'))" if "att_grows s s'" for s'
    by (rule att_grows_trans [OF that assms(1)], rule att_grows_trans [OF that assms(2)])
qed

lemma store_attestation_grows: "att_grows s (snd (store_attestation pk a s))"
  unfolding store_attestation_def Let_def by (intro op_then_grows store_att_grows)

lemma map_leD: "m \<subseteq>\<^sub>m m' \<Longrightarrow> m k = Some v \<Longrightarrow> m' k = Some v"
  by (metis domI map_le_def)

lemma await_grows: "att_grows s s' \<Longrightarrow> await_attestation slot ci s = Found x \<Longrightarrow> await_attestation slot ci s' = Found x"
  unfolding att_grows_def by (auto simp: await_attestation_def dest: map_leD split: option.splits if_splits simp del: map_of_eq_Some_iff)

lemma pub_key_grows: "att_grows s s' \<Longrightarrow> pub_key_by_attestation slot ci vi s = Inr x \<Longrightarrow> pub_key_by_attestation slot ci vi s' = Inr x"
  unfolding att_grows_def by (auto simp: pub_key_by_attestation_def dest: map_leD simp del: map_of_eq_Some_iff)

lemma readable_grows: "att_grows s s' \<Longrightarrow> readable pk a s \<Longrightarrow> readable pk a s'"
  unfolding readable_def Let_def using await_grows pub_key_grows by blast

lemma store_att_pubkey_Inr:
  "store_att_pubkey slot ds ci vi pk s = (Inr (), s') \<Longrightarrow> pub_key_by_attestation slot ci vi s' = Inr pk"
  using store_att_pubkey_stored [of slot ds ci vi pk s "()" s'] by (simp add: pub_key_by_attestation_def)

lemma store_att_data_Inr:
  "store_att_data slot ci data s = (Inr (), s') \<Longrightarrow> \<exists>x. await_attestation slot ci s' = Found x \<and> adata_source x = adata_source data
     \<and> adata_target x = adata_target data \<and> adata_beacon_block_root x = adata_beacon_block_root data"
  by (auto simp: store_att_data_def await_attestation_def Let_def update_conv' split: option.splits if_splits simp del: map_of_eq_Some_iff)

lemma store_att_data_commidx0_Inr:
  "store_att_data_commidx0 slot data s = (Inr (), s') \<Longrightarrow> \<exists>x. await_attestation slot 0 s' = Found x \<and> adata_source x = adata_source data
     \<and> adata_target x = adata_target data"
  by (auto simp: store_att_data_commidx0_def await_attestation_def Let_def update_conv' split: option.splits if_splits
      simp del: map_of_eq_Some_iff)

lemma store_attestation_readable:
  assumes "store_attestation pk a s = (Inr (), s')" shows "readable pk a s'"
proof -
  let ?slot = "adata_slot (ua_data a)" and ?ds = "at_slot (ua_duty a)"
  let ?ci = "at_committee_index (ua_duty a)" and ?vi = "at_validator_index (ua_duty a)"
  obtain s1 s2 s3 where st: "store_att_pubkey ?slot ?ds ?ci ?vi pk s = (Inr (), s1)" "store_att_data ?slot ?ci (ua_data a) s1 = (Inr (), s2)"
    "store_att_pubkey ?slot ?ds 0 ?vi pk s2 = (Inr (), s3)" "store_att_data_commidx0 ?slot (ua_data a) s3 = (Inr (), s')"
    using assms by (auto simp: store_attestation_def op_then_Inr Let_def)
  have g: "att_grows s3 s'" "att_grows s2 s3" "att_grows s1 s2"
    using store_att_grows(3) [of s3 ?slot "ua_data a"] store_att_grows(1) [of s2 ?slot ?ds 0 ?vi pk]
      store_att_grows(2) [of s1 ?slot ?ci "ua_data a"] st by simp_all
  have "pub_key_by_attestation ?slot ?ci ?vi s' = Inr pk"
    using store_att_pubkey_Inr [OF st(1)] g att_grows_trans pub_key_grows by metis
  moreover have "pub_key_by_attestation ?slot 0 ?vi s' = Inr pk" using store_att_pubkey_Inr [OF st(3)] g(1) pub_key_grows by metis
  moreover obtain x where "await_attestation ?slot ?ci s2 = Found x" "adata_source x = adata_source (ua_data a)"
    "adata_target x = adata_target (ua_data a)" "adata_beacon_block_root x = adata_beacon_block_root (ua_data a)"
    using store_att_data_Inr [OF st(2)] by blast
  moreover from this(1) have "await_attestation ?slot ?ci s' = Found x" using g(1,2) att_grows_trans await_grows by metis
  ultimately show ?thesis using store_att_data_commidx0_Inr [OF st(4)] unfolding readable_def Let_def by blast
qed

lemma store_keeps_rx:
  "deadliner_rx (snd (store_proposal th p s)) = deadliner_rx s"
  "deadliner_rx (snd (store_att_pubkey slot ds ci vi pk s)) = deadliner_rx s"
  "deadliner_rx (snd (store_att_data slot ci data s)) = deadliner_rx s"
  "deadliner_rx (snd (store_att_data_commidx0 slot data s)) = deadliner_rx s"
  by (auto simp: store_proposal_def store_att_pubkey_def store_att_data_def store_att_data_commidx0_def Let_def split: option.splits)

lemma store_attestation_keeps_rx: "deadliner_rx (snd (store_attestation pk a s)) = deadliner_rx s"
  unfolding store_attestation_def Let_def
  by (rule op_then_inv [where P = "\<lambda>s'. deadliner_rx s' = deadliner_rx s"] | simp add: store_keeps_rx)+

lemma attester_set_keeps_rx: "deadliner_rx (snd (store_set th Attester us s)) = deadliner_rx s"
  unfolding store_set_def
  by (simp, rule op_loop_inv [where P = "\<lambda>s'. deadliner_rx s' = deadliner_rx s"])
    (auto simp: store_attestation_keeps_rx split: unsigned_data.splits)

text \<open>
  C28. Attestations are served as stored: after a successful store of an attester duty, with no
  expired duty to drain, every validator of the set is found by its committee position,
  its data is served under its committee with its own source, target and head, and data of
  the same source and target is served under committee index zero.
\<close>

theorem dutydb_attestations_readable:
  assumes "dutydb_store th ord added d us s = (ws, Inr (), s')" "d_type d = Attester" "deadliner_rx s = []"
    and "(pk, UAttestation a) \<in> set us"
  shows "readable pk a s'"
proof -
  let ?us = "hash_iter (ord 0) us"
  obtain s1 where s1: "store_set th Attester ?us s = (Inr (), s1)" "s' = s1\<lparr>deadliner_rx := []\<rparr>"
    using assms(1-3) attester_set_keeps_rx [of th ?us s]
    by (cases added) (auto simp: dutydb_store_def split: prod.splits sum.splits)
  have "readable pk a s1"
  proof (rule op_loop_establishes [where x = "(pk, UAttestation a)" and Q = "readable pk a"])
    show "op_loop (\<lambda>(pk, data). case data of UAttestation a \<Rightarrow> store_attestation pk a | _ \<Rightarrow> (\<lambda>s. (Inl InvalidAttestationData, s))) ?us s = (Inr (), s1)"
      using s1(1) by (simp add: store_set_def)
    show "(pk, UAttestation a) \<in> set ?us" using assms(4) by simp
  next
    fix y and s :: "'a duty_db" assume "readable pk a s"
    then show "readable pk a (snd ((case y of (pk, data) \<Rightarrow> case data of UAttestation a \<Rightarrow> store_attestation pk a
        | _ \<Rightarrow> (\<lambda>s. (Inl InvalidAttestationData, s))) s))"
      by (auto simp: readable_grows [OF store_attestation_grows] split: prod.splits unsigned_data.splits)
  qed (simp add: store_attestation_readable)
  moreover have "att_grows s1 s'" by (simp add: s1(2) att_grows_def)
  ultimately show ?thesis by (rule readable_grows [rotated])
qed

lemma sample_store:
  "fst (snd (dutydb_store sample_th in_order Scheduled (new_duty 5 Attester) [([7], sample_att 5 3 2 9), ([8], sample_att 5 4 1 6)] duty_db_new)) = Inr ()"
  by code_simp

theorem dutydb_attestations_readable_witness:
  "\<exists>ws s' a. dutydb_store sample_th in_order Scheduled (new_duty 5 Attester) [([7], sample_att 5 3 2 9), ([8], sample_att 5 4 1 6)] duty_db_new
     = (ws, Inr (), s') \<and> sample_att 5 4 1 6 = UAttestation a \<and> readable [8] a s'"
proof -
  obtain ws s' where st: "dutydb_store sample_th in_order Scheduled (new_duty 5 Attester) [([7], sample_att 5 3 2 9), ([8], sample_att 5 4 1 6)]
      duty_db_new = (ws, Inr (), s')" using sample_store by (metis prod.collapse)
  obtain a where a: "sample_att 5 4 1 6 = UAttestation a" by (simp add: sample_att_def)
  then have "readable [8] a s'" using dutydb_attestations_readable [OF st, of "[8]" a] by (simp add: new_duty_def duty_db_new_def)
  then show ?thesis using st a by blast
qed

section \<open>Waking the queries\<close>

lemma same_lookups:
  "same_proposals s s' \<Longrightarrow> await_proposal slot s' = await_proposal slot s"
  "same_attestations s s' \<Longrightarrow> await_attestation slot ci s' = await_attestation slot ci s"
  "same_aggregations s s' \<Longrightarrow> await_agg_attestation r s' = await_agg_attestation r s"
  "same_contribs s s' \<Longrightarrow> await_sync_contribution slot si r s' = await_sync_contribution slot si r s"
  by (simp_all add: same_defs await_proposal_def await_attestation_def await_agg_attestation_def await_sync_contribution_def)

text \<open>Only the parts of the woken duty types have changed.\<close>

definition changed_within :: "duty_type list \<Rightarrow> 'b duty_db \<Rightarrow> 'b duty_db \<Rightarrow> bool" where
  "changed_within ws s s' \<longleftrightarrow> (Proposer \<in> set ws \<or> same_proposals s s') \<and> (Attester \<in> set ws \<or> same_attestations s s')
     \<and> (Aggregator \<in> set ws \<or> same_aggregations s s') \<and> (SyncContribution \<in> set ws \<or> same_contribs s s')"

lemma changed_within_touches: "touches t s s' \<Longrightarrow> changed_within (wake t) s s'"
  by (auto simp: touches_def changed_within_def wake_def)

lemma same_trans:
  "same_proposals s s' \<Longrightarrow> same_proposals s' s'' \<Longrightarrow> same_proposals s s''"
  "same_attestations s s' \<Longrightarrow> same_attestations s' s'' \<Longrightarrow> same_attestations s s''"
  "same_aggregations s s' \<Longrightarrow> same_aggregations s' s'' \<Longrightarrow> same_aggregations s s''"
  "same_contribs s s' \<Longrightarrow> same_contribs s' s'' \<Longrightarrow> same_contribs s s''"
  by (simp_all add: same_defs)

lemma changed_within_trans: "changed_within ws s s' \<Longrightarrow> changed_within ws' s' s'' \<Longrightarrow> changed_within (ws @ ws') s s''"
  using same_trans [of s s' s''] unfolding changed_within_def set_append Un_iff by blast

lemma delete_duty_error: "fst (delete_duty d s) = Inl e \<Longrightarrow> snd (delete_duty d s) = s"
  by (cases "d_type d") (simp_all add: delete_duty_def Let_def)

lemma drain_changes: "drain rx s = (ws, r, s') \<Longrightarrow> changed_within ws s s'"
proof (induction rx arbitrary: s ws)
  case Nil
  then show ?case by (auto simp: changed_within_def same_defs)
next
  case (Cons d rx)
  show ?case
  proof (cases "fst (delete_duty d s)")
    case (Inl e)
    then have "s' = s\<lparr>deadliner_rx := rx\<rparr>" "ws = []"
      using Cons.prems delete_duty_error [OF Inl] by (auto split: prod.splits sum.splits)
    then show ?thesis by (simp add: changed_within_def same_defs)
  next
    case (Inr u)
    then obtain ws' where ws': "drain rx (snd (delete_duty d s)) = (ws', r, s')" "ws = wake (d_type d) @ ws'"
      using Cons.prems by (auto split: prod.splits sum.splits)
    then show ?thesis
      using changed_within_trans [OF changed_within_touches [OF delete_duty_touches] Cons.IH] by blast
  qed
qed

lemma dutydb_store_changes:
  assumes "dutydb_store th ord added d us s = (ws, Inr (), s')" shows "changed_within ws s s'"
proof -
  let ?us = "hash_iter (ord 0) us"
  obtain ws' s1 where st: "store_set th (d_type d) ?us s = (Inr (), s1)" "drain (deadliner_rx s1) s1 = (ws', Inr (), s')"
    "ws = wake (d_type d) @ ws'"
    using assms by (cases added) (auto simp: dutydb_store_def split: if_splits prod.splits sum.splits)
  have "touches (d_type d) s s1" using store_set_touches [of "d_type d" s th ?us] st(1) by simp
  then show ?thesis using changed_within_trans [OF changed_within_touches drain_changes [OF st(2)]] st(3) by simp
qed

text \<open>
  C29. No query sleeps through an answer: when a store succeeds, every blocking query whose
  lookup gives another answer than before, because its data arrived or because its duty was
  evicted, is parked on a notification that the store has sent.
\<close>

theorem dutydb_store_wakes:
  assumes "dutydb_store th ord added d us s = (ws, Inr (), s')"
  shows "(await_proposal slot s' \<noteq> await_proposal slot s \<longrightarrow> Proposer \<in> set ws)
    \<and> (await_attestation slot ci s' \<noteq> await_attestation slot ci s \<longrightarrow> Attester \<in> set ws)
    \<and> (await_agg_attestation r s' \<noteq> await_agg_attestation r s \<longrightarrow> Aggregator \<in> set ws)
    \<and> (await_sync_contribution slot si r s' \<noteq> await_sync_contribution slot si r s \<longrightarrow> SyncContribution \<in> set ws)"
  using dutydb_store_changes [OF assms] same_lookups [of s s'] unfolding changed_within_def by blast

theorem dutydb_store_wakes_witness:
  "\<exists>ws s'. dutydb_store sample_th in_order Scheduled (new_duty 5 Attester) [([7], sample_att 5 3 2 9), ([8], sample_att 5 4 1 6)] duty_db_new
     = (ws, Inr (), s') \<and> await_attestation 5 2 s' \<noteq> await_attestation 5 2 (duty_db_new :: nat duty_db) \<and> Attester \<in> set ws"
proof -
  obtain ws s' where st: "dutydb_store sample_th in_order Scheduled (new_duty 5 Attester) [([7], sample_att 5 3 2 9), ([8], sample_att 5 4 1 6)]
      duty_db_new = (ws, Inr (), s')" using sample_store by (metis prod.collapse)
  have "await_attestation 5 2 (snd (snd (dutydb_store sample_th in_order Scheduled (new_duty 5 Attester)
      [([7], sample_att 5 3 2 9), ([8], sample_att 5 4 1 6)] duty_db_new))) = Found (sample_data 5 3)" by code_simp
  moreover have "await_attestation 5 2 (duty_db_new :: nat duty_db) = Pending" by code_simp
  ultimately have "await_attestation 5 2 s' \<noteq> await_attestation 5 2 (duty_db_new :: nat duty_db)" using st by simp
  then show ?thesis using dutydb_store_wakes [OF st, where slot = 5 and ci = 2] st by blast
qed

text \<open>A store that fails half way sends no notification, although it has stored the data of
  the validators before the clash: their queries stay parked.\<close>

lemma dutydb_failed_store_wakes_nobody:
  "let s0 = snd (snd (dutydb_store sample_th in_order Scheduled (new_duty 5 Attester) [([7], sample_att 5 3 2 9)] duty_db_new));
       (ws, r, s') = dutydb_store sample_th in_order Scheduled (new_duty 5 Attester) [([8], sample_att 5 4 1 6), ([9], sample_att 5 4 2 8)] s0
   in ws = [] \<and> r = Inl (ClashingAttestationData 5 2) \<and> await_attestation 5 1 s0 = Pending \<and> await_attestation 5 1 s' = Found (sample_data 5 4)"
  by code_simp

text \<open>A duty type that the database refuses is registered with the deadliner before it is
  refused. When it expires, the store that drains it fails, after its own data is stored.\<close>

lemma dutydb_refused_duty_fails_later_store:
  "fst (snd (dutydb_store sample_th in_order Scheduled (new_duty 4 Randao) [] duty_db_new)) = Inl UnsupportedDutyType
   \<and> (let (ws, r, s') = dutydb_store sample_th in_order Scheduled (new_duty 5 Attester) [([7], sample_att 5 3 2 9)]
              (duty_db_new\<lparr>deadliner_rx := [new_duty 4 Randao]\<rparr>)
      in r = Inl UnknownDutyType \<and> await_attestation 5 2 s' = Found (sample_data 5 3))"
  by code_simp

end
