(* ===== verification/Rlp.thy ===== *)
theory Rlp
  imports Prelude
begin

text \<open>
  The recursive-length-prefix codec for byte strings and lists of byte strings
  (crates/eth2util/src/rlp.rs, utils.rs), which the node records are serialised with. A byte
  is a number below 256; a \<open>usize\<close> is a number below \<open>2 ^ 64\<close>, with its wrapping and checked
  operations written out. The loop of the list decoder is a partial function, so that its
  termination is a theorem.
\<close>

section \<open>Sizes and big-endian numbers\<close>

definition wrapping_add_usize :: "nat \<Rightarrow> nat \<Rightarrow> nat" where
  "wrapping_add_usize a b = (a + b) mod 2 ^ 64"

definition checked_add_usize :: "nat \<Rightarrow> nat \<Rightarrow> nat option" where
  "checked_add_usize a b = (if a + b < 2 ^ 64 then Some (a + b) else None)"

text \<open>A shift by eight drops the bits that leave the word; only the addition is checked.\<close>

definition shl8_usize :: "nat \<Rightarrow> nat" where
  "shl8_usize a = (a * 256) mod 2 ^ 64"

fun to_be_bytes :: "nat \<Rightarrow> nat \<Rightarrow> nat list" where
  "to_be_bytes 0 n = []"
| "to_be_bytes (Suc k) n = to_be_bytes k (n div 256) @ [n mod 256]"

definition to_big_endian :: "nat \<Rightarrow> nat list" where
  "to_big_endian n = dropWhile (\<lambda>x. x = 0) (to_be_bytes 8 n)"

definition slice :: "'a list \<Rightarrow> nat \<Rightarrow> nat \<Rightarrow> 'a list" where
  "slice xs a b = take (b - a) (drop a xs)"

section \<open>Encoding\<close>

datatype rlp_error = InputTooShort | NegativeLength | Overflow

definition encode_length :: "nat \<Rightarrow> nat \<Rightarrow> nat list" where
  "encode_length len offset =
     (if len < 56 then [(len + offset) mod 256]
      else let be = to_big_endian len in ((length be + offset) mod 256 + 55) mod 256 # be)"

definition encode_bytes :: "nat list \<Rightarrow> nat list" where
  "encode_bytes item =
     (if length item = 1 \<and> hd item < 0x80 then item
      else encode_length (length item) 0x80 @ item)"

definition encode_bytes_list :: "nat list list \<Rightarrow> nat list" where
  "encode_bytes_list items =
     (let encoded_items = concat (map encode_bytes items)
      in encode_length (length encoded_items) 0xc0 @ encoded_items)"

section \<open>Decoding\<close>

fun be_fold :: "nat list \<Rightarrow> nat \<Rightarrow> nat option" where
  "be_fold [] acc = Some acc"
| "be_fold (b # bs) acc =
     (case checked_add_usize (shl8_usize acc) b of None \<Rightarrow> None | Some acc' \<Rightarrow> be_fold bs acc')"

definition from_big_endian :: "nat list \<Rightarrow> nat \<Rightarrow> nat \<Rightarrow> rlp_error + nat" where
  "from_big_endian bytes offset len =
     (if length bytes \<le> offset \<or> length bytes \<le> wrapping_add_usize offset len then Inl InputTooShort
      else ok_or Overflow (be_fold (slice bytes offset (wrapping_add_usize offset len)) 0))"

definition validate_length_and_offset :: "nat \<Rightarrow> nat \<Rightarrow> rlp_error + unit" where
  "validate_length_and_offset offset len = ok_or Overflow (map_option (\<lambda>_. ()) (checked_add_usize offset len))"

definition long_length :: "nat list \<Rightarrow> nat \<Rightarrow> rlp_error + nat \<times> nat" where
  "long_length item length_size =
     (let offset = wrapping_add_usize 1 length_size
      in res_bind (from_big_endian item 1 length_size) (\<lambda>len.
         res_bind (validate_length_and_offset offset len) (\<lambda>_. Inr (offset, len))))"

definition decode_length :: "nat list \<Rightarrow> rlp_error + nat \<times> nat" where
  "decode_length item =
     (case item of
        [] \<Rightarrow> Inl InputTooShort
      | prefix # _ \<Rightarrow>
          if prefix \<le> 0x7f then Inr (0, 1)
          else if prefix \<le> 0xb7 then Inr (1, prefix - 0x80)
          else if prefix \<le> 0xbf then long_length item (prefix - 0xb7)
          else if prefix \<le> 0xf7 then Inr (1, prefix - 0xc0)
          else long_length item (prefix - 0xf7))"

definition decode_bytes :: "nat list \<Rightarrow> rlp_error + nat list" where
  "decode_bytes input =
     (if input = [] then Inr []
      else res_bind (decode_length input) (\<lambda>(offset, len).
        if wrapping_add_usize offset len > length input then Inl InputTooShort
        else Inr (slice input offset (wrapping_add_usize offset len))))"

partial_function (option) decode_items ::
  "nat list \<Rightarrow> nat \<Rightarrow> nat \<Rightarrow> nat list list \<Rightarrow> (rlp_error + nat list list) option" where
  [code]: "decode_items input limit i items =
     (if i < limit then
        (case decode_length (drop i input) of
           Inl e \<Rightarrow> Some (Inl e)
         | Inr ol \<Rightarrow>
             (let start = wrapping_add_usize i (fst ol);
                  fin = wrapping_add_usize start (snd ol)
              in if fin > length input \<or> start > fin then Some (Inl InputTooShort)
                 else decode_items input limit fin (items @ [slice input start fin])))
      else Some (Inr items))"

definition decode_bytes_list :: "nat list \<Rightarrow> (rlp_error + nat list list) option" where
  "decode_bytes_list input =
     (if input = [] then Some (Inr [])
      else case decode_length input of
        Inl e \<Rightarrow> Some (Inl e)
      | Inr (offset, len) \<Rightarrow>
          if wrapping_add_usize offset len > length input then Some (Inl InputTooShort)
          else decode_items input (wrapping_add_usize offset len) offset [])"

section \<open>Big-endian numbers\<close>

definition be_value :: "nat list \<Rightarrow> nat" where
  "be_value bs = foldl (\<lambda>a b. a * 256 + b) 0 bs"

lemma be_value_snoc [simp]: "be_value (bs @ [b]) = be_value bs * 256 + b"
  by (simp add: be_value_def)

lemma be_value_Nil [simp]: "be_value [] = 0"
  by (simp add: be_value_def)

lemma length_to_be_bytes [simp]: "length (to_be_bytes k n) = k"
  by (induction k arbitrary: n) simp_all

lemma be_value_to_be_bytes: "be_value (to_be_bytes k n) = n mod 256 ^ k"
proof (induction k arbitrary: n)
  case (Suc k)
  have "n mod 256 ^ Suc k = (n div 256) mod 256 ^ k * 256 + n mod 256"
    by (simp add: mod_mult2_eq mult.commute)
  then show ?case by (simp add: Suc)
qed simp

lemma to_be_bytes_lt: "b \<in> set (to_be_bytes k n) \<Longrightarrow> b < 256"
  by (induction k arbitrary: n) auto

lemma foldl_be: "foldl (\<lambda>a b. a * 256 + b) a bs = a * 256 ^ length bs + be_value bs"
proof (induction bs rule: rev_induct)
  case (snoc b bs)
  then show ?case by (simp add: algebra_simps)
qed simp

lemma be_value_Cons: "be_value (b # bs) = b * 256 ^ length bs + be_value bs"
  using foldl_be [of b bs] by (simp add: be_value_def)

lemma be_value_dropWhile: "be_value (dropWhile (\<lambda>x. x = 0) bs) = be_value bs"
  by (induction bs) (auto simp: be_value_Cons)

lemma be_fold_value:
  "be_value bs + acc * 256 ^ length bs < 2 ^ 64 \<Longrightarrow> be_fold bs acc = Some (be_value bs + acc * 256 ^ length bs)"
proof (induction bs arbitrary: acc)
  case (Cons b bs)
  have eq: "be_value (b # bs) + acc * 256 ^ length (b # bs) = be_value bs + (acc * 256 + b) * 256 ^ length bs"
    by (simp add: be_value_Cons algebra_simps)
  have "(acc * 256 + b) * 1 \<le> (acc * 256 + b) * 256 ^ length bs" by (intro mult_le_mono2) simp
  then have "acc * 256 + b \<le> be_value bs + (acc * 256 + b) * 256 ^ length bs" by (simp add: trans_le_add2)
  then have small: "acc * 256 + b < 2 ^ 64" by (rule le_less_trans [OF _ Cons.prems [unfolded eq]])
  then have "checked_add_usize (shl8_usize acc) b = Some (acc * 256 + b)"
    by (simp add: checked_add_usize_def shl8_usize_def)
  then show ?case using Cons.IH [of "acc * 256 + b"] Cons.prems unfolding eq by simp
qed simp

lemma to_big_endian_value: "n < 2 ^ 64 \<Longrightarrow> be_value (to_big_endian n) = n"
  by (simp add: to_big_endian_def be_value_dropWhile be_value_to_be_bytes)

lemma to_big_endian_length: "0 < n \<Longrightarrow> n < 2 ^ 64 \<Longrightarrow> 1 \<le> length (to_big_endian n) \<and> length (to_big_endian n) \<le> 8"
proof -
  assume "0 < n" "n < 2 ^ 64"
  then have "to_big_endian n \<noteq> []" using to_big_endian_value [of n] by auto
  moreover have "length (to_big_endian n) \<le> 8"
    unfolding to_big_endian_def using length_dropWhile_le [of "\<lambda>x. x = 0" "to_be_bytes 8 n"] by simp
  ultimately show ?thesis by (simp add: Suc_leI)
qed

section \<open>Round trip\<close>

lemma slice_middle: "slice (xs @ ys @ zs) (length xs) (length xs + length ys) = ys"
  by (simp add: slice_def)

lemma long_length_decodes:
  assumes "56 \<le> n" "n < 2 ^ 63" "n \<le> length rest"
  shows "long_length (p # to_big_endian n @ rest) (length (to_big_endian n)) = Inr (1 + length (to_big_endian n), n)"
proof -
  let ?be = "to_big_endian n"
  have n: "n < 2 ^ 64" using assms(2) by simp
  have l: "1 \<le> length ?be" "length ?be \<le> 8" using to_big_endian_length [of n] assms(1) n by simp_all
  have w: "wrapping_add_usize (Suc 0) (length ?be) = Suc (length ?be)" using l(2) by (simp add: wrapping_add_usize_def)
  have "slice (p # ?be @ rest) 1 (1 + length ?be) = ?be" using slice_middle [of "[p]" ?be rest] by simp
  then have "from_big_endian (p # ?be @ rest) 1 (length ?be) = Inr n"
    using be_fold_value [of ?be 0] n assms(1,3) by (cases rest) (simp_all add: from_big_endian_def w to_big_endian_value)
  moreover have "validate_length_and_offset (1 + length ?be) n = Inr ()"
    using assms(2) l(2) by (simp add: validate_length_and_offset_def checked_add_usize_def)
  ultimately show ?thesis by (simp add: long_length_def w)
qed

text \<open>A length prefix is read back, whatever follows the payload.\<close>

lemma decode_encode_length:
  assumes "n < 2 ^ 63" "n \<le> length rest" "offset = 0x80 \<or> offset = 0xc0"
  shows "decode_length (encode_length n offset @ rest) = Inr (length (encode_length n offset), n)"
proof (cases "n < 56")
  case True
  then show ?thesis using assms(3) by (auto simp: encode_length_def decode_length_def)
next
  case False
  then have n: "56 \<le> n" "0 < n" "n < 2 ^ 64" using assms(1) by simp_all
  note l = to_big_endian_length [OF n(2,3)]
  show ?thesis
    using long_length_decodes [OF n(1) assms(1,2)] l assms(3) False
    by (auto simp: encode_length_def decode_length_def Let_def)
qed

definition bytes_ok :: "nat list \<Rightarrow> bool" where
  "bytes_ok bs \<longleftrightarrow> (\<forall>b \<in> set bs. b < 256)"

lemma encode_bytes_pos: "0 < length (encode_bytes item)"
  by (auto simp: encode_bytes_def encode_length_def Let_def)

lemma encode_bytes_le: "length item \<le> length (encode_bytes item)"
  by (simp add: encode_bytes_def)

lemma decode_item:
  assumes "length item < 2 ^ 63"
  shows "\<exists>hdr. encode_bytes item = hdr @ item \<and> decode_length (encode_bytes item @ rest) = Inr (length hdr, length item)"
proof (cases "length item = 1 \<and> hd item < 0x80")
  case True
  then obtain b where "item = [b]" "b < 0x80" by (metis length_0_conv length_Suc_conv list.sel(1) One_nat_def)
  then show ?thesis by (simp add: encode_bytes_def decode_length_def)
next
  case False
  then have "encode_bytes item = encode_length (length item) 0x80 @ item" by (auto simp: encode_bytes_def)
  then show ?thesis using decode_encode_length [OF assms, of "item @ rest" "0x80"] by simp
qed

lemma wrapping_add_small: "a + b < 2 ^ 64 \<Longrightarrow> wrapping_add_usize a b = a + b"
  by (simp add: wrapping_add_usize_def)

lemma decode_items_roundtrip:
  assumes "length (done @ concat (map encode_bytes todo)) < 2 ^ 63"
  shows "decode_items (done @ concat (map encode_bytes todo)) (length (done @ concat (map encode_bytes todo))) (length done) items
    = Some (Inr (items @ todo))"
  using assms
proof (induction todo arbitrary: "done" items)
  case Nil
  then show ?case by (subst decode_items.simps) simp
next
  case (Cons item todo)
  let ?rest = "concat (map encode_bytes todo)"
  let ?input = "done @ encode_bytes item @ ?rest"
  obtain hdr where hdr: "encode_bytes item = hdr @ item" "decode_length (encode_bytes item @ ?rest) = Inr (length hdr, length item)"
    using decode_item [of item ?rest] encode_bytes_le [of item] Cons.prems by auto
  have small: "length done + length hdr + length item + length ?rest < 2 ^ 63" using Cons.prems hdr(1) by simp
  have w: "wrapping_add_usize (length done) (length hdr) = length done + length hdr"
    "wrapping_add_usize (length done + length hdr) (length item) = length done + length hdr + length item"
    using small by (simp_all add: wrapping_add_small)
  have "slice ?input (length done + length hdr) (length done + length hdr + length item) = item"
    using slice_middle [of "done @ hdr" item ?rest] by (simp add: hdr(1))
  then have "decode_items ?input (length ?input) (length done) items
      = decode_items ?input (length ?input) (length done + length hdr + length item) (items @ [item])"
    using encode_bytes_pos [of item] small
    by (subst decode_items.simps, simp add: hdr(2) w, simp add: hdr(1) add.assoc)
  then show ?case using Cons.IH [of "done @ encode_bytes item" "items @ [item]"] Cons.prems by (simp add: hdr(1) add.assoc)
qed

text \<open>
  C32. Byte strings and lists of byte strings survive the codec: decoding an encoding gives back
  the value, for short and long forms alike, as long as the encoding fits in memory.
\<close>

theorem rlp_roundtrip:
  assumes "length (encode_bytes_list items) < 2 ^ 63" "length (encode_bytes item) < 2 ^ 63"
  shows "decode_bytes_list (encode_bytes_list items) = Some (Inr items) \<and> decode_bytes (encode_bytes item) = Inr item"
proof
  let ?e = "concat (map encode_bytes items)"
  let ?p = "encode_length (length ?e) 0xc0"
  have eq: "encode_bytes_list items = ?p @ ?e" by (simp add: encode_bytes_list_def Let_def)
  have len: "length ?p + length ?e < 2 ^ 63" using assms(1) by (simp add: eq)
  have dl: "decode_length (?p @ ?e) = Inr (length ?p, length ?e)" using decode_encode_length [of "length ?e" ?e "0xc0"] len by simp
  have ne: "?p @ ?e \<noteq> []" by (simp add: encode_length_def Let_def)
  have w: "wrapping_add_usize (length ?p) (length ?e) = length (?p @ ?e)" using len by (simp add: wrapping_add_small)
  have "decode_items (?p @ ?e) (length (?p @ ?e)) (length ?p) [] = Some (Inr ([] @ items))"
    by (rule decode_items_roundtrip) (use len in simp)
  then show "decode_bytes_list (encode_bytes_list items) = Some (Inr items)"
    using ne by (simp add: decode_bytes_list_def eq dl w del: append_is_Nil_conv)
next
  obtain hdr where hdr: "encode_bytes item = hdr @ item" "decode_length (encode_bytes item @ []) = Inr (length hdr, length item)"
    using decode_item [of item "[]"] encode_bytes_le [of item] assms(2) by auto
  have w: "wrapping_add_usize (length hdr) (length item) = length hdr + length item"
    using assms(2) by (simp add: hdr(1) wrapping_add_small)
  have "slice (hdr @ item) (length hdr) (length hdr + length item) = item" using slice_middle [of hdr item "[]"] by simp
  then show "decode_bytes (encode_bytes item) = Inr item"
    using hdr encode_bytes_pos [of item] by (auto simp: decode_bytes_def w)
qed

theorem rlp_roundtrip_witness:
  "decode_bytes_list (encode_bytes_list [[0x63, 0x61, 0x74], [], replicate 60 7]) = Some (Inr [[0x63, 0x61, 0x74], [], replicate 60 7])
   \<and> decode_bytes (encode_bytes [0x7f]) = Inr [0x7f]"
proof (rule rlp_roundtrip)
  have "length (encode_bytes_list [[0x63, 0x61, 0x74], [], replicate 60 7]) = 69" by code_simp
  then show "length (encode_bytes_list [[0x63, 0x61, 0x74], [], replicate 60 7]) < 2 ^ 63" by simp
  have "length (encode_bytes [0x7f]) = 1" by code_simp
  then show "length (encode_bytes [0x7f]) < 2 ^ 63" by simp
qed

section \<open>Termination\<close>

lemma long_length_Inr:
  "long_length xs sz = Inr (o', l) \<Longrightarrow> 1 \<le> sz \<Longrightarrow> sz \<le> 8 \<Longrightarrow> 2 \<le> o' \<and> o' \<le> 9 \<and> o' + l < 2 ^ 64"
  by (auto simp: long_length_def Let_def validate_length_and_offset_def checked_add_usize_def wrapping_add_usize_def split: if_splits)

lemma decode_length_progress:
  assumes "decode_length xs = Inr (o', l)" "bytes_ok xs"
  shows "0 < o' + l \<and> o' \<le> 9 \<and> o' + l < 2 ^ 64"
proof -
  obtain p ys where xs: "xs = p # ys" "p < 256" using assms by (cases xs) (auto simp: decode_length_def bytes_ok_def)
  consider "p \<le> 0xb7" | "0xb7 < p" "p \<le> 0xbf" | "0xbf < p" "p \<le> 0xf7" | "0xf7 < p" by linarith
  then show ?thesis
  proof cases
    case 2
    then have "long_length xs (p - 0xb7) = Inr (o', l)" using assms(1) by (simp add: decode_length_def xs(1))
    then show ?thesis using long_length_Inr [of xs "p - 0xb7" o' l] 2 by linarith
  next
    case 4
    then have "long_length xs (p - 0xf7) = Inr (o', l)" using assms(1) by (simp add: decode_length_def xs(1))
    then show ?thesis using long_length_Inr [of xs "p - 0xf7" o' l] 4 xs(2) by linarith
  qed (use assms(1) in \<open>auto simp: decode_length_def xs(1) split: if_splits\<close>)
qed

lemma no_wrap:
  assumes "i < 2 ^ 63" "o' \<le> 9" "o' + l < 2 ^ 64"
    and "wrapping_add_usize i o' \<le> wrapping_add_usize (wrapping_add_usize i o') l"
  shows "wrapping_add_usize (wrapping_add_usize i o') l = i + o' + l"
proof -
  have s: "wrapping_add_usize i o' = i + o'" using assms(1,2) by (simp add: wrapping_add_small)
  show ?thesis
  proof (cases "i + o' + l < 2 ^ 64")
    case True
    then show ?thesis by (simp add: s wrapping_add_small)
  next
    case False
    then have "(i + o' + l) mod 2 ^ 64 = i + o' + l - 2 ^ 64" using assms(1-3) by (simp add: mod_if)
    then have "wrapping_add_usize (i + o') l = i + o' + l - 2 ^ 64" by (simp only: wrapping_add_usize_def)
    then show ?thesis using assms(3,4) False unfolding s by linarith
  qed
qed

lemma bytes_ok_drop: "bytes_ok xs \<Longrightarrow> bytes_ok (drop n xs)"
  by (auto simp: bytes_ok_def dest: in_set_dropD)

lemma decode_items_total:
  assumes "bytes_ok input" "length input < 2 ^ 63" "limit \<le> length input" "i \<le> length input"
  shows "\<exists>r. decode_items input limit i items = Some r
    \<and> (\<forall>out. r = Inr out \<longrightarrow> (\<exists>new. out = items @ new \<and> sum_list (map length new) + i \<le> length input))"
  using assms(4)
proof (induction "length input - i" arbitrary: i items rule: less_induct)
  case less
  show ?case
  proof (cases "i < limit")
    case False
    then show ?thesis using less.prems by (subst decode_items.simps) auto
  next
    case True
    show ?thesis
    proof (cases "decode_length (drop i input)")
      case (Inl e)
      then show ?thesis using True by (subst decode_items.simps) simp
    next
      case (Inr ol)
      let ?start = "wrapping_add_usize i (fst ol)"
      let ?fin = "wrapping_add_usize ?start (snd ol)"
      have p: "0 < fst ol + snd ol" "fst ol \<le> 9" "fst ol + snd ol < 2 ^ 64"
        using decode_length_progress [of "drop i input" "fst ol" "snd ol"] Inr bytes_ok_drop [OF assms(1)] by auto
      show ?thesis
      proof (cases "?fin > length input \<or> ?start > ?fin")
        case bad: True
        then show ?thesis using True Inr by (subst decode_items.simps) (auto simp: Let_def)
      next
        case ok: False
        have start: "?start = i + fst ol" using p(2) True assms(2,3) by (simp add: wrapping_add_small)
        have fin: "?fin = i + fst ol + snd ol" using no_wrap [of i "fst ol" "snd ol"] p(2,3) True assms(2,3) ok by simp
        have eq: "decode_items input limit i items = decode_items input limit ?fin (items @ [slice input ?start ?fin])"
          using True Inr ok by (subst decode_items.simps) (auto simp: Let_def)
        have le: "?fin \<le> length input" using ok by simp
        have "length input - ?fin < length input - i" using p(1) fin le True assms(3) by linarith
        from less.hyps [OF this le, of "items @ [slice input ?start ?fin]"]
        obtain r where r: "decode_items input limit ?fin (items @ [slice input ?start ?fin]) = Some r"
          "\<forall>out. r = Inr out \<longrightarrow> (\<exists>new. out = (items @ [slice input ?start ?fin]) @ new \<and> sum_list (map length new) + ?fin \<le> length input)"
          by blast
        have len: "length (slice input ?start ?fin) \<le> ?fin - i" by (simp add: slice_def start)
        have "\<exists>new. out = items @ new \<and> sum_list (map length new) + i \<le> length input" if out: "r = Inr out" for out
        proof -
          obtain new where new: "out = (items @ [slice input ?start ?fin]) @ new" "sum_list (map length new) + ?fin \<le> length input"
            using r(2) out by blast
          then have "sum_list (map length (slice input ?start ?fin # new)) + i \<le> length input" using len fin by simp
          then show ?thesis using new(1) by (intro exI [of _ "slice input ?start ?fin # new"]) simp
        qed
        then show ?thesis using eq r(1) by auto
      qed
    qed
  qed
qed

text \<open>
  C33. Decoding a list always returns: on every byte string that fits in memory the loop ends,
  with an error or with items whose total size is bounded by the size of the input.
\<close>

theorem rlp_decode_terminates:
  assumes "bytes_ok input" "length input < 2 ^ 63"
  shows "\<exists>r. decode_bytes_list input = Some r \<and> (\<forall>items. r = Inr items \<longrightarrow> sum_list (map length items) \<le> length input)"
proof (cases "input = []")
  case True
  then show ?thesis by (simp add: decode_bytes_list_def)
next
  case False
  show ?thesis
  proof (cases "decode_length input")
    case (Inl e)
    then show ?thesis using False by (simp add: decode_bytes_list_def)
  next
    case (Inr ol)
    obtain o' l where ol: "ol = (o', l)" by fastforce
    have p: "o' + l < 2 ^ 64" using decode_length_progress [of input o' l] Inr ol assms(1) by simp
    show ?thesis
    proof (cases "wrapping_add_usize o' l > length input")
      case True
      then show ?thesis using False Inr ol by (simp add: decode_bytes_list_def)
    next
      case ok: False
      then have le: "wrapping_add_usize o' l \<le> length input" "o' \<le> length input" using wrapping_add_small [OF p] by simp_all
      show ?thesis
        using decode_items_total [OF assms le, of "[]"] False Inr ol ok by (auto simp: decode_bytes_list_def)
    qed
  qed
qed

theorem rlp_decode_terminates_witness:
  "\<exists>r. decode_bytes_list [0xc8, 0x83, 0x63, 0x61, 0x74, 0x83, 0x64, 0x6f, 0x67] = Some r"
  using rlp_decode_terminates [of "[0xc8, 0x83, 0x63, 0x61, 0x74, 0x83, 0x64, 0x6f, 0x67]"] by (auto simp: bytes_ok_def)

text \<open>The items are only checked against the end of the input: an item of a list may extend
  past the length that the list declares.\<close>

lemma decode_bytes_list_overrun:
  "decode_bytes_list [0xc1, 0x83, 0x61, 0x62, 0x63] = Some (Inr [[0x61, 0x62, 0x63]])"
  by (simp add: decode_bytes_list_def decode_length_def wrapping_add_usize_def decode_items.simps slice_def Let_def)

end
