(* ===== verification/Priority.thy ===== *)
theory Priority
  imports Prelude "HOL-Library.List_Lexorder"
begin

text \<open>
  The cluster-wide result of the priority protocol (crates/priority/src/calculate.rs): the
  proposals of all peers are validated, grouped by topic, scored, filtered and ordered. The
  protobuf encoding and the hash of its bytes are arguments, as is the order in which the
  hash map of topics is visited.
\<close>

section \<open>Messages\<close>

datatype 'e priority_error =
    MessagesEmpty
  | MismatchingDuties
  | DuplicatePeer
  | DuplicateTopic
  | MaxPriorityReached
  | DuplicatePriority
  | HashProto 'e

record any =
  any_type_url :: string
  any_value :: "nat list"

record topic_proposal =
  tp_topic :: "any option"
  tp_priorities :: "any list"

record priority_msg =
  pm_duty :: "(nat \<times> int) option"
  pm_topics :: "topic_proposal list"
  pm_peer_id :: string
  pm_signature :: "nat list"

record scored_result =
  sr_priority :: "any option"
  sr_score :: int

record topic_result =
  tr_topic :: "any option"
  tr_priorities :: "scored_result list"

record priority_result =
  pr_msgs :: "priority_msg list"
  pr_topics :: "topic_result list"

definition MAX_PRIORITIES :: nat where "MAX_PRIORITIES = 1000"
definition COUNT_WEIGHT :: int where "COUNT_WEIGHT = int MAX_PRIORITIES"

definition EMPTY_ANY :: any where
  "EMPTY_ANY = \<lparr>any_type_url = '''', any_value = []\<rparr>"

definition topic_any :: "topic_proposal \<Rightarrow> any" where
  "topic_any t = (case tp_topic t of None \<Rightarrow> EMPTY_ANY | Some a \<Rightarrow> a)"

definition topic_result_any :: "topic_result \<Rightarrow> any" where
  "topic_result_any t = (case tr_topic t of None \<Rightarrow> EMPTY_ANY | Some a \<Rightarrow> a)"

text \<open>The encoding of an envelope and the hash of bytes are the arguments of the hash of an
  envelope; the definitions below take that hash.\<close>

definition hash_any :: "(any \<Rightarrow> nat list) \<Rightarrow> (nat list \<Rightarrow> 'e + nat list) \<Rightarrow> any \<Rightarrow> 'e priority_error + nat list" where
  "hash_any enc hp a = (case hp (enc a) of Inl e \<Rightarrow> Inl (HashProto e) | Inr h \<Rightarrow> Inr h)"

type_synonym 'e hasher = "any \<Rightarrow> 'e priority_error + nat list"

section \<open>Validation\<close>

fun validate_priorities :: "'e hasher \<Rightarrow> any list \<Rightarrow> nat list list \<Rightarrow> 'e priority_error + unit" where
  "validate_priorities hash [] dedup = Inr ()"
| "validate_priorities hash (p # ps) dedup =
     res_bind (hash p) (\<lambda>h. if h \<in> set dedup then Inl DuplicatePriority else validate_priorities hash ps (h # dedup))"

fun validate_topics :: "'e hasher \<Rightarrow> topic_proposal list \<Rightarrow> nat list list \<Rightarrow> 'e priority_error + unit" where
  "validate_topics hash [] dedup = Inr ()"
| "validate_topics hash (t # ts) dedup =
     res_bind (hash (topic_any t)) (\<lambda>h.
       if h \<in> set dedup then Inl DuplicateTopic
       else if length (tp_priorities t) \<ge> MAX_PRIORITIES then Inl MaxPriorityReached
       else res_bind (validate_priorities hash (tp_priorities t) []) (\<lambda>_. validate_topics hash ts (h # dedup)))"

fun validate_loop :: "'e hasher \<Rightarrow> (nat \<times> int) option \<Rightarrow> priority_msg list \<Rightarrow> string list \<Rightarrow> 'e priority_error + unit" where
  "validate_loop hash d [] dedup = Inr ()"
| "validate_loop hash d (m # ms) dedup =
     (if pm_duty m \<noteq> d then Inl MismatchingDuties
      else if pm_peer_id m \<in> set dedup then Inl DuplicatePeer
      else res_bind (validate_topics hash (pm_topics m) []) (\<lambda>_. validate_loop hash d ms (pm_peer_id m # dedup)))"

definition validate_msgs :: "'e hasher \<Rightarrow> priority_msg list \<Rightarrow> 'e priority_error + unit" where
  "validate_msgs hash msgs =
     (case msgs of [] \<Rightarrow> Inl MessagesEmpty | m # _ \<Rightarrow> validate_loop hash (pm_duty m) msgs [])"

section \<open>Calculation\<close>

definition sort_input :: "priority_msg list \<Rightarrow> priority_msg list" where
  "sort_input msgs = sort_key pm_peer_id msgs"

definition proposals_by_topic :: "'e hasher \<Rightarrow> priority_msg list \<Rightarrow> 'e priority_error + (nat list \<times> topic_proposal list) list" where
  "proposals_by_topic hash msgs =
     res_fold (\<lambda>t m. res_bind (hash (topic_any t)) (\<lambda>h. Inr (entry_push h t m))) (concat (map pm_topics (sort_input msgs))) []"

text \<open>The three collections that one topic accumulates.\<close>

record tally =
  all_priorities :: "nat list list"
  scores :: "(nat list \<times> int) list"
  priorities :: "(nat list \<times> any) list"

definition score_of :: "tally \<Rightarrow> nat list \<Rightarrow> int" where
  "score_of t h = (case map_of (scores t) h of None \<Rightarrow> 0 | Some s \<Rightarrow> s)"

definition order_weight :: "nat \<Rightarrow> int" where
  "order_weight order = saturating_sub_i64 COUNT_WEIGHT (if in_i64 (int order) then int order else i64_max)"

definition add_priority :: "nat list \<Rightarrow> nat \<Rightarrow> any \<Rightarrow> tally \<Rightarrow> tally" where
  "add_priority h order prio t =
     \<lparr>all_priorities = (if h \<in> set (keys (scores t)) then all_priorities t else all_priorities t @ [h]),
      scores = AList.update h (saturating_add_i64 (score_of t h) (order_weight order)) (scores t),
      priorities = AList.update h prio (priorities t)\<rparr>"

definition tally_proposals :: "'e hasher \<Rightarrow> topic_proposal list \<Rightarrow> 'e priority_error + tally" where
  "tally_proposals hash proposals =
     res_fold (\<lambda>(order, prio) t. res_bind (hash prio) (\<lambda>h. Inr (add_priority h order prio t)))
       (concat (map (\<lambda>p. enumerate 0 (tp_priorities p)) proposals))
       \<lparr>all_priorities = [], scores = [], priorities = []\<rparr>"

definition scored_results :: "int \<Rightarrow> tally \<Rightarrow> scored_result list" where
  "scored_results min_score t =
     map (\<lambda>h. \<lparr>sr_priority = map_of (priorities t) h, sr_score = score_of t h\<rparr>)
       (filter (\<lambda>h. \<not> score_of t h \<le> min_score) (sort_key (\<lambda>h. - score_of t h) (all_priorities t)))"

definition topic_result_of :: "'e hasher \<Rightarrow> int \<Rightarrow> topic_proposal list \<Rightarrow> 'e priority_error + topic_result" where
  "topic_result_of hash min_score proposals =
     res_bind (tally_proposals hash proposals) (\<lambda>t.
       Inr \<lparr>tr_topic = tp_topic (hd proposals), tr_priorities = scored_results min_score t\<rparr>)"

definition order_topic_results :: "'e hasher \<Rightarrow> topic_result list \<Rightarrow> 'e priority_error + topic_result list" where
  "order_topic_results hash values =
     res_bind (res_map (\<lambda>v. res_bind (hash (topic_result_any v)) (\<lambda>h. Inr (h, v))) values) (\<lambda>tuples.
       Inr (map snd (sort_key fst tuples)))"

definition calculate_result :: "'e hasher \<Rightarrow> hash_order \<Rightarrow> priority_msg list \<Rightarrow> int \<Rightarrow> 'e priority_error + priority_result" where
  "calculate_result hash ord msgs min_required =
     res_bind (validate_msgs hash msgs) (\<lambda>_.
     res_bind (proposals_by_topic hash msgs) (\<lambda>by_topic.
     let min_score = saturating_mul_i64 (saturating_sub_i64 min_required 1) COUNT_WEIGHT
     in res_bind (res_map (topic_result_of hash min_score) (map snd (hash_iter (ord 0) by_topic))) (\<lambda>results.
        res_bind (order_topic_results hash results) (\<lambda>ordered.
          Inr \<lparr>pr_msgs = msgs, pr_topics = ordered\<rparr>))))"

section \<open>What validation accepts\<close>

definition hval :: "'e hasher \<Rightarrow> any \<Rightarrow> nat list" where
  "hval hash a = (case hash a of Inr h \<Rightarrow> h | Inl e \<Rightarrow> [])"

definition hashable :: "'e hasher \<Rightarrow> any \<Rightarrow> bool" where
  "hashable hash a \<longleftrightarrow> (\<exists>h. hash a = Inr h)"

lemma hash_eq: "hashable hash a \<Longrightarrow> hash a = Inr (hval hash a)"
  by (auto simp: hashable_def hval_def)

lemma hash_Inr: "hash a = Inr h \<longleftrightarrow> hashable hash a \<and> hval hash a = h"
  by (auto simp: hashable_def hval_def)

definition topic_hash :: "'e hasher \<Rightarrow> topic_proposal \<Rightarrow> nat list" where
  "topic_hash hash t = hval hash (topic_any t)"

definition valid_topic :: "'e hasher \<Rightarrow> topic_proposal \<Rightarrow> bool" where
  "valid_topic hash t \<longleftrightarrow> hashable hash (topic_any t) \<and> length (tp_priorities t) < MAX_PRIORITIES
     \<and> (\<forall>p \<in> set (tp_priorities t). hashable hash p) \<and> distinct (map (hval hash) (tp_priorities t))"

definition valid_msg :: "'e hasher \<Rightarrow> priority_msg \<Rightarrow> bool" where
  "valid_msg hash m \<longleftrightarrow> (\<forall>t \<in> set (pm_topics m). valid_topic hash t) \<and> distinct (map (topic_hash hash) (pm_topics m))"

lemma validate_priorities_Inr:
  "validate_priorities hash ps dedup = Inr () \<longleftrightarrow>
     (\<forall>p \<in> set ps. hashable hash p) \<and> distinct (map (hval hash) ps) \<and> hval hash ` set ps \<inter> set dedup = {}"
  by (induction ps arbitrary: dedup) (auto simp: hash_Inr)

lemma validate_topics_Inr:
  "validate_topics hash ts dedup = Inr () \<longleftrightarrow>
     (\<forall>t \<in> set ts. valid_topic hash t) \<and> distinct (map (topic_hash hash) ts) \<and> topic_hash hash ` set ts \<inter> set dedup = {}"
  by (induction ts arbitrary: dedup) (auto simp: hash_Inr validate_priorities_Inr valid_topic_def topic_hash_def)

lemma validate_loop_Inr:
  "validate_loop hash d ms dedup = Inr () \<longleftrightarrow>
     (\<forall>m \<in> set ms. pm_duty m = d \<and> valid_msg hash m) \<and> distinct (map pm_peer_id ms) \<and> pm_peer_id ` set ms \<inter> set dedup = {}"
  by (induction ms arbitrary: dedup) (auto simp: validate_topics_Inr valid_msg_def)

lemma validate_msgs_Inr:
  "validate_msgs hash msgs = Inr () \<longleftrightarrow>
     msgs \<noteq> [] \<and> (\<exists>d. \<forall>m \<in> set msgs. pm_duty m = d) \<and> (\<forall>m \<in> set msgs. valid_msg hash m) \<and> distinct (map pm_peer_id msgs)"
proof (cases msgs)
  case (Cons m ms)
  then show ?thesis unfolding validate_msgs_def Cons list.case validate_loop_Inr by auto
qed (simp add: validate_msgs_def)

section \<open>Determinism\<close>

text \<open>The groups of a validated set of messages.\<close>

definition groups :: "'e hasher \<Rightarrow> priority_msg list \<Rightarrow> (nat list \<times> topic_proposal list) list" where
  "groups hash msgs = fold (\<lambda>t. entry_push (topic_hash hash t) t) (concat (map pm_topics (sort_input msgs))) []"

lemma sort_input_set [simp]: "set (sort_input msgs) = set msgs"
  by (simp add: sort_input_def)

lemma proposals_by_topic_groups:
  assumes "\<forall>m \<in> set msgs. valid_msg hash m"
  shows "proposals_by_topic hash msgs = Inr (groups hash msgs)"
  unfolding proposals_by_topic_def groups_def
proof (rule res_fold_total)
  fix t m assume "t \<in> set (concat (map pm_topics (sort_input msgs)))"
  then have "hashable hash (topic_any t)" using assms by (auto simp: valid_msg_def valid_topic_def)
  then show "res_bind (hash (topic_any t)) (\<lambda>h. Inr (entry_push h t m)) = Inr (entry_push (topic_hash hash t) t m)"
    by (simp add: hash_eq topic_hash_def)
qed

lemma group_proposals:
  assumes "(h, ps) \<in> set (groups hash msgs)"
  shows "ps = filter (\<lambda>t. topic_hash hash t = h) (concat (map pm_topics (sort_input msgs)))" "ps \<noteq> []"
    "\<And>t. t \<in> set ps \<Longrightarrow> topic_hash hash t = h \<and> (\<exists>m \<in> set msgs. t \<in> set (pm_topics m))"
  using assms by (auto simp: groups_def groups_member)

text \<open>The tally of hashable proposals.\<close>

definition entries_of :: "topic_proposal list \<Rightarrow> (nat \<times> any) list" where
  "entries_of proposals = concat (map (\<lambda>p. enumerate 0 (tp_priorities p)) proposals)"

definition tally_of :: "'e hasher \<Rightarrow> (nat \<times> any) list \<Rightarrow> tally" where
  "tally_of hash es = fold (\<lambda>(order, prio). add_priority (hval hash prio) order prio) es \<lparr>all_priorities = [], scores = [], priorities = []\<rparr>"

lemma entries_of_mem: "(order, prio) \<in> set (entries_of proposals) \<Longrightarrow> \<exists>t \<in> set proposals. prio \<in> set (tp_priorities t) \<and> order < length (tp_priorities t)"
  by (auto simp: entries_of_def in_set_enumerate_eq) (metis nth_mem)

lemma tally_proposals_total:
  assumes "\<forall>t \<in> set proposals. valid_topic hash t"
  shows "tally_proposals hash proposals = Inr (tally_of hash (entries_of proposals))"
  unfolding tally_proposals_def tally_of_def entries_of_def [symmetric]
proof (rule res_fold_total)
  fix e t assume "e \<in> set (entries_of proposals)"
  then have "hashable hash (snd e)" using assms entries_of_mem [of "fst e" "snd e" proposals] by (auto simp: valid_topic_def)
  then show "(case e of (order, prio) \<Rightarrow> \<lambda>t. res_bind (hash prio) (\<lambda>h. Inr (add_priority h order prio t))) t
      = Inr ((case e of (order, prio) \<Rightarrow> add_priority (hval hash prio) order prio) t)"
    by (simp add: hash_eq case_prod_unfold)
qed

definition group_result :: "'e hasher \<Rightarrow> int \<Rightarrow> topic_proposal list \<Rightarrow> topic_result" where
  "group_result hash min_score proposals =
     \<lparr>tr_topic = tp_topic (hd proposals), tr_priorities = scored_results min_score (tally_of hash (entries_of proposals))\<rparr>"

definition sorted_results :: "'e hasher \<Rightarrow> int \<Rightarrow> (nat list \<times> topic_proposal list) list \<Rightarrow> topic_result list" where
  "sorted_results hash min_score gs =
     map snd (sort_key fst (map (\<lambda>(h, ps). (h, group_result hash min_score ps)) gs))"

lemma calculate_result_valid:
  fixes min_required :: int
  assumes "validate_msgs hash msgs = Inr ()"
  defines "min_score \<equiv> saturating_mul_i64 (saturating_sub_i64 min_required 1) COUNT_WEIGHT"
  shows "calculate_result hash ord msgs min_required = Inr \<lparr>pr_msgs = msgs, pr_topics = sorted_results hash min_score (groups hash msgs)\<rparr>"
proof -
  have valid: "\<forall>m \<in> set msgs. valid_msg hash m" using assms(1) by (simp add: validate_msgs_Inr)
  let ?gs = "hash_iter (ord 0) (groups hash msgs)"
  have topics: "t \<in> set ps \<Longrightarrow> valid_topic hash t" if "(h, ps) \<in> set (groups hash msgs)" for h ps t
    using group_proposals(3) [OF that] valid by (auto simp: valid_msg_def)
  have 1: "res_map (topic_result_of hash min_score) (map snd ?gs) = Inr (map (group_result hash min_score) (map snd ?gs))"
    by (rule res_map_total) (auto simp: topic_result_of_def group_result_def tally_proposals_total topics)
  have topic: "hash (topic_result_any (group_result hash min_score ps)) = Inr h"
    if g: "(h, ps) \<in> set (groups hash msgs)" for h ps
  proof -
    have hd: "hd ps \<in> set ps" using group_proposals(2) [OF g] by simp
    have "topic_result_any (group_result hash min_score ps) = topic_any (hd ps)"
      by (simp add: topic_result_any_def group_result_def topic_any_def)
    moreover have "hash (topic_any (hd ps)) = Inr h"
      using group_proposals(3) [OF g hd] topics [OF g hd] by (simp add: valid_topic_def hash_eq topic_hash_def)
    ultimately show ?thesis by simp
  qed
  have "res_map (\<lambda>v. res_bind (hash (topic_result_any v)) (\<lambda>h. Inr (h, v))) (map (\<lambda>g. group_result hash min_score (snd g)) ?gs)
      = Inr (map (\<lambda>g. (fst g, group_result hash min_score (snd g))) ?gs)"
    unfolding res_map_map by (rule res_map_total) (auto simp: topic)
  then have 2: "order_topic_results hash (map (group_result hash min_score) (map snd ?gs)) = Inr (sorted_results hash min_score ?gs)"
    by (simp add: order_topic_results_def sorted_results_def comp_def case_prod_unfold)
  have "sorted_results hash min_score ?gs = sorted_results hash min_score (groups hash msgs)"
    unfolding sorted_results_def
    by (rule arg_cong [where f = "map snd"], rule sort_key_unique)
      (simp_all add: groups_def distinct_groups comp_def case_prod_unfold)
  then show ?thesis
    using 1 2 assms(1) proposals_by_topic_groups [OF valid] by (simp add: calculate_result_def min_score_def)
qed

text \<open>
  C30. The result does not depend on the order in which the messages arrived, nor on the order
  in which the hash map of topics is visited: two nodes that hold the same messages accept
  them or reject them together and compute the same ordered topics with the same scores.
\<close>

theorem priority_deterministic:
  assumes "mset msgs = mset msgs'"
  shows "map_sum (\<lambda>_. ()) pr_topics (calculate_result hash ord msgs min_required)
    = map_sum (\<lambda>_. ()) pr_topics (calculate_result hash ord' msgs' min_required)"
proof -
  have s: "set msgs = set msgs'" using assms by (metis set_mset_mset)
  have d: "distinct (map pm_peer_id msgs) \<longleftrightarrow> distinct (map pm_peer_id msgs')"
    using assms by (metis mset_eq_imp_distinct_iff mset_map)
  have v: "validate_msgs hash msgs = Inr () \<longleftrightarrow> validate_msgs hash msgs' = Inr ()"
    using s d by (auto simp: validate_msgs_Inr)
  show ?thesis
  proof (cases "validate_msgs hash msgs = Inr ()")
    case True
    then have "sort_input msgs = sort_input msgs'"
      unfolding sort_input_def using assms by (intro sort_key_unique) (simp_all add: validate_msgs_Inr)
    then have "groups hash msgs = groups hash msgs'" by (simp add: groups_def)
    then show ?thesis using calculate_result_valid [OF True] calculate_result_valid [of hash msgs'] True v by simp
  next
    case False
    then obtain e e' where "validate_msgs hash msgs = Inl e" "validate_msgs hash msgs' = Inl e'"
      using v by (metis old.sum.exhaust old.unit.exhaust)
    then show ?thesis by (simp add: calculate_result_def)
  qed
qed

definition sample_msg :: "nat \<Rightarrow> string \<Rightarrow> nat list \<Rightarrow> priority_msg" where
  "sample_msg topic peer ps = \<lparr>pm_duty = Some (1, 13), pm_topics = [\<lparr>tp_topic = Some \<lparr>any_type_url = '''', any_value = [topic]\<rparr>,
     tp_priorities = map (\<lambda>p. \<lparr>any_type_url = '''', any_value = [p]\<rparr>) ps\<rparr>], pm_peer_id = peer, pm_signature = []\<rparr>"

definition sample_hasher :: "unit hasher" where
  "sample_hasher = hash_any any_value Inr"

theorem priority_deterministic_witness:
  "map_sum (\<lambda>_. ()) pr_topics (calculate_result sample_hasher in_order [sample_msg 9 ''a'' [1, 2], sample_msg 9 ''b'' [2, 1]] 2)
    = map_sum (\<lambda>_. ()) pr_topics (calculate_result sample_hasher in_order [sample_msg 9 ''b'' [2, 1], sample_msg 9 ''a'' [1, 2]] 2)"
  using priority_deterministic [of "[sample_msg 9 ''a'' [1, 2], sample_msg 9 ''b'' [2, 1]]"
      "[sample_msg 9 ''b'' [2, 1], sample_msg 9 ''a'' [1, 2]]" sample_hasher in_order 2 in_order] by simp

section \<open>Scores\<close>

text \<open>The positions at which the messages list a priority of a topic, and the score they give it.\<close>

definition proposals_for :: "'e hasher \<Rightarrow> priority_msg list \<Rightarrow> nat list \<Rightarrow> topic_proposal list" where
  "proposals_for hash msgs th = filter (\<lambda>t. topic_hash hash t = th) (concat (map pm_topics msgs))"

definition positions_in :: "'e hasher \<Rightarrow> nat list \<Rightarrow> (nat \<times> any) list \<Rightarrow> nat list" where
  "positions_in hash h es = map fst (filter (\<lambda>e. hval hash (snd e) = h) es)"

definition positions :: "'e hasher \<Rightarrow> priority_msg list \<Rightarrow> nat list \<Rightarrow> nat list \<Rightarrow> nat list" where
  "positions hash msgs th h = positions_in hash h (entries_of (proposals_for hash msgs th))"

definition score_spec :: "nat list \<Rightarrow> int" where
  "score_spec ps = 1000 * int (length ps) - int (sum_list ps)"

definition supports :: "'e hasher \<Rightarrow> nat list \<Rightarrow> nat list \<Rightarrow> priority_msg \<Rightarrow> bool" where
  "supports hash th h m \<longleftrightarrow> (\<exists>t \<in> set (pm_topics m). topic_hash hash t = th \<and> h \<in> hval hash ` set (tp_priorities t))"

lemma score_spec_snoc [simp]: "score_spec (ps @ [p]) = score_spec ps + (1000 - int p)"
  by (simp add: score_spec_def)

lemma score_spec_bounds: "\<forall>p \<in> set ps. p < 1000 \<Longrightarrow> 0 \<le> score_spec ps \<and> score_spec ps \<le> 1000 * int (length ps)"
  by (induction ps) (auto simp: score_spec_def)

lemma order_weight_small: "order < 1000 \<Longrightarrow> order_weight order = 1000 - int order"
  by (simp add: order_weight_def COUNT_WEIGHT_def MAX_PRIORITIES_def rust_arith)

lemma positions_in_snoc:
  "positions_in hash h (es @ [e]) = positions_in hash h es @ (if hval hash (snd e) = h then [fst e] else [])"
  by (simp add: positions_in_def)

lemma tally_of_snoc: "tally_of hash (es @ [e]) = add_priority (hval hash (snd e)) (fst e) (snd e) (tally_of hash es)"
  by (simp add: tally_of_def case_prod_unfold)

lemma tally_of_spec:
  assumes "\<forall>e \<in> set es. fst e < 1000" "1000 * int (length es) \<le> i64_max"
  shows "score_of (tally_of hash es) h = score_spec (positions_in hash h es)
    \<and> set (keys (scores (tally_of hash es))) = (hval hash \<circ> snd) ` set es
    \<and> distinct (all_priorities (tally_of hash es)) \<and> set (all_priorities (tally_of hash es)) = (hval hash \<circ> snd) ` set es
    \<and> (\<forall>h' \<in> (hval hash \<circ> snd) ` set es. \<exists>p. map_of (priorities (tally_of hash es)) h' = Some p \<and> hval hash p = h')"
  using assms
proof (induction es arbitrary: h rule: rev_induct)
  case Nil
  then show ?case by (simp add: tally_of_def score_of_def positions_in_def score_spec_def)
next
  case (snoc e es)
  let ?t = "tally_of hash es" and ?h = "hval hash (snd e)"
  have IH: "score_of ?t h' = score_spec (positions_in hash h' es)" "set (keys (scores ?t)) = (hval hash \<circ> snd) ` set es"
    "distinct (all_priorities ?t)" "set (all_priorities ?t) = (hval hash \<circ> snd) ` set es"
    "\<forall>h' \<in> (hval hash \<circ> snd) ` set es. \<exists>p. map_of (priorities ?t) h' = Some p \<and> hval hash p = h'" for h'
    using snoc by auto
  have "\<forall>p \<in> set (positions_in hash ?h es). p < 1000" using snoc.prems(1) by (auto simp: positions_in_def)
  moreover have "length (positions_in hash ?h es) \<le> length es" by (simp add: positions_in_def)
  ultimately have b: "0 \<le> score_of ?t ?h" "score_of ?t ?h \<le> 1000 * int (length es)"
    using score_spec_bounds [of "positions_in hash ?h es"] by (auto simp: IH(1))
  have "fst e < 1000" using snoc.prems(1) by simp
  then have "saturating_add_i64 (score_of ?t ?h) (order_weight (fst e)) = score_of ?t ?h + (1000 - int (fst e))"
    using b snoc.prems(2) by (simp add: order_weight_small saturating_add_i64_def) (simp add: rust_arith)
  then have "score_of (tally_of hash (es @ [e])) h = (if h = ?h then score_of ?t ?h + (1000 - int (fst e)) else score_of ?t h)"
    by (simp add: tally_of_snoc add_priority_def score_of_def update_conv')
  then have "score_of (tally_of hash (es @ [e])) h = score_spec (positions_in hash h (es @ [e]))"
    by (simp add: IH(1) positions_in_snoc)
  moreover have "set (keys (scores (tally_of hash (es @ [e])))) = (hval hash \<circ> snd) ` set (es @ [e])"
    using IH(2) by (simp add: tally_of_snoc add_priority_def dom_update)
  moreover have "distinct (all_priorities (tally_of hash (es @ [e])))" "set (all_priorities (tally_of hash (es @ [e]))) = (hval hash \<circ> snd) ` set (es @ [e])"
    using IH(2-4) by (auto simp: tally_of_snoc add_priority_def)
  moreover have "\<forall>h' \<in> (hval hash \<circ> snd) ` set (es @ [e]). \<exists>p. map_of (priorities (tally_of hash (es @ [e]))) h' = Some p \<and> hval hash p = h'"
    using IH(5) by (auto simp: tally_of_snoc add_priority_def update_conv')
  ultimately show ?case by simp
qed
lemma scored_results_spec:
  assumes "\<forall>e \<in> set es. fst e < 1000" "1000 * int (length es) \<le> i64_max" and xs: "xs = scored_results min_score (tally_of hash es)"
  shows "set (map (\<lambda>x. (map_option (hval hash) (sr_priority x), sr_score x)) xs)
      = {(Some h, score_spec (positions_in hash h es)) | h. positions_in hash h es \<noteq> [] \<and> min_score < score_spec (positions_in hash h es)}"
    "sorted_wrt (\<lambda>x y. sr_score y \<le> sr_score x) xs"
proof -
  let ?t = "tally_of hash es"
  have p: "set (all_priorities ?t) = (hval hash \<circ> snd) ` set es" and s: "score_of ?t h = score_spec (positions_in hash h es)" for h
    using tally_of_spec [OF assms(1,2)] by auto
  have q: "map_option (hval hash) (map_of (priorities ?t) h) = Some h" if "h \<in> (hval hash \<circ> snd) ` set es" for h
    using tally_of_spec [OF assms(1,2), of hash] that by auto
  have e: "h \<in> (hval hash \<circ> snd) ` set es \<longleftrightarrow> positions_in hash h es \<noteq> []" for h
    by (auto simp: positions_in_def filter_empty_conv)
  show "set (map (\<lambda>x. (map_option (hval hash) (sr_priority x), sr_score x)) xs)
      = {(Some h, score_spec (positions_in hash h es)) | h. positions_in hash h es \<noteq> [] \<and> min_score < score_spec (positions_in hash h es)}"
    unfolding xs scored_results_def e [symmetric] by (auto simp: p s q not_le image_iff intro!: bexI)
  have "sorted (map (\<lambda>h. - score_of ?t h) (filter (\<lambda>h. \<not> score_of ?t h \<le> min_score) (sort_key (\<lambda>h. - score_of ?t h) (all_priorities ?t))))"
    by (rule sorted_filter) simp
  then show "sorted_wrt (\<lambda>x y. sr_score y \<le> sr_score x) xs"
    unfolding xs scored_results_def by (simp add: sorted_wrt_map)
qed

text \<open>A validated message names a topic, and a priority of the topic, at most once.\<close>

lemma filter_unique:
  assumes "distinct (map f xs)"
  shows "filter (\<lambda>x. f x = v) xs = (case find (\<lambda>x. f x = v) xs of None \<Rightarrow> [] | Some x \<Rightarrow> [x])"
  using assms
proof (induction xs)
  case (Cons x xs)
  have "find (\<lambda>y. f y = f x) xs = None" unfolding find_None_iff using Cons.prems by (metis distinct.simps(2) image_eqI list.set_map list.simps(9))
  then show ?case using Cons by (auto simp: filter_empty_conv image_iff)
qed simp

lemma entries_of_append [simp]: "entries_of (ps @ qs) = entries_of ps @ entries_of qs"
  by (simp add: entries_of_def)

lemma positions_in_append [simp]: "positions_in hash h (es @ es') = positions_in hash h es @ positions_in hash h es'"
  by (simp add: positions_in_def)

lemma proposals_for_Cons [simp]:
  "proposals_for hash (m # msgs) th = filter (\<lambda>t. topic_hash hash t = th) (pm_topics m) @ proposals_for hash msgs th"
  by (simp add: proposals_for_def)

lemma length_positions_enumerate:
  "length (positions_in hash h (enumerate n ps)) = length (filter (\<lambda>p. hval hash p = h) ps)"
  by (induction ps arbitrary: n) (auto simp: positions_in_def)

lemma length_filter_unique:
  "distinct (map f xs) \<Longrightarrow> length (filter (\<lambda>x. f x = v) xs) = (if v \<in> f ` set xs then 1 else 0)"
  by (induction xs) (auto simp: filter_empty_conv)

lemma one_message:
  fixes th :: "nat list"
  assumes "valid_msg hash m"
  defines "es \<equiv> entries_of (filter (\<lambda>t. topic_hash hash t = th) (pm_topics m))"
  shows "length es \<le> 1000" "length (positions_in hash h es) = (if supports hash th h m then 1 else 0)"
proof -
  have d: "distinct (map (topic_hash hash) (pm_topics m))" and v: "t \<in> set (pm_topics m) \<Longrightarrow> valid_topic hash t" for t
    using assms(1) by (auto simp: valid_msg_def)
  have "length es \<le> 1000 \<and> length (positions_in hash h es) = (if supports hash th h m then 1 else 0)"
  proof (cases "find (\<lambda>t. topic_hash hash t = th) (pm_topics m)")
    case None
    then have "\<not> supports hash th h m" by (auto simp: find_None_iff supports_def)
    then show ?thesis using None by (simp add: es_def filter_unique [OF d] entries_of_def positions_in_def)
  next
    case (Some t)
    then have t: "t \<in> set (pm_topics m)" "topic_hash hash t = th" by (auto dest: find_Some_mem)
    have es: "es = enumerate 0 (tp_priorities t)" using Some by (simp add: es_def filter_unique [OF d] entries_of_def)
    have "supports hash th h m \<longleftrightarrow> h \<in> hval hash ` set (tp_priorities t)"
      using t d by (auto simp: supports_def distinct_map inj_on_eq_iff)
    then show ?thesis using v [OF t(1)]
      by (simp add: es length_positions_enumerate length_filter_unique valid_topic_def MAX_PRIORITIES_def)
  qed
  then show "length es \<le> 1000" "length (positions_in hash h es) = (if supports hash th h m then 1 else 0)" by simp_all
qed

lemma all_messages:
  assumes "\<forall>m \<in> set msgs. valid_msg hash m"
  shows "length (entries_of (proposals_for hash msgs th)) \<le> 1000 * length msgs
    \<and> length (positions hash msgs th h) = length (filter (supports hash th h) msgs)"
  using assms
proof (induction msgs)
  case Nil
  then show ?case by (simp add: proposals_for_def entries_of_def positions_def positions_in_def)
next
  case (Cons m msgs)
  then show ?case using one_message(1) [where hash = hash and m = m and th = th]
      one_message(2) [where hash = hash and m = m and th = th and h = h] by (simp add: positions_def)
qed

lemma mset_concat_map: "mset (concat (map f xs)) = (\<Sum>x \<in># mset xs. mset (f x))"
  by (induction xs) simp_all

lemma mset_entries_of: "mset (entries_of ps) = (\<Sum>p \<in># mset ps. mset (enumerate 0 (tp_priorities p)))"
  unfolding entries_of_def by (rule mset_concat_map)

lemma mset_proposals_for: "mset (proposals_for hash (sort_input msgs) th) = mset (proposals_for hash msgs th)"
  unfolding proposals_for_def mset_filter mset_concat_map sort_input_def mset_sort ..

lemma score_spec_mset: "mset ps = mset qs \<Longrightarrow> score_spec ps = score_spec qs"
  unfolding score_spec_def by (metis mset_eq_length sum_mset_sum_list)

lemma positions_sorted:
  "mset (positions_in hash h (entries_of (proposals_for hash (sort_input msgs) th))) = mset (positions hash msgs th h)"
  unfolding positions_def positions_in_def mset_map mset_filter mset_entries_of mset_proposals_for ..

lemma result_topic:
  assumes "T \<in> set (sorted_results hash min_score (groups hash msgs))" "\<forall>m \<in> set msgs. valid_msg hash m"
  shows "T = group_result hash min_score (proposals_for hash (sort_input msgs) (hval hash (topic_result_any T)))"
proof -
  obtain th ps where g: "(th, ps) \<in> set (groups hash msgs)" "T = group_result hash min_score ps"
    using assms(1) by (auto simp: sorted_results_def)
  have "hd ps \<in> set ps" using group_proposals(2) [OF g(1)] by simp
  then have "topic_hash hash (hd ps) = th" using group_proposals(3) [OF g(1)] by simp
  moreover have "topic_result_any T = topic_any (hd ps)" by (simp add: g(2) topic_result_any_def group_result_def topic_any_def)
  ultimately show ?thesis using g(2) group_proposals(1) [OF g(1)] by (simp add: topic_hash_def proposals_for_def)
qed
lemma min_score_eq:
  assumes "1 \<le> min_required" "min_required \<le> 2 ^ 32"
  shows "saturating_mul_i64 (saturating_sub_i64 min_required 1) COUNT_WEIGHT = 1000 * (min_required - 1)"
  using assms by (simp add: COUNT_WEIGHT_def MAX_PRIORITIES_def rust_arith)

lemma topic_scores:
  assumes ok: "calculate_result hash ord msgs min_required = Inr r" and T: "T \<in> set (pr_topics r)"
    and bounds: "1 \<le> min_required" "min_required \<le> 2 ^ 32" "length msgs \<le> 2 ^ 32"
    and th: "th = hval hash (topic_result_any T)"
  shows "set (map (\<lambda>x. (map_option (hval hash) (sr_priority x), sr_score x)) (tr_priorities T))
      = {(Some h, score_spec (positions hash msgs th h)) | h.
           positions hash msgs th h \<noteq> [] \<and> 1000 * (min_required - 1) < score_spec (positions hash msgs th h)}"
    "sorted_wrt (\<lambda>x y. sr_score y \<le> sr_score x) (tr_priorities T)" "\<forall>m \<in> set msgs. valid_msg hash m"
proof -
  let ?es = "entries_of (proposals_for hash (sort_input msgs) th)" and ?min = "1000 * (min_required - 1)"
  have "validate_msgs hash msgs = Inr ()" using ok by (cases "validate_msgs hash msgs") (auto simp: calculate_result_def)
  then have valid: "\<forall>m \<in> set msgs. valid_msg hash m" and r: "pr_topics r = sorted_results hash ?min (groups hash msgs)"
    using calculate_result_valid [of hash msgs ord min_required] ok min_score_eq [OF bounds(1,2)] by (auto simp: validate_msgs_Inr)
  have t: "tr_priorities T = scored_results ?min (tally_of hash ?es)"
    using result_topic [OF _ valid] T r th by (metis group_result_def topic_result.select_convs(2))
  have small: "\<forall>e \<in> set ?es. fst e < 1000"
  proof
    fix e assume "e \<in> set ?es"
    then obtain t where "t \<in> set (proposals_for hash (sort_input msgs) th)" "fst e < length (tp_priorities t)"
      using entries_of_mem [of "fst e" "snd e"] by auto
    moreover from this have "valid_topic hash t" using valid by (auto simp: proposals_for_def valid_msg_def)
    ultimately show "fst e < 1000" by (simp add: valid_topic_def MAX_PRIORITIES_def)
  qed
  have "length ?es \<le> 1000 * length (sort_input msgs)" using all_messages [of "sort_input msgs" hash th] valid by simp
  then have len: "1000 * int (length ?es) \<le> i64_max" using bounds(3) by (simp add: sort_input_def rust_arith)
  have same: "score_spec (positions_in hash h ?es) = score_spec (positions hash msgs th h)"
    "positions_in hash h ?es = [] \<longleftrightarrow> positions hash msgs th h = []" for h
    using positions_sorted [of hash h msgs th] by (auto intro: score_spec_mset)
  show "set (map (\<lambda>x. (map_option (hval hash) (sr_priority x), sr_score x)) (tr_priorities T))
      = {(Some h, score_spec (positions hash msgs th h)) | h.
           positions hash msgs th h \<noteq> [] \<and> ?min < score_spec (positions hash msgs th h)}"
    using scored_results_spec(1) [OF small len t] by (simp only: same)
  show "sorted_wrt (\<lambda>x y. sr_score y \<le> sr_score x) (tr_priorities T)" "\<forall>m \<in> set msgs. valid_msg hash m"
    using scored_results_spec(2) [OF small len t] valid by auto
qed

text \<open>A priority listed by exactly the required number of peers is left out when their positions
  of it add up to a thousand.\<close>

lemma priority_supported_but_dropped:
  assumes "calculate_result hash ord msgs min_required = Inr r" "T \<in> set (pr_topics r)"
    "1 \<le> min_required" "min_required \<le> 2 ^ 32" "length msgs \<le> 2 ^ 32" "th = hval hash (topic_result_any T)"
    "int (length (filter (supports hash th h) msgs)) = min_required" "1000 \<le> sum_list (positions hash msgs th h)"
  shows "Some h \<notin> (\<lambda>x. map_option (hval hash) (sr_priority x)) ` set (tr_priorities T)"
proof
  note spec = topic_scores [OF assms(1-6)]
  assume "Some h \<in> (\<lambda>x. map_option (hval hash) (sr_priority x)) ` set (tr_priorities T)"
  then obtain x where "x \<in> set (tr_priorities T)" "map_option (hval hash) (sr_priority x) = Some h" by force
  then have "(Some h, sr_score x) \<in> set (map (\<lambda>x. (map_option (hval hash) (sr_priority x), sr_score x)) (tr_priorities T))"
    unfolding list.set_map by (intro rev_image_eqI [of x]) auto
  then have "1000 * (min_required - 1) < score_spec (positions hash msgs th h)" unfolding spec(1) by auto
  moreover have "int (length (positions hash msgs th h)) = min_required" using all_messages [OF spec(3)] assms(7) by simp
  ultimately show False using assms(8) by (simp add: score_spec_def)
qed

text \<open>
  C31. The topics that the calculation returns carry exactly the priorities of a direct
  definition: a priority scores a thousand for every peer that lists it less the sum of the
  positions at which they list it, it is included when that exceeds a thousand times one less
  than the required number of peers, and the included ones stand in descending order of score.
  So every included priority is listed by the required number of peers.
\<close>

theorem priority_scores:
  assumes "calculate_result hash ord msgs min_required = Inr r" "T \<in> set (pr_topics r)"
    "1 \<le> min_required" "min_required \<le> 2 ^ 32" "length msgs \<le> 2 ^ 32" "th = hval hash (topic_result_any T)"
  shows "set (map (\<lambda>x. (map_option (hval hash) (sr_priority x), sr_score x)) (tr_priorities T))
      = {(Some h, score_spec (positions hash msgs th h)) | h.
           positions hash msgs th h \<noteq> [] \<and> 1000 * (min_required - 1) < score_spec (positions hash msgs th h)}
    \<and> sorted_wrt (\<lambda>x y. sr_score y \<le> sr_score x) (tr_priorities T)
    \<and> (\<forall>x \<in> set (tr_priorities T). \<exists>h. map_option (hval hash) (sr_priority x) = Some h
         \<and> min_required \<le> int (length (filter (supports hash th h) msgs)))"
proof (intro conjI ballI)
  note spec = topic_scores [OF assms]
  fix x assume "x \<in> set (tr_priorities T)"
  then have "(map_option (hval hash) (sr_priority x), sr_score x)
      \<in> set (map (\<lambda>x. (map_option (hval hash) (sr_priority x), sr_score x)) (tr_priorities T))" by auto
  then obtain h where "map_option (hval hash) (sr_priority x) = Some h" "1000 * (min_required - 1) < score_spec (positions hash msgs th h)"
    unfolding spec(1) by auto
  then show "\<exists>h. map_option (hval hash) (sr_priority x) = Some h \<and> min_required \<le> int (length (filter (supports hash th h) msgs))"
    using all_messages [OF spec(3), of th h] by (intro exI [of _ h]) (simp add: score_spec_def)
qed (use topic_scores [OF assms] in simp_all)

definition sample_msgs :: "priority_msg list" where
  "sample_msgs = [sample_msg 9 ''a'' [1, 2], sample_msg 9 ''b'' [2, 3], sample_msg 9 ''c'' [2, 1]]"

definition sample_result :: "priority_result" where
  "sample_result = \<lparr>pr_msgs = sample_msgs, pr_topics = [\<lparr>tr_topic = Some \<lparr>any_type_url = '''', any_value = [9]\<rparr>,
     tr_priorities = [\<lparr>sr_priority = Some \<lparr>any_type_url = '''', any_value = [2]\<rparr>, sr_score = 2999\<rparr>,
       \<lparr>sr_priority = Some \<lparr>any_type_url = '''', any_value = [1]\<rparr>, sr_score = 1999\<rparr>]\<rparr>]\<rparr>"

theorem priority_scores_witness:
  "calculate_result sample_hasher in_order sample_msgs 2 = Inr sample_result
    \<and> sorted_wrt (\<lambda>x y. sr_score y \<le> sr_score x) (tr_priorities (hd (pr_topics sample_result)))"
proof -
  have 1: "calculate_result sample_hasher in_order sample_msgs 2 = Inr sample_result" by code_simp
  have 2: "hd (pr_topics sample_result) \<in> set (pr_topics sample_result)" by (simp add: sample_result_def)
  show ?thesis using priority_scores [OF 1 2] 1 by (simp add: sample_msgs_def)
qed

end
