(* ===== verification/Frost.thy ===== *)
theory Frost
  imports Curve
begin

unbundle bit_operations_syntax

text \<open>
  The distributed key generation (crates/frost/src/frost_core.rs, kryptology.rs): the key
  material, the polynomial and commitment arithmetic, the two rounds that every participant
  runs, partial signatures and their combination. The curve library, the hash function and the
  random numbers are arguments; a panic is an error value; the loop that draws a nonce until it
  is not zero is a partial function. A \<open>BTreeMap\<close> is an association list in the order of its
  keys.
\<close>

section \<open>Ordered maps\<close>

fun bt_insert :: "('k \<Rightarrow> nat) \<Rightarrow> 'k \<Rightarrow> 'v \<Rightarrow> ('k \<times> 'v) list \<Rightarrow> ('k \<times> 'v) list" where
  "bt_insert key k v [] = [(k, v)]"
| "bt_insert key k v ((k', v') # m) =
     (if key k < key k' then (k, v) # (k', v') # m
      else if key k = key k' then (k', v) # m
      else (k', v') # bt_insert key k v m)"

section \<open>Key material\<close>

datatype frost_error =
    InvalidZeroScalar
  | InvalidMinSigners
  | InvalidMaxSigners
  | InvalidSecretShare
  | IncorrectNumberOfCommitments
  | IncorrectCommitment

record 's frost_identifier =
  ident_id :: nat
  ident_scalar :: 's

definition from_u32 :: "nat \<Rightarrow> frost_error + 's::field frost_identifier" where
  "from_u32 i =
     (let scalar = scalar_of_u64 i
      in if scalar = 0 then Inl InvalidZeroScalar else Inr \<lparr>ident_id = i, ident_scalar = scalar\<rparr>)"

definition from_commitments :: "('s, 'p::zero, 'q) blst \<Rightarrow> nat list list \<Rightarrow> 'p list option" where
  "from_commitments B commitments = those (map (from_compressed B) commitments)"

definition evaluate_polynomial :: "'s::field frost_identifier \<Rightarrow> 's list \<Rightarrow> 's option" where
  "evaluate_polynomial i coefficients =
     (case coefficients of
        [] \<Rightarrow> None
      | first # rest \<Rightarrow> Some (fold (\<lambda>coeff value. (value + coeff) * ident_scalar i) (rev rest) 0 + first))"

definition evaluate_vss :: "('s::field, 'p::ab_group_add, 'q) blst \<Rightarrow> 's frost_identifier \<Rightarrow> 'p list \<Rightarrow> 'p" where
  "evaluate_vss B i commitment =
     snd (fold (\<lambda>comm_k (i_to_the_k, sum_so_far). (ident_scalar i * i_to_the_k, sum_so_far + p1_mult B i_to_the_k comm_k)) commitment (1, 0))"

definition add_commitment :: "'p::ab_group_add list \<Rightarrow> 'p list \<Rightarrow> frost_error + 'p list" where
  "add_commitment commitment group_commitment =
     res_map (\<lambda>(i, c). if i < length commitment then Inr (c + commitment ! i) else Inl IncorrectNumberOfCommitments)
       (enumerate 0 group_commitment)"

definition sum_commitments :: "'p::ab_group_add list list \<Rightarrow> frost_error + 'p list" where
  "sum_commitments commitments =
     (case commitments of
        [] \<Rightarrow> Inl IncorrectNumberOfCommitments
      | first # _ \<Rightarrow> res_fold add_commitment commitments (replicate (length first) 0))"

definition validate_num_of_signers :: "nat \<Rightarrow> nat \<Rightarrow> frost_error + unit" where
  "validate_num_of_signers min_signers max_signers =
     (if min_signers < 2 then Inl InvalidMinSigners
      else if max_signers < 2 then Inl InvalidMaxSigners
      else if min_signers > max_signers then Inl InvalidMinSigners
      else Inr ())"

record ('s, 'p) secret_share =
  ss_identifier :: "'s frost_identifier"
  ss_signing_share :: 's
  ss_commitment :: "'p list"

definition secret_share_verify :: "('s::field, 'p::ab_group_add, 'q) blst \<Rightarrow> ('s, 'p) secret_share \<Rightarrow> frost_error + unit" where
  "secret_share_verify B s =
     (if p1_mult B (ss_signing_share s) (p1_generator B) \<noteq> evaluate_vss B (ss_identifier s) (ss_commitment s)
      then Inl InvalidSecretShare else Inr ())"

definition verifying_key_from_commitment :: "'p list \<Rightarrow> frost_error + 'p" where
  "verifying_key_from_commitment commitment = (case commitment of [] \<Rightarrow> Inl IncorrectCommitment | c # _ \<Rightarrow> Inr c)"

record ('s, 'p) key_package =
  kp_identifier :: "'s frost_identifier"
  kp_signing_share :: 's
  kp_verifying_share :: 'p
  kp_verifying_key :: 'p
  kp_min_signers :: nat

record ('s, 'p) public_key_package =
  pk_verifying_shares :: "('s frost_identifier \<times> 'p) list"
  pk_verifying_key :: 'p

definition from_commitment ::
  "('s::field, 'p::ab_group_add, 'q) blst \<Rightarrow> 's frost_identifier list \<Rightarrow> 'p list \<Rightarrow> frost_error + ('s, 'p) public_key_package" where
  "from_commitment B identifiers commitment =
     (let verifying_shares = map (\<lambda>i. (i, evaluate_vss B i commitment)) identifiers
      in res_bind (verifying_key_from_commitment commitment) (\<lambda>key.
           Inr \<lparr>pk_verifying_shares = verifying_shares, pk_verifying_key = key\<rparr>))"

definition from_dkg_commitments ::
  "('s::field, 'p::ab_group_add, 'q) blst \<Rightarrow> ('s frost_identifier \<times> 'p list) list \<Rightarrow> frost_error + ('s, 'p) public_key_package" where
  "from_dkg_commitments B commitments =
     res_bind (sum_commitments (map snd commitments)) (\<lambda>group_commitment.
       from_commitment B (map fst commitments) group_commitment)"

section \<open>The challenge of a proof of knowledge\<close>

definition KRYPTOLOGY_DST :: "nat list" where
  "KRYPTOLOGY_DST = map of_char ''BLS12381_XMD:SHA-256_SSWU_RO_''"

text \<open>The blocks after the first one, each the hash of the first hash and the block before it.\<close>

fun xmd_blocks :: "(nat list \<Rightarrow> nat list) \<Rightarrow> nat list \<Rightarrow> nat list \<Rightarrow> nat list \<Rightarrow> nat list \<Rightarrow> nat list" where
  "xmd_blocks sha dst_prime b_0 b_prev [] = []"
| "xmd_blocks sha dst_prime b_0 b_prev (i # is) =
     (let b_i = sha (map2 (XOR) b_0 b_prev @ [i] @ dst_prime)
      in b_i @ xmd_blocks sha dst_prime b_0 b_i is)"

definition expand_msg_xmd :: "(nat list \<Rightarrow> nat list) \<Rightarrow> nat list \<Rightarrow> nat list \<Rightarrow> nat \<Rightarrow> nat list option" where
  "expand_msg_xmd sha msg dst len_in_bytes =
     (let ell = (len_in_bytes + 31) div 32
      in if \<not> (ell \<le> 255 \<and> len_in_bytes \<le> 65535 \<and> length dst \<le> 255) then None
         else
           let dst_prime = dst @ [length dst];
               b_0 = sha (replicate 64 0 @ msg @ [len_in_bytes div 256, len_in_bytes mod 256] @ [0] @ dst_prime);
               b_1 = sha (b_0 @ [1] @ dst_prime)
           in Some (take len_in_bytes (b_1 @ xmd_blocks sha dst_prime b_0 b_1 [2..<ell + 1])))"

definition kryptology_hash_to_scalar :: "('s, 'p, 'q) blst \<Rightarrow> (nat list \<Rightarrow> nat list) \<Rightarrow> nat list \<Rightarrow> 's option" where
  "kryptology_hash_to_scalar B sha msg = map_option (from_be_bytes_wide B) (expand_msg_xmd sha msg KRYPTOLOGY_DST 48)"

definition kryptology_challenge :: "('s, 'p, 'q) blst \<Rightarrow> (nat list \<Rightarrow> nat list) \<Rightarrow> nat \<Rightarrow> nat \<Rightarrow> 'p \<Rightarrow> 'p \<Rightarrow> 's option" where
  "kryptology_challenge B sha i ctx commitment_0 r =
     kryptology_hash_to_scalar B sha ([i] @ [ctx] @ to_compressed B commitment_0 @ to_compressed B r)"

lemma challenge_defined: "\<exists>c. kryptology_challenge B sha i ctx a r = Some c"
  by (simp add: kryptology_challenge_def kryptology_hash_to_scalar_def expand_msg_xmd_def KRYPTOLOGY_DST_def Let_def)
section \<open>The two rounds\<close>

datatype kryptology_error =
    InvalidParticipantId nat
  | DuplicateIdentifier nat
  | InsufficientSigners
  | InvalidSignerCount
  | InvalidProof nat
  | InvalidShare nat
  | IncorrectPackageCount
  | InvalidScalar
  | InvalidPoint
  | InvalidCommitmentCount nat
  | FrostCoreError frost_error
  | RoundPanic

record round1_bcast =
  rb_commitments :: "nat list list"
  rb_wi :: "nat list"
  rb_ci :: "nat list"

record round2_bcast =
  rb_verification_key :: "nat list"
  rb_vk_share :: "nat list"

record shamir_share =
  sh_id :: nat
  sh_value :: "nat list"

record ('s, 'p) round1_secret =
  rs_id :: nat
  rs_ctx :: nat
  rs_coefficients :: "'s list"
  rs_commitment :: "'p list"
  rs_threshold :: nat
  rs_max_signers :: nat

definition scalar_to_be :: "('s, 'p, 'q) blst \<Rightarrow> 's \<Rightarrow> nat list" where
  "scalar_to_be B s = rev (scalar_to_bytes B s)"

definition scalar_from_be :: "('s, 'p, 'q) blst \<Rightarrow> nat list \<Rightarrow> kryptology_error + 's" where
  "scalar_from_be B bytes = ok_or InvalidScalar (scalar_from_bytes B (rev bytes))"

definition frost_err :: "frost_error + 'a \<Rightarrow> kryptology_error + 'a" where
  "frost_err r = map_sum FrostCoreError id r"

definition validate_round_parameters :: "nat \<Rightarrow> nat \<Rightarrow> nat \<Rightarrow> kryptology_error + unit" where
  "validate_round_parameters i threshold max_signers =
     (if max_signers > 255 then Inl InvalidSignerCount
      else res_bind (frost_err (validate_num_of_signers threshold max_signers)) (\<lambda>_.
        if i = 0 \<or> i > max_signers then Inl (InvalidParticipantId i) else Inr ()))"

definition deserialize_commitment :: "('s, 'p::zero, 'q) blst \<Rightarrow> nat \<Rightarrow> nat \<Rightarrow> nat list list \<Rightarrow> kryptology_error + 'p list" where
  "deserialize_commitment B participant threshold commitments =
     (if length commitments \<noteq> threshold then Inl (InvalidCommitmentCount participant)
      else ok_or InvalidPoint (from_commitments B commitments))"

text \<open>The random scalars are a sequence; the nonce is the first one from a position on that is not zero.\<close>

partial_function (option) draw_nonce :: "(nat \<Rightarrow> 's::zero) \<Rightarrow> nat \<Rightarrow> 's option" where
  [code]: "draw_nonce rng n = (let s = rng n in if s \<noteq> 0 then Some s else draw_nonce rng (Suc n))"

definition share_for :: "('s::field, 'p, 'q) blst \<Rightarrow> 's list \<Rightarrow> nat \<Rightarrow> kryptology_error + nat \<times> shamir_share" where
  "share_for B coefficients j =
     res_bind (frost_err (from_u32 j)) (\<lambda>j_id.
     res_bind (ok_or RoundPanic (evaluate_polynomial j_id coefficients)) (\<lambda>share_scalar.
       Inr (j, \<lparr>sh_id = j, sh_value = scalar_to_be B share_scalar\<rparr>)))"

definition prove_and_share ::
  "('s::field, 'p::ab_group_add, 'q) blst \<Rightarrow> (nat list \<Rightarrow> nat list) \<Rightarrow> nat \<Rightarrow> nat \<Rightarrow> nat \<Rightarrow> nat \<Rightarrow> 's list \<Rightarrow> 's
    \<Rightarrow> kryptology_error + round1_bcast \<times> (nat \<times> shamir_share) list \<times> ('s, 'p) round1_secret" where
  "prove_and_share B sha i threshold max_signers ctx coefficients k =
     (let commitment_points = map (\<lambda>c. p1_mult B c (p1_generator B)) coefficients;
          r_point = p1_mult B k (p1_generator B)
      in case (coefficients, commitment_points) of
           (a0 # _, c0 # _) \<Rightarrow>
             if i > 255 then Inl RoundPanic
             else
               res_bind (ok_or RoundPanic (kryptology_challenge B sha i ctx c0 r_point)) (\<lambda>ci.
               let wi = k + a0 * ci
               in res_bind (res_map (share_for B coefficients) (filter (\<lambda>j. j \<noteq> i) [1..<max_signers + 1])) (\<lambda>shares.
                    Inr (\<lparr>rb_commitments = map (to_compressed B) commitment_points, rb_wi = scalar_to_be B wi, rb_ci = scalar_to_be B ci\<rparr>,
                         shares,
                         \<lparr>rs_id = i, rs_ctx = ctx, rs_coefficients = coefficients, rs_commitment = commitment_points,
                          rs_threshold = threshold, rs_max_signers = max_signers\<rparr>)))
         | _ \<Rightarrow> Inl RoundPanic)"

definition round1 ::
  "('s::field, 'p::ab_group_add, 'q) blst \<Rightarrow> (nat list \<Rightarrow> nat list) \<Rightarrow> nat \<Rightarrow> nat \<Rightarrow> nat \<Rightarrow> nat \<Rightarrow> (nat \<Rightarrow> 's)
    \<Rightarrow> (kryptology_error + round1_bcast \<times> (nat \<times> shamir_share) list \<times> ('s, 'p) round1_secret) option" where
  "round1 B sha i threshold max_signers ctx rng =
     (case validate_round_parameters i threshold max_signers of
        Inl e \<Rightarrow> Some (Inl e)
      | Inr _ \<Rightarrow>
          map_option (prove_and_share B sha i threshold max_signers ctx (map rng [0..<threshold])) (draw_nonce rng threshold))"

text \<open>What a participant does with the broadcast of one sender: the state is the commitments
  accepted so far and the sum of the received shares.\<close>

definition verify_proof ::
  "('s::field, 'p::ab_group_add, 'q) blst \<Rightarrow> (nat list \<Rightarrow> nat list) \<Rightarrow> nat \<Rightarrow> nat \<Rightarrow> 'p \<Rightarrow> round1_bcast \<Rightarrow> kryptology_error + unit" where
  "verify_proof B sha ctx sender_id a0 bcast =
     res_bind (scalar_from_be B (rb_wi bcast)) (\<lambda>wi.
     res_bind (scalar_from_be B (rb_ci bcast)) (\<lambda>ci.
       if ci = 0 then Inl (InvalidProof sender_id)
       else
         let r_reconstructed = p1_mult B wi (p1_generator B) - p1_mult B ci a0
         in if sender_id > 255 then Inl (InvalidParticipantId sender_id)
            else res_bind (ok_or RoundPanic (kryptology_challenge B sha sender_id ctx a0 r_reconstructed)) (\<lambda>ci_check.
              if ci_check \<noteq> ci then Inl (InvalidProof sender_id) else Inr ())))"

definition verify_share ::
  "('s::field, 'p::ab_group_add, 'q) blst \<Rightarrow> 's frost_identifier \<Rightarrow> nat \<Rightarrow> nat \<Rightarrow> 'p list \<Rightarrow> (nat \<times> shamir_share) list \<Rightarrow> kryptology_error + 's" where
  "verify_share B own_identifier own_id sender_id sender_commitment received_shares =
     res_bind (ok_or (InvalidShare sender_id) (map_of received_shares sender_id)) (\<lambda>share.
       if sh_id share = 0 \<or> sh_id share \<noteq> own_id then Inl (InvalidShare sender_id)
       else res_bind (scalar_from_be B (sh_value share)) (\<lambda>share_scalar.
         if share_scalar = 0 then Inl (InvalidShare sender_id)
         else case secret_share_verify B
                  \<lparr>ss_identifier = own_identifier, ss_signing_share = share_scalar, ss_commitment = sender_commitment\<rparr> of
                Inl _ \<Rightarrow> Inl (InvalidShare sender_id)
              | Inr _ \<Rightarrow> Inr share_scalar))"

definition receive_bcast ::
  "('s::field, 'p::ab_group_add, 'q) blst \<Rightarrow> (nat list \<Rightarrow> nat list) \<Rightarrow> ('s, 'p) round1_secret \<Rightarrow> 's frost_identifier
    \<Rightarrow> (nat \<times> shamir_share) list \<Rightarrow> nat \<times> round1_bcast \<Rightarrow> ('s frost_identifier \<times> 'p list) list \<times> 's
    \<Rightarrow> kryptology_error + ('s frost_identifier \<times> 'p list) list \<times> 's" where
  "receive_bcast B sha secret own_identifier received_shares sb state =
     (case (sb, state) of ((sender_id, bcast), (peer_commitments, share_sum)) \<Rightarrow>
        if sender_id = rs_id secret then Inr (peer_commitments, share_sum)
        else
          res_bind (deserialize_commitment B sender_id (rs_threshold secret) (rb_commitments bcast)) (\<lambda>sender_commitment.
          case sender_commitment of
            [] \<Rightarrow> Inl RoundPanic
          | a0 # _ \<Rightarrow>
              res_bind (verify_proof B sha (rs_ctx secret) sender_id a0 bcast) (\<lambda>_.
              res_bind (verify_share B own_identifier (rs_id secret) sender_id sender_commitment received_shares) (\<lambda>share_scalar.
              res_bind (frost_err (from_u32 sender_id)) (\<lambda>sender_identifier.
                Inr (bt_insert ident_id sender_identifier sender_commitment peer_commitments, share_sum + share_scalar))))))"

definition round2 ::
  "('s::field, 'p::ab_group_add, 'q) blst \<Rightarrow> (nat list \<Rightarrow> nat list) \<Rightarrow> ('s, 'p) round1_secret \<Rightarrow> (nat \<times> round1_bcast) list
    \<Rightarrow> (nat \<times> shamir_share) list \<Rightarrow> kryptology_error + round2_bcast \<times> ('s, 'p) key_package \<times> ('s, 'p) public_key_package" where
  "round2 B sha secret received_bcasts received_shares =
     (let min_received = rs_threshold secret - 1;
          bcast_max = rs_max_signers secret;
          shares_max = rs_max_signers secret - 1
      in if length received_bcasts < min_received \<or> length received_bcasts > bcast_max
             \<or> length received_shares < min_received \<or> length received_shares > shares_max
         then Inl IncorrectPackageCount
         else
           res_bind (frost_err (from_u32 (rs_id secret))) (\<lambda>own_identifier.
           res_bind (ok_or RoundPanic (evaluate_polynomial own_identifier (rs_coefficients secret))) (\<lambda>own_share_scalar.
           res_bind (res_fold (receive_bcast B sha secret own_identifier received_shares) received_bcasts ([], 0)) (\<lambda>(peer_commitments, share_sum).
             let total_scalar = own_share_scalar + share_sum;
                 verifying_share = p1_mult B total_scalar (p1_generator B);
                 peer_commitments = bt_insert ident_id own_identifier (rs_commitment secret) peer_commitments
             in res_bind (frost_err (from_dkg_commitments B peer_commitments)) (\<lambda>public_key_package.
                  let verifying_key = pk_verifying_key public_key_package
                  in Inr (\<lparr>rb_verification_key = to_compressed B verifying_key, rb_vk_share = to_compressed B verifying_share\<rparr>,
                          \<lparr>kp_identifier = own_identifier, kp_signing_share = total_scalar, kp_verifying_share = verifying_share,
                           kp_verifying_key = verifying_key, kp_min_signers = rs_threshold secret\<rparr>,
                          public_key_package))))))"

section \<open>Signatures\<close>

definition BLS_SIG_DST :: "nat list" where
  "BLS_SIG_DST = map of_char ''BLS_SIG_BLS12381G2_XMD:SHA-256_SSWU_RO_POP_''"

record 'q partial_signature =
  ps_identifier :: nat
  ps_point :: 'q

definition from_key_package :: "('s, 'p, 'q) blst \<Rightarrow> ('s, 'p) key_package \<Rightarrow> nat list \<Rightarrow> 'q partial_signature" where
  "from_key_package B kp msg =
     (let h_msg = hash_to_p2 B msg BLS_SIG_DST
      in \<lparr>ps_identifier = ident_id (kp_identifier kp), ps_point = p2_mult B (kp_signing_share kp) h_msg\<rparr>)"

fun first_duplicate :: "nat list \<Rightarrow> nat list \<Rightarrow> nat option" where
  "first_duplicate seen [] = None"
| "first_duplicate seen (i # is) = (if i \<in> set seen then Some i else first_duplicate (i # seen) is)"

definition lagrange_coefficient :: "'s::field list \<Rightarrow> nat \<Rightarrow> kryptology_error + 's" where
  "lagrange_coefficient x_vals i =
     res_fold (\<lambda>j lambda.
         if i = j then Inr lambda
         else res_bind (ok_or InvalidSignerCount (invert (x_vals ! j - x_vals ! i))) (\<lambda>den_inv. Inr (lambda * x_vals ! j * den_inv)))
       [0..<length x_vals] 1"

definition from_partial_signatures ::
  "('s::field, 'p, 'q::ab_group_add) blst \<Rightarrow> nat \<Rightarrow> 'q partial_signature list \<Rightarrow> kryptology_error + 'q" where
  "from_partial_signatures B min_signers partial_sigs =
     (if min_signers < 2 \<or> length partial_sigs < min_signers then Inl InsufficientSigners
      else case first_duplicate [] (map ps_identifier partial_sigs) of
        Some i \<Rightarrow> Inl (DuplicateIdentifier i)
      | None \<Rightarrow>
          let x_vals = map (\<lambda>ps. scalar_of_u64 (ps_identifier ps)) partial_sigs
          in res_fold (\<lambda>(i, ps) combined.
               res_bind (lagrange_coefficient x_vals i) (\<lambda>lambda. Inr (combined + p2_mult B lambda (ps_point ps))))
             (enumerate 0 partial_sigs) 0)"

definition bls_verify :: "('s, 'p, 'q) blst \<Rightarrow> 'p \<Rightarrow> nat list \<Rightarrow> 'q \<Rightarrow> bool" where
  "bls_verify B verifying_key msg sig = pairing_verify B verifying_key sig msg BLS_SIG_DST"
section \<open>Arithmetic of the code\<close>

lemma evaluate_polynomial_eq:
  "evaluate_polynomial i cs = (if cs = [] then None else Some (poly_eval cs (ident_scalar i)))"
proof (cases cs)
  case (Cons c rest)
  have "foldr (\<lambda>coeff value. (value + coeff) * x) rest 0 = x * poly_eval rest x" for x :: 'a
    by (induction rest) (simp_all add: algebra_simps)
  then show ?thesis by (simp add: evaluate_polynomial_def Cons foldr_conv_fold [symmetric] add.commute)
qed (simp add: evaluate_polynomial_def)

lemma evaluate_vss_eq: "evaluate_vss B i Cs = group_eval (p1_mult B) Cs (ident_scalar i)"
proof -
  have "fold (\<lambda>comm_k (i_to_the_k, sum_so_far). (ident_scalar i * i_to_the_k, sum_so_far + p1_mult B i_to_the_k comm_k)) Cs (1, 0)
      = (ident_scalar i ^ length Cs, group_eval (p1_mult B) Cs (ident_scalar i))"
    by (induction Cs rule: rev_induct) (simp_all add: group_eval_snoc group_eval_def [of _ "[]"])
  then show ?thesis by (simp add: evaluate_vss_def)
qed

lemma group_eval_zero:
  assumes "module scale" "Cs \<noteq> []"
  shows "group_eval scale Cs 0 = hd Cs"
proof -
  have "group_eval scale (C # Ds) 0 = C" for C Ds
    by (induction Ds rule: rev_induct)
      (simp_all add: group_eval_snoc [of _ "C # _", simplified] group_eval_def [of _ "[_]"] module.scale_one [OF assms(1)] module.scale_zero_left [OF assms(1)])
  then show ?thesis using assms(2) by (cases Cs) simp_all
qed

lemma add_commitment_ok:
  assumes "length g = length c"
  shows "add_commitment c g = Inr (map2 (+) g c)"
proof -
  have "add_commitment c g = Inr (map (\<lambda>(i, x). x + c ! i) (enumerate 0 g))"
    unfolding add_commitment_def using assms by (intro res_map_total) (auto simp: in_set_enumerate_eq)
  also have "map (\<lambda>(i, x). x + c ! i) (enumerate 0 g) = map2 (+) g c"
    using assms by (intro nth_equalityI) (simp_all add: nth_enumerate_eq)
  finally show ?thesis .
qed

lemma add_commitments_ok:
  assumes "module scale" "\<forall>c \<in> set cs. length c = length g"
  shows "\<exists>R. res_fold add_commitment cs g = Inr R \<and> length R = length g
    \<and> (\<forall>x. group_eval scale R x = group_eval scale g x + (\<Sum>c \<leftarrow> cs. group_eval scale c x))"
  using assms(2)
proof (induction cs arbitrary: g)
  case (Cons c cs)
  then have len: "length g = length c" "\<forall>d \<in> set cs. length d = length (map2 (+) g c)" by simp_all
  obtain R where "res_fold add_commitment cs (map2 (+) g c) = Inr R" "length R = length (map2 (+) g c)"
    "\<forall>x. group_eval scale R x = group_eval scale (map2 (+) g c) x + (\<Sum>d \<leftarrow> cs. group_eval scale d x)"
    using Cons.IH [OF len(2)] by blast
  then show ?case
    using len(1) by (intro exI [of _ R]) (simp add: add_commitment_ok [OF len(1)] group_eval_add [OF assms(1) len(1)] add.assoc)
qed simp

lemma sum_commitments_ok:
  assumes "module scale" "\<forall>c \<in> set cs. length c = t" "cs \<noteq> []"
  shows "\<exists>R. sum_commitments cs = Inr R \<and> length R = t \<and> (\<forall>x. group_eval scale R x = (\<Sum>c \<leftarrow> cs. group_eval scale c x))"
proof -
  have snoc: "replicate (Suc n) (0::'b) = replicate n 0 @ [0]" for n by (simp add: replicate_append_same)
  have "group_eval scale (replicate n 0) x = 0" for x n
    by (induction n) (simp_all add: snoc group_eval_snoc group_eval_def [of _ "[]"] module.scale_zero_right [OF assms(1)] del: replicate_Suc)
  then show ?thesis
    using add_commitments_ok [OF assms(1), of cs "replicate t 0"] assms(2,3) by (auto simp: sum_commitments_def split: list.split)
qed

lemma mset_bt_insert: "key k \<notin> key ` fst ` set m \<Longrightarrow> mset (bt_insert key k v m) = add_mset (k, v) (mset m)"
proof (induction m)
  case (Cons e m)
  obtain k' v' where "e = (k', v')" by fastforce
  then show ?case using Cons by (cases "key k < key k'") simp_all
qed simp

lemma set_bt_insert: "key k \<notin> key ` fst ` set m \<Longrightarrow> set (bt_insert key k v m) = insert (k, v) (set m)"
  using mset_bt_insert [of key k m v] by (metis set_mset_add_mset_insert set_mset_mset)

lemma distinct_bt_insert:
  assumes "distinct (map (key \<circ> fst) m)" "key k \<notin> key ` fst ` set m"
  shows "distinct (map (key \<circ> fst) (bt_insert key k v m))"
proof -
  have "mset (map (key \<circ> fst) (bt_insert key k v m)) = mset (map (key \<circ> fst) ((k, v) # m))"
    using mset_bt_insert [OF assms(2)] by simp
  moreover have "distinct (map (key \<circ> fst) ((k, v) # m))" using assms by (auto simp: image_comp)
  ultimately show ?thesis using mset_eq_imp_distinct_iff by blast
qed

lemma sum_bt_insert:
  fixes f :: "'k \<times> 'v \<Rightarrow> 'b::ab_group_add"
  assumes "key k \<notin> key ` fst ` set m"
  shows "sum_list (map f (bt_insert key k v m)) = f (k, v) + sum_list (map f m)"
  using mset_bt_insert [OF assms, of v] by (metis mset.simps(2) mset_map sum_mset_sum_list list.simps(9) sum_list.Cons)
section \<open>An accepted key is consistent with the commitments\<close>

lemma from_u32_Inr: "from_u32 n = Inr i \<longleftrightarrow> of_nat n \<noteq> (0::'s::field) \<and> i = \<lparr>ident_id = n, ident_scalar = (of_nat n :: 's)\<rparr>"
  by (auto simp: from_u32_def scalar_of_u64_def Let_def)

lemma frost_err_Inr [simp]: "frost_err r = Inr x \<longleftrightarrow> r = Inr x"
  by (cases r) (simp_all add: frost_err_def)

lemma those_length: "those xs = Some ys \<Longrightarrow> length ys = length xs"
  by (induction xs arbitrary: ys) (auto split: option.splits)

lemma deserialize_commitment_length: "deserialize_commitment B j t cs = Inr c \<Longrightarrow> length c = t"
  by (auto simp: deserialize_commitment_def from_commitments_def dest: those_length split: if_splits)

lemma verify_share_Inr:
  "verify_share B own n j c shares = Inr s \<Longrightarrow> p1_mult B s (p1_generator B) = group_eval (p1_mult B) c (ident_scalar own)"
  by (auto simp: verify_share_def secret_share_verify_def evaluate_vss_eq split: if_splits)

lemma receive_bcast_Inr:
  fixes B :: "('s::field, 'p::ab_group_add, 'q) blst"
  assumes "receive_bcast B sha secret own shares (j, bcast) (pcs, s) = Inr st" "j \<noteq> rs_id secret"
  shows "\<exists>c x. st = (bt_insert ident_id \<lparr>ident_id = j, ident_scalar = of_nat j\<rparr> c pcs, s + x) \<and> length c = rs_threshold secret
    \<and> p1_mult B x (p1_generator B) = group_eval (p1_mult B) c (ident_scalar own)"
proof -
  obtain c where c: "deserialize_commitment B j (rs_threshold secret) (rb_commitments bcast) = Inr c"
    using assms by (auto simp: receive_bcast_def)
  obtain a0 rest where cons: "c = a0 # rest" using assms c by (cases c) (auto simp: receive_bcast_def)
  obtain x i where "verify_share B own (rs_id secret) j c shares = Inr x" "from_u32 j = Inr i"
    "st = (bt_insert ident_id i c pcs, s + x)"
    using assms c by (auto simp: receive_bcast_def cons)
  then show ?thesis using deserialize_commitment_length [OF c] by (auto simp: from_u32_Inr dest: verify_share_Inr)
qed

definition received_ok ::
  "('s::field, 'p::ab_group_add, 'q) blst \<Rightarrow> nat \<Rightarrow> 's \<Rightarrow> ('s frost_identifier \<times> 'p list) list \<times> 's \<Rightarrow> bool" where
  "received_ok B t x st \<longleftrightarrow> distinct (map (ident_id \<circ> fst) (fst st))
     \<and> (\<forall>(i, c) \<in> set (fst st). length c = t \<and> ident_scalar i = of_nat (ident_id i))
     \<and> p1_mult B (snd st) (p1_generator B) = (\<Sum>(i, c) \<leftarrow> fst st. group_eval (p1_mult B) c x)"

lemma received_ok_insert:
  assumes "module (p1_mult B)" "received_ok B t x (pcs, s)" "ident_id i \<notin> ident_id ` fst ` set pcs" "length c = t"
    "ident_scalar i = of_nat (ident_id i)" "p1_mult B y (p1_generator B) = group_eval (p1_mult B) c x"
  shows "received_ok B t x (bt_insert ident_id i c pcs, s + y)"
  using assms distinct_bt_insert [of ident_id pcs i c] sum_bt_insert [OF assms(3), of "\<lambda>(i, c). group_eval (p1_mult B) c x" c]
  by (simp add: received_ok_def set_bt_insert module.scale_left_distrib add.commute)

lemma receive_loop:
  assumes "module (p1_mult B)" "distinct (map fst bs)" "received_ok B (rs_threshold secret) (ident_scalar own) (pcs, s)"
    "ident_id ` fst ` set pcs \<inter> fst ` set bs = {}" "rs_id secret \<notin> ident_id ` fst ` set pcs"
    "res_fold (receive_bcast B sha secret own shares) bs (pcs, s) = Inr (pcs', s')"
  shows "received_ok B (rs_threshold secret) (ident_scalar own) (pcs', s') \<and> rs_id secret \<notin> ident_id ` fst ` set pcs'"
  using assms(2-)
proof (induction bs arbitrary: pcs s)
  case (Cons b bs)
  obtain j bcast where b: "b = (j, bcast)" by fastforce
  obtain st where st: "receive_bcast B sha secret own shares (j, bcast) (pcs, s) = Inr st"
    "res_fold (receive_bcast B sha secret own shares) bs st = Inr (pcs', s')" using Cons.prems(5) by (auto simp: b)
  show ?case
  proof (cases "j = rs_id secret")
    case True
    then have "st = (pcs, s)" using st(1) by (simp add: receive_bcast_def)
    then show ?thesis using Cons.IH [of pcs s] Cons.prems st(2) by (simp add: b)
  next
    case False
    let ?i = "\<lparr>ident_id = j, ident_scalar = of_nat j\<rparr>"
    obtain c x where c: "st = (bt_insert ident_id ?i c pcs, s + x)" "length c = rs_threshold secret"
      "p1_mult B x (p1_generator B) = group_eval (p1_mult B) c (ident_scalar own)"
      using receive_bcast_Inr [OF st(1) False] by blast
    have fresh: "ident_id ?i \<notin> ident_id ` fst ` set pcs" using Cons.prems(3) by (auto simp: b)
    have "received_ok B (rs_threshold secret) (ident_scalar own) (bt_insert ident_id ?i c pcs, s + x)"
      using received_ok_insert [OF assms(1) Cons.prems(2) fresh c(2) _ c(3)] by simp
    moreover have "set (bt_insert ident_id ?i c pcs) = insert (?i, c) (set pcs)" by (rule set_bt_insert [OF fresh])
    moreover have "j \<notin> fst ` set bs" "distinct (map fst bs)" using Cons.prems(1) by (simp_all add: b)
    ultimately show ?thesis
      using Cons.IH [of "bt_insert ident_id ?i c pcs" "s + x"] Cons.prems(3,4) st(2) False c(1) by (auto simp: b)
  qed
qed simp

lemma package_of_received:
  assumes "module (p1_mult B)" "received_ok B t x (pcs, s)" "pcs \<noteq> []" "0 < t" "from_dkg_commitments B pcs = Inr pkg"
  shows "\<exists>R. length R = t \<and> pk_verifying_key pkg = group_eval (p1_mult B) R 0
    \<and> pk_verifying_shares pkg = map (\<lambda>(i, c). (i, group_eval (p1_mult B) R (ident_scalar i))) pcs
    \<and> p1_mult B s (p1_generator B) = group_eval (p1_mult B) R x"
proof -
  obtain R where R: "sum_commitments (map snd pcs) = Inr R" "length R = t"
    "\<forall>x. group_eval (p1_mult B) R x = (\<Sum>c \<leftarrow> map snd pcs. group_eval (p1_mult B) c x)"
    using sum_commitments_ok [OF assms(1), of "map snd pcs" t] assms(2,3) by (fastforce simp: received_ok_def)
  have ne: "R \<noteq> []" using R(2) assms(4) by auto
  then have "pk_verifying_key pkg = hd R" "pk_verifying_shares pkg = map (\<lambda>(i, c). (i, group_eval (p1_mult B) R (ident_scalar i))) pcs"
    using assms(5) R(1)
    by (auto simp: from_dkg_commitments_def from_commitment_def verifying_key_from_commitment_def evaluate_vss_eq split: list.splits)
  moreover have "p1_mult B s (p1_generator B) = group_eval (p1_mult B) R x"
    using R(3) assms(2) by (simp add: received_ok_def comp_def case_prod_unfold)
  ultimately show ?thesis using R(2) group_eval_zero [OF assms(1) ne] by (intro exI [of _ R]) simp
qed

text \<open>
  C34. Whatever the other participants sent, a second round that succeeds leaves a participant
  with consistent key material: its public share is the public image of its secret share and is
  the share that the public package lists for it; the listed participants are distinct; and all
  listed shares and the group key lie on one committed polynomial with as many coefficients as
  the threshold, the group key being its value at zero.
\<close>

theorem round2_sound:
  assumes "blst_ok B" "round2 B sha secret received_bcasts received_shares = Inr (bcast, kp, pkg)" "distinct (map fst received_bcasts)"
    "rs_commitment secret = map (\<lambda>c. p1_mult B c (p1_generator B)) (rs_coefficients secret)"
    "length (rs_coefficients secret) = rs_threshold secret"
  shows "kp_verifying_share kp = p1_mult B (kp_signing_share kp) (p1_generator B)
    \<and> (kp_identifier kp, kp_verifying_share kp) \<in> set (pk_verifying_shares pkg)
    \<and> distinct (map (ident_id \<circ> fst) (pk_verifying_shares pkg)) \<and> kp_verifying_key kp = pk_verifying_key pkg
    \<and> (\<exists>R. length R = rs_threshold secret \<and> pk_verifying_key pkg = group_eval (p1_mult B) R 0
         \<and> (\<forall>(i, v) \<in> set (pk_verifying_shares pkg). v = group_eval (p1_mult B) R (of_nat (ident_id i))))"
proof -
  have m: "module (p1_mult B)" using assms(1) by (simp add: blst_ok_def)
  obtain own own_share pcs s where own: "from_u32 (rs_id secret) = Inr own"
    "evaluate_polynomial own (rs_coefficients secret) = Some own_share"
    and fold: "res_fold (receive_bcast B sha secret own received_shares) received_bcasts ([], 0) = Inr (pcs, s)"
    and pkg: "from_dkg_commitments B (bt_insert ident_id own (rs_commitment secret) pcs) = Inr pkg"
    and kp: "kp = \<lparr>kp_identifier = own, kp_signing_share = own_share + s, kp_verifying_share = p1_mult B (own_share + s) (p1_generator B),
      kp_verifying_key = pk_verifying_key pkg, kp_min_signers = rs_threshold secret\<rparr>"
    using assms(2) by (auto simp: round2_def Let_def split: if_splits)
  let ?all = "bt_insert ident_id own (rs_commitment secret) pcs"
  have id: "own = \<lparr>ident_id = rs_id secret, ident_scalar = of_nat (rs_id secret)\<rparr>" using own(1) by (simp add: from_u32_Inr)
  have "received_ok B (rs_threshold secret) (ident_scalar own) ([], 0)"
    by (simp add: received_ok_def module.scale_zero_left [OF m])
  from receive_loop [OF m assms(3) this _ _ fold]
  have r: "received_ok B (rs_threshold secret) (ident_scalar own) (pcs, s)" and fresh: "ident_id own \<notin> ident_id ` fst ` set pcs"
    by (simp_all add: id)
  have "own_share = poly_eval (rs_coefficients secret) (ident_scalar own)" and ne: "rs_coefficients secret \<noteq> []"
    using own(2) by (auto simp: evaluate_polynomial_eq split: if_splits)
  then have "p1_mult B own_share (p1_generator B) = group_eval (p1_mult B) (rs_commitment secret) (ident_scalar own)"
    using group_eval_commit [OF m] assms(4) by simp
  then have all: "received_ok B (rs_threshold secret) (ident_scalar own) (?all, own_share + s)"
    using received_ok_insert [OF m r fresh] assms(4,5) by (simp add: id add.commute)
  have mem: "own \<in> fst ` set ?all" using set_bt_insert [OF fresh] by force
  then have nonempty: "?all \<noteq> []" "0 < rs_threshold secret" using assms(5) ne by (auto simp flip: assms(5))
  obtain R where R: "length R = rs_threshold secret" "pk_verifying_key pkg = group_eval (p1_mult B) R 0"
    "pk_verifying_shares pkg = map (\<lambda>(i, c). (i, group_eval (p1_mult B) R (ident_scalar i))) ?all"
    "p1_mult B (own_share + s) (p1_generator B) = group_eval (p1_mult B) R (ident_scalar own)"
    using package_of_received [OF m all nonempty(1,2) pkg] by blast
  have "(own, p1_mult B (own_share + s) (p1_generator B)) \<in> set (pk_verifying_shares pkg)" using mem R(3,4) by force
  moreover have "distinct (map (ident_id \<circ> fst) (pk_verifying_shares pkg))"
    using all R(3) by (simp add: received_ok_def comp_def case_prod_unfold)
  moreover have "\<forall>(i, v) \<in> set (pk_verifying_shares pkg). v = group_eval (p1_mult B) R (of_nat (ident_id i))"
    using all R(3) by (auto simp: received_ok_def)
  ultimately show ?thesis using R(1,2) by (auto simp: kp)
qed
section \<open>Key generation among honest participants\<close>

lemma draw_nonce_returns: "n \<le> m \<Longrightarrow> rng m \<noteq> 0 \<Longrightarrow> \<exists>k. draw_nonce rng n = Some k"
proof (induction "m - n" arbitrary: n)
  case 0
  then show ?case by (subst draw_nonce.simps) simp
next
  case (Suc d)
  then show ?case by (subst draw_nonce.simps) (simp add: Let_def)
qed

definition ident :: "nat \<Rightarrow> 's::field frost_identifier" where
  "ident j = \<lparr>ident_id = j, ident_scalar = of_nat j\<rparr>"

definition own_coefficients :: "(nat \<Rightarrow> nat \<Rightarrow> 's::field) \<Rightarrow> nat \<Rightarrow> nat \<Rightarrow> 's list" where
  "own_coefficients rng t j = map (rng j) [0..<t]"

definition own_commitment :: "('s::field, 'p, 'q) blst \<Rightarrow> (nat \<Rightarrow> nat \<Rightarrow> 's) \<Rightarrow> nat \<Rightarrow> nat \<Rightarrow> 'p list" where
  "own_commitment B rng t j = map (\<lambda>c. p1_mult B c (p1_generator B)) (own_coefficients rng t j)"

text \<open>The polynomial that the participants share: the sum of their polynomials.\<close>

definition group_polynomial :: "(nat \<Rightarrow> nat \<Rightarrow> 's::field) \<Rightarrow> nat \<Rightarrow> nat \<Rightarrow> 's list" where
  "group_polynomial rng n t = map (\<lambda>k. \<Sum>j \<leftarrow> [1..<n + 1]. rng j k) [0..<t]"

lemma poly_eval_map_add: "poly_eval (map (\<lambda>k. f k + g k) ks) x = poly_eval (map f ks) x + poly_eval (map g ks) x"
  by (induction ks) (simp_all add: algebra_simps)

lemma poly_eval_map_sum: "poly_eval (map (\<lambda>k. \<Sum>j \<leftarrow> js. f j k) ks) x = (\<Sum>j \<leftarrow> js. poly_eval (map (f j) ks) x)"
proof (induction js)
  case Nil
  then show ?case by (induction ks) simp_all
qed (simp add: poly_eval_map_add)

lemma group_polynomial_eval: "poly_eval (group_polynomial rng n t) x = (\<Sum>j \<leftarrow> [1..<n + 1]. poly_eval (own_coefficients rng t j) x)"
  unfolding group_polynomial_def own_coefficients_def by (rule poly_eval_map_sum)

text \<open>What the first round of an honest participant produces.\<close>

definition honest_inputs :: "('s::field, 'p::ab_group_add, 'q::ab_group_add) blst \<Rightarrow> nat \<Rightarrow> nat \<Rightarrow> bool" where
  "honest_inputs B t n \<longleftrightarrow> blst_ok B \<and> 2 \<le> t \<and> t \<le> n \<and> n \<le> 255 \<and> (\<forall>j \<in> {1..n}. of_nat j \<noteq> (0::'s))"

definition round1_output ::
  "('s::field, 'p::ab_group_add, 'q) blst \<Rightarrow> (nat list \<Rightarrow> nat list) \<Rightarrow> nat \<Rightarrow> nat \<Rightarrow> nat \<Rightarrow> (nat \<Rightarrow> nat \<Rightarrow> 's) \<Rightarrow> nat
    \<Rightarrow> round1_bcast \<times> (nat \<times> shamir_share) list \<times> ('s, 'p) round1_secret \<Rightarrow> bool" where
  "round1_output B sha t n ctx rng j out \<longleftrightarrow> (\<exists>k ci.
     kryptology_challenge B sha j ctx (p1_mult B (rng j 0) (p1_generator B)) (p1_mult B k (p1_generator B)) = Some ci
     \<and> out = (\<lparr>rb_commitments = map (to_compressed B) (own_commitment B rng t j),
               rb_wi = scalar_to_be B (k + rng j 0 * ci), rb_ci = scalar_to_be B ci\<rparr>,
        map (\<lambda>i. (i, \<lparr>sh_id = i, sh_value = scalar_to_be B (poly_eval (own_coefficients rng t j) (of_nat i))\<rparr>)) (filter (\<lambda>i. i \<noteq> j) [1..<n + 1]),
        \<lparr>rs_id = j, rs_ctx = ctx, rs_coefficients = own_coefficients rng t j, rs_commitment = own_commitment B rng t j,
         rs_threshold = t, rs_max_signers = n\<rparr>))"

lemma round1_honest:
  assumes "honest_inputs B t n" "j \<in> {1..n}" "t \<le> m" "rng j m \<noteq> 0"
  shows "\<exists>out. round1 B sha j t n ctx (rng j) = Some (Inr out) \<and> round1_output B sha t n ctx rng j out"
proof -
  let ?g = "p1_generator B" and ?cs = "own_coefficients rng t j"
  obtain k where k: "draw_nonce (rng j) t = Some k" using draw_nonce_returns assms(3,4) by blast
  obtain ci where ci: "kryptology_challenge B sha j ctx (p1_mult B (rng j 0) ?g) (p1_mult B k ?g) = Some ci"
    using challenge_defined [of B sha j ctx "p1_mult B (rng j 0) ?g" "p1_mult B k ?g"] by auto
  have t: "2 \<le> t" "t \<le> n" "n \<le> 255" "\<forall>j \<in> {1..n}. of_nat j \<noteq> (0::'a)" using assms(1) by (auto simp: honest_inputs_def)
  then obtain rest where cons: "?cs = rng j 0 # rest" by (cases t) (simp_all add: own_coefficients_def upt_conv_Cons del: upt_Suc)
  have "validate_round_parameters j t n = Inr ()"
    using t assms(2) by (simp add: validate_round_parameters_def validate_num_of_signers_def frost_err_def)
  moreover have "res_map (share_for B ?cs) (filter (\<lambda>i. i \<noteq> j) [1..<n + 1])
      = Inr (map (\<lambda>i. (i, \<lparr>sh_id = i, sh_value = scalar_to_be B (poly_eval ?cs (of_nat i))\<rparr>)) (filter (\<lambda>i. i \<noteq> j) [1..<n + 1]))"
  proof (rule res_map_total)
    fix i assume "i \<in> set (filter (\<lambda>i. i \<noteq> j) [1..<n + 1])"
    then have "from_u32 i = Inr \<lparr>ident_id = i, ident_scalar = (of_nat i :: 'a)\<rparr>" using t(4) by (auto simp: from_u32_Inr)
    then show "share_for B ?cs i = Inr (i, \<lparr>sh_id = i, sh_value = scalar_to_be B (poly_eval ?cs (of_nat i))\<rparr>)"
      by (simp add: share_for_def evaluate_polynomial_eq cons frost_err_def)
  qed
  ultimately show ?thesis
    using k ci t assms(2)
    by (auto simp: round1_def round1_output_def prove_and_share_def own_coefficients_def [symmetric] own_commitment_def cons Let_def)
qed
text \<open>Inputs on which no honest participant draws a zero coefficient, deals a zero share or hashes
  to a zero challenge, which the receiving side rejects.\<close>

definition honest_draws ::
  "('s::field, 'p::ab_group_add, 'q) blst \<Rightarrow> (nat list \<Rightarrow> nat list) \<Rightarrow> nat \<Rightarrow> nat \<Rightarrow> nat \<Rightarrow> (nat \<Rightarrow> nat \<Rightarrow> 's) \<Rightarrow> bool" where
  "honest_draws B sha t n ctx rng \<longleftrightarrow> (\<forall>j \<in> {1..n}. (\<exists>m \<ge> t. rng j m \<noteq> 0) \<and> (\<forall>k < t. rng j k \<noteq> 0)
     \<and> (\<forall>i \<in> {1..n}. poly_eval (own_coefficients rng t j) (of_nat i) \<noteq> 0)
     \<and> (\<forall>k. kryptology_challenge B sha j ctx (p1_mult B (rng j 0) (p1_generator B)) (p1_mult B k (p1_generator B)) \<noteq> Some 0))"

lemma those_map_Some: "\<forall>x \<in> set xs. f x = Some x \<Longrightarrow> those (map f xs) = Some xs"
  by (induction xs) simp_all

lemma scalar_be_roundtrip [simp]: "blst_ok B \<Longrightarrow> scalar_from_be B (scalar_to_be B s) = Inr s"
  by (simp add: scalar_from_be_def scalar_to_be_def scalar_roundtrip)

lemma deserialize_honest:
  assumes "honest_inputs B t n" "honest_draws B sha t n ctx rng" "j \<in> {1..n}"
  shows "deserialize_commitment B j t (map (to_compressed B) (own_commitment B rng t j)) = Inr (own_commitment B rng t j)"
proof -
  have ok: "blst_ok B" "p1_generator B \<noteq> 0" using assms(1) by (simp_all add: honest_inputs_def blst_ok_def)
  have "\<forall>p \<in> set (own_commitment B rng t j). p \<noteq> 0"
    using assms(2,3) mult_nonzero [OF ok(1) _ ok(2)] by (auto simp: own_commitment_def own_coefficients_def honest_draws_def)
  then have "those (map (\<lambda>p. from_compressed B (to_compressed B p)) (own_commitment B rng t j)) = Some (own_commitment B rng t j)"
    by (intro those_map_Some) (simp add: compressed_roundtrip [OF ok(1)])
  then show ?thesis by (simp add: deserialize_commitment_def from_commitments_def comp_def) (simp add: own_commitment_def own_coefficients_def)
qed

lemma verify_proof_honest:
  assumes "blst_ok B" "kryptology_challenge B sha j ctx (p1_mult B a (p1_generator B)) (p1_mult B k (p1_generator B)) = Some ci" "ci \<noteq> 0" "j \<le> 255"
  shows "verify_proof B sha ctx j (p1_mult B a (p1_generator B))
    \<lparr>rb_commitments = cs, rb_wi = scalar_to_be B (k + a * ci), rb_ci = scalar_to_be B ci\<rparr> = Inr ()"
proof -
  have m: "module (p1_mult B)" using assms(1) by (simp add: blst_ok_def)
  have "p1_mult B (k + a * ci) (p1_generator B) - p1_mult B ci (p1_mult B a (p1_generator B)) = p1_mult B k (p1_generator B)"
    by (simp add: module.scale_left_distrib [OF m] module.scale_scale [OF m] mult.commute)
  then show ?thesis using assms by (simp add: verify_proof_def)
qed

lemma receive_honest:
  assumes inp: "honest_inputs B t n" and drw: "honest_draws B sha t n ctx rng" and ij: "i \<in> {1..n}" "j \<in> {1..n}" "j \<noteq> i"
    and out: "round1_output B sha t n ctx rng j (bc, sh, sec)"
    and secret: "rs_id secret = i" "rs_threshold secret = t" "rs_ctx secret = ctx" and shares: "map_of shares j = map_of sh i"
  shows "receive_bcast B sha secret (ident i) shares (j, bc) (pcs, s)
    = Inr (bt_insert ident_id (ident j) (own_commitment B rng t j) pcs, s + poly_eval (own_coefficients rng t j) (of_nat i))"
proof -
  let ?cs = "own_coefficients rng t j" and ?g = "p1_generator B"
  have ok: "blst_ok B" and m: "module (p1_mult B)" and bounds: "2 \<le> t" "n \<le> 255" "of_nat j \<noteq> (0::'a)"
    using inp ij by (auto simp: honest_inputs_def blst_ok_def)
  obtain rest where cons: "?cs = rng j 0 # rest" using bounds by (cases t) (simp_all add: own_coefficients_def upt_conv_Cons del: upt_Suc)
  obtain k ci where ci: "kryptology_challenge B sha j ctx (p1_mult B (rng j 0) ?g) (p1_mult B k ?g) = Some ci"
    "bc = \<lparr>rb_commitments = map (to_compressed B) (own_commitment B rng t j), rb_wi = scalar_to_be B (k + rng j 0 * ci), rb_ci = scalar_to_be B ci\<rparr>"
    "sh = map (\<lambda>i. (i, \<lparr>sh_id = i, sh_value = scalar_to_be B (poly_eval ?cs (of_nat i))\<rparr>)) (filter (\<lambda>i. i \<noteq> j) [1..<n + 1])"
    using out unfolding round1_output_def by blast
  have "ci \<noteq> 0" "poly_eval ?cs (of_nat i) \<noteq> 0" using drw ij ci(1) by (auto simp: honest_draws_def)
  have "map_of shares j = Some \<lparr>sh_id = i, sh_value = scalar_to_be B (poly_eval ?cs (of_nat i))\<rparr>"
    unfolding shares ci(3) using ij by (subst map_of_map_restrict) (auto simp: restrict_map_def)
  moreover have "group_eval (p1_mult B) (own_commitment B rng t j) (of_nat i) = p1_mult B (poly_eval ?cs (of_nat i)) ?g"
    unfolding own_commitment_def by (rule group_eval_commit [OF m])
  ultimately have "verify_share B (ident i) i j (own_commitment B rng t j) shares = Inr (poly_eval ?cs (of_nat i))"
    using \<open>poly_eval ?cs (of_nat i) \<noteq> 0\<close> ok ij by (simp add: verify_share_def secret_share_verify_def evaluate_vss_eq ident_def)
  moreover have "verify_proof B sha ctx j (p1_mult B (rng j 0) ?g) bc = Inr ()"
    using verify_proof_honest [OF ok ci(1) \<open>ci \<noteq> 0\<close>] ij bounds by (simp add: ci(2))
  moreover have "from_u32 j = Inr (ident j :: 'a frost_identifier)" using bounds by (simp add: from_u32_Inr ident_def)
  moreover have "own_commitment B rng t j = p1_mult B (rng j 0) ?g # map (\<lambda>c. p1_mult B c ?g) rest" by (simp add: own_commitment_def cons)
  ultimately show ?thesis
    using deserialize_honest [OF inp drw ij(2)] ij secret by (simp add: receive_bcast_def ci(2) frost_err_def)
qed
lemma bt_insert_between:
  assumes "\<forall>e \<in> set xs. key (fst e) < key k" "\<forall>e \<in> set ys. key k < key (fst e)"
  shows "bt_insert key k v (xs @ ys) = xs @ (k, v) # ys"
  using assms
proof (induction xs)
  case Nil
  then show ?case by (cases ys) auto
next
  case (Cons e xs)
  then show ?case by (cases e) auto
qed

definition commitment_list :: "('s::field, 'p, 'q) blst \<Rightarrow> (nat \<Rightarrow> nat \<Rightarrow> 's) \<Rightarrow> nat \<Rightarrow> nat list \<Rightarrow> ('s frost_identifier \<times> 'p list) list" where
  "commitment_list B rng t js = map (\<lambda>j. (ident j, own_commitment B rng t j)) js"

lemma receive_all_honest:
  assumes "honest_inputs B t n" "honest_draws B sha t n ctx rng" "i \<in> {1..n}"
    "\<forall>j \<in> set js. round1_output B sha t n ctx rng j (bc j, sh j, sec j) \<and> map_of shares j = map_of (sh j) i"
    "rs_id secret = i" "rs_threshold secret = t" "rs_ctx secret = ctx"
    "sorted_wrt (<) (ps @ js)" "set js \<subseteq> {1..n} - {i}"
  shows "res_fold (receive_bcast B sha secret (ident i) shares) (map (\<lambda>j. (j, bc j)) js) (commitment_list B rng t ps, s)
    = Inr (commitment_list B rng t (ps @ js), s + (\<Sum>j \<leftarrow> js. poly_eval (own_coefficients rng t j) (of_nat i)))"
  using assms(4,8,9)
proof (induction js arbitrary: ps s)
  case (Cons j js)
  have j: "j \<in> {1..n}" "j \<noteq> i" "round1_output B sha t n ctx rng j (bc j, sh j, sec j)" "map_of shares j = map_of (sh j) i"
    using Cons.prems by auto
  have "\<forall>e \<in> set (commitment_list B rng t ps). ident_id (fst e) < ident_id (ident j)"
    using Cons.prems(2) by (auto simp: commitment_list_def ident_def sorted_wrt_append)
  then have "bt_insert ident_id (ident j) (own_commitment B rng t j) (commitment_list B rng t ps) = commitment_list B rng t (ps @ [j])"
    using bt_insert_between [of "commitment_list B rng t ps" ident_id "ident j" "[]"] by (simp add: commitment_list_def)
  then show ?case
    using receive_honest [OF assms(1,2,3) j(1,2,3) assms(5-7) j(4)] Cons.IH [of "ps @ [j]"] Cons.prems by (simp add: add.assoc)
qed simp

lemma upt_split: "i \<in> {1..n} \<Longrightarrow> [1..<n + 1] = [1..<i] @ i # [i + 1..<n + 1]"
  using upt_add_eq_append [of 1 i "n + 1 - i"] upt_conv_Cons [of i "n + 1"] by simp

lemma filter_upt: "i \<in> {1..n} \<Longrightarrow> filter (\<lambda>j. j \<noteq> i) [1..<n + 1] = [1..<i] @ [i + 1..<n + 1]"
  by (simp only: upt_split) (simp del: upt_Suc)

lemma package_honest:
  assumes "honest_inputs B t n"
  shows "\<exists>pkg. from_dkg_commitments B (commitment_list B rng t [1..<n + 1]) = Inr pkg
    \<and> pk_verifying_key pkg = p1_mult B (poly_eval (group_polynomial rng n t) 0) (p1_generator B)
    \<and> pk_verifying_shares pkg = map (\<lambda>j. (ident j, p1_mult B (poly_eval (group_polynomial rng n t) (of_nat j)) (p1_generator B))) [1..<n + 1]"
proof -
  let ?cs = "map snd (commitment_list B rng t [1..<n + 1])"
  have m: "module (p1_mult B)" and n: "2 \<le> t" "t \<le> n" using assms by (auto simp: honest_inputs_def blst_ok_def)
  then have "\<forall>c \<in> set ?cs. length c = t" "?cs \<noteq> []" by (auto simp: commitment_list_def own_commitment_def own_coefficients_def)
  then obtain R where R: "sum_commitments ?cs = Inr R" "length R = t"
    "\<forall>x. group_eval (p1_mult B) R x = (\<Sum>c \<leftarrow> ?cs. group_eval (p1_mult B) c x)"
    using sum_commitments_ok [OF m] by blast
  have eval: "group_eval (p1_mult B) R x = p1_mult B (poly_eval (group_polynomial rng n t) x) (p1_generator B)" for x
    unfolding R(3) [rule_format] group_polynomial_eval sum_list_scale [OF m, symmetric]
    by (simp add: commitment_list_def own_commitment_def group_eval_commit [OF m] comp_def del: upt_Suc)
  have "R \<noteq> []" using R(2) n by auto
  then obtain r Rs where "R = r # Rs" by (cases R) auto
  then show ?thesis
    using eval [of 0] group_eval_zero [OF m \<open>R \<noteq> []\<close>] R(1)
    by (simp add: from_dkg_commitments_def from_commitment_def verifying_key_from_commitment_def evaluate_vss_eq eval [unfolded \<open>R = r # Rs\<close>])
      (simp add: commitment_list_def ident_def del: upt_Suc)
qed
lemma round2_honest:
  assumes inp: "honest_inputs B t n" and drw: "honest_draws B sha t n ctx rng" and i: "i \<in> {1..n}"
    and out: "\<forall>j \<in> {1..n}. round1_output B sha t n ctx rng j (bc j, sh j, sec j)"
    and pkg: "from_dkg_commitments B (commitment_list B rng t [1..<n + 1]) = Inr pkg"
  defines "js \<equiv> filter (\<lambda>j. j \<noteq> i) [1..<n + 1]"
  shows "\<exists>b kp. round2 B sha (sec i) (map (\<lambda>j. (j, bc j)) js) (map (\<lambda>j. (j, the (map_of (sh j) i))) js) = Inr (b, kp, pkg)
    \<and> kp_identifier kp = ident i \<and> kp_signing_share kp = poly_eval (group_polynomial rng n t) (of_nat i)"
proof -
  let ?shares = "map (\<lambda>j. (j, the (map_of (sh j) i))) js" and ?f = "\<lambda>j. poly_eval (own_coefficients rng t j) (of_nat i)"
  have bounds: "2 \<le> t" "t \<le> n" "of_nat i \<noteq> (0::'a)" using inp i by (auto simp: honest_inputs_def)
  have sec: "sec i = \<lparr>rs_id = i, rs_ctx = ctx, rs_coefficients = own_coefficients rng t i, rs_commitment = own_commitment B rng t i,
      rs_threshold = t, rs_max_signers = n\<rparr>" using out i by (auto simp: round1_output_def)
  have mem: "set js = {1..n} - {i}" by (auto simp: js_def simp del: upt_Suc)
  have js: "js = [1..<i] @ [i + 1..<n + 1]" unfolding js_def by (rule filter_upt [OF i])
  have len: "length js = n - 1" using i by (simp add: js del: upt_Suc)
  have "map_of (sh j) i \<noteq> None" if "j \<in> set js" for j
  proof -
    have "round1_output B sha t n ctx rng j (bc j, sh j, sec j)" using out that mem by auto
    then have "i \<in> fst ` set (sh j)" using that mem i by (auto simp: round1_output_def image_iff)
    then show ?thesis by (simp add: map_of_eq_None_iff)
  qed
  then have shares: "\<forall>j \<in> set js. round1_output B sha t n ctx rng j (bc j, sh j, sec j) \<and> map_of ?shares j = map_of (sh j) i"
    using out mem by (auto simp: map_of_map_restrict restrict_map_def)
  have "res_fold (receive_bcast B sha (sec i) (ident i) ?shares) (map (\<lambda>j. (j, bc j)) js) ([], 0)
      = Inr (commitment_list B rng t js, \<Sum>j \<leftarrow> js. ?f j)"
    using receive_all_honest [OF inp drw i shares, of "sec i" "[]" 0] mem by (simp add: sec commitment_list_def js_def sorted_wrt_filter del: upt_Suc)
  moreover have "bt_insert ident_id (ident i) (own_commitment B rng t i) (commitment_list B rng t js) = commitment_list B rng t [1..<n + 1]"
    using bt_insert_between [of "commitment_list B rng t [1..<i]" ident_id "ident i" "commitment_list B rng t [i + 1..<n + 1]"]
    unfolding upt_split [OF i] js by (simp add: commitment_list_def ident_def del: upt_Suc)
  moreover have "?f i + (\<Sum>j \<leftarrow> js. ?f j) = poly_eval (group_polynomial rng n t) (of_nat i)"
    unfolding group_polynomial_eval js upt_split [OF i] by (simp add: add.left_commute del: upt_Suc)
  moreover have "from_u32 i = Inr (ident i :: 'a frost_identifier)" "own_coefficients rng t i \<noteq> []"
    using bounds by (auto simp: from_u32_Inr ident_def own_coefficients_def)
  ultimately show ?thesis
    using pkg bounds diff_le_mono [OF bounds(2), of 1]
    by (simp add: round2_def sec evaluate_polynomial_eq frost_err_def len Let_def ident_def not_less)
qed

text \<open>Three participants with threshold two, over the integers modulo five.\<close>

definition sample_sha :: "nat list \<Rightarrow> nat list" where
  "sample_sha bs = replicate 32 1"

definition sample_rng :: "nat \<Rightarrow> nat \<Rightarrow> gf5" where
  "sample_rng j k = gf5_of j"

lemma less_2_nat: "(\<forall>k < 2. P k) \<longleftrightarrow> P 0 \<and> P (Suc 0)"
  by (auto simp: numeral_2_eq_2 less_Suc_eq)

lemma sample_participants: "{1..3} = {1, 2, 3::nat}"
  by auto

lemma sample_inputs: "honest_inputs sample_blst 2 3"
  unfolding honest_inputs_def sample_participants using sample_blst_ok by (simp add: gf5_numerals) (simp add: gf5_defs)

lemma sample_challenge: "kryptology_challenge sample_blst sample_sha j ctx a r = Some F3"
  by (simp add: kryptology_challenge_def kryptology_hash_to_scalar_def expand_msg_xmd_def KRYPTOLOGY_DST_def Let_def
      sample_sha_def from_be_bytes_wide_def sample_blst_def numeral_2_eq_2 [symmetric] sum_list_replicate gf5_of_def)

lemma sample_draws: "honest_draws sample_blst sample_sha 2 3 0 sample_rng"
proof -
  have "\<forall>j \<in> {1, 2, 3}. sample_rng j k \<noteq> 0" for k by (simp add: sample_rng_def gf5_defs)
  moreover have "own_coefficients sample_rng 2 j = [gf5_of j, gf5_of j]" for j
    by (simp add: own_coefficients_def sample_rng_def upt_conv_Cons)
  then have "\<forall>j \<in> {1, 2, 3}. \<forall>i \<in> {1, 2, 3}. poly_eval (own_coefficients sample_rng 2 j) (of_nat i) \<noteq> 0"
    by (simp add: gf5_numerals) (simp add: gf5_defs)
  moreover have "F3 \<noteq> 0" by (simp add: zero_gf5_def)
  ultimately show ?thesis unfolding honest_draws_def sample_participants sample_challenge by blast
qed


definition sample_out :: "nat \<Rightarrow> round1_bcast \<times> (nat \<times> shamir_share) list \<times> (gf5, gf5) round1_secret" where
  "sample_out j = projr (the (round1 sample_blst sample_sha j 2 3 0 (sample_rng j)))"

lemma sample_round1: "j \<in> {1..3} \<Longrightarrow> round1_output sample_blst sample_sha 2 3 0 sample_rng j (sample_out j)"
  using round1_honest [OF sample_inputs, of j 2 sample_rng sample_sha 0] sample_draws
  by (force simp: sample_out_def honest_draws_def sample_rng_def)

theorem round2_sound_witness:
  "\<exists>bcast kp pkg. round2 sample_blst sample_sha (snd (snd (sample_out 1)))
      (map (\<lambda>j. (j, fst (sample_out j))) [2, 3]) (map (\<lambda>j. (j, the (map_of (fst (snd (sample_out j))) 1))) [2, 3]) = Inr (bcast, kp, pkg)
    \<and> (kp_identifier kp, kp_verifying_share kp) \<in> set (pk_verifying_shares pkg)"
proof -
  have others: "filter (\<lambda>j. j \<noteq> 1) [1..<3 + 1] = [2, 3::nat]" by (simp add: upt_conv_Cons)
  have o: "\<forall>j \<in> {1..3}. round1_output sample_blst sample_sha 2 3 0 sample_rng j (fst (sample_out j), fst (snd (sample_out j)), snd (snd (sample_out j)))"
    using sample_round1 by simp
  obtain pkg where "from_dkg_commitments sample_blst (commitment_list sample_blst sample_rng 2 [1..<3 + 1]) = Inr pkg"
    using package_honest [OF sample_inputs, of sample_rng] by (elim exE conjE)
  from round2_honest [OF sample_inputs sample_draws _ o this, of 1, unfolded others]
  obtain bcast kp where r: "round2 sample_blst sample_sha (snd (snd (sample_out 1)))
      (map (\<lambda>j. (j, fst (sample_out j))) [2, 3]) (map (\<lambda>j. (j, the (map_of (fst (snd (sample_out j))) 1))) [2, 3]) = Inr (bcast, kp, pkg)"
    by (elim exE conjE meta_impE) simp_all
  have "rs_commitment (snd (snd (sample_out 1))) = map (\<lambda>c. p1_mult sample_blst c (p1_generator sample_blst)) (rs_coefficients (snd (snd (sample_out 1))))"
    "length (rs_coefficients (snd (snd (sample_out 1)))) = rs_threshold (snd (snd (sample_out 1)))"
    using sample_round1 [of 1] by (auto simp: round1_output_def own_commitment_def own_coefficients_def)
  from round2_sound [OF sample_blst_ok r _ this] show ?thesis using r by auto
qed

section \<open>Threshold signatures\<close>

lemma first_duplicate_None: "first_duplicate seen is = None \<longleftrightarrow> distinct is \<and> set is \<inter> set seen = {}"
  by (induction "is" arbitrary: seen) auto

lemma lagrange_coefficient_eq:
  assumes "distinct xs" "i < length xs"
  shows "lagrange_coefficient xs i = Inr (lagrange (set xs) (xs ! i))"
proof -
  let ?g = "\<lambda>j. xs ! j / (xs ! j - xs ! i)"
  have fold: "fold (\<lambda>j lam. if i = j then lam else lam * ?g j) js a = a * (\<Prod>j \<leftarrow> filter (\<lambda>j. j \<noteq> i) js. ?g j)" for js a
    by (induction js arbitrary: a) (simp_all add: mult.assoc)
  have "lagrange_coefficient xs i = Inr (fold (\<lambda>j lam. if i = j then lam else lam * ?g j) [0..<length xs] 1)"
    unfolding lagrange_coefficient_def
    by (rule res_fold_total) (use assms in \<open>simp add: invert_def nth_eq_iff_index_eq divide_inverse mult.assoc\<close>)
  then show ?thesis using lagrange_positions [OF assms] by (simp add: fold)
qed

text \<open>
  C36. Any set of participants at least as large as the threshold, whose secret shares are the
  values of one polynomial with at most that many coefficients, produce partial signatures that
  combine to the signature of the value at zero, which is the group secret: the combination
  does not depend on who signs.
\<close>

theorem frost_threshold_signature:
  fixes B :: "('s::field, 'p::ab_group_add, 'q::ab_group_add) blst"
  assumes "blst_ok B" "2 \<le> t" "t \<le> length kps" "length F \<le> t"
    "distinct (map (ident_id \<circ> kp_identifier) kps)" "inj_on (of_nat :: nat \<Rightarrow> 's) ((ident_id \<circ> kp_identifier) ` set kps)"
    "\<forall>kp \<in> set kps. kp_signing_share kp = poly_eval F (of_nat (ident_id (kp_identifier kp)))"
  shows "from_partial_signatures B t (map (\<lambda>kp. from_key_package B kp msg) kps)
    = Inr (p2_mult B (poly_eval F 0) (hash_to_p2 B msg BLS_SIG_DST))"
proof -
  let ?h = "hash_to_p2 B msg BLS_SIG_DST" and ?x = "\<lambda>kp. of_nat (ident_id (kp_identifier kp)) :: 's"
  let ?xs = "map ?x kps" and ?ps = "map (\<lambda>kp. from_key_package B kp msg) kps"
  have m: "module (p2_mult B)" using assms(1) by (simp add: blst_ok_def)
  have dist: "distinct ?xs" using assms(5,6) by (simp add: distinct_map inj_on_def comp_def)
  have sum: "fold (\<lambda>(i, ps) c. c + p2_mult B (lagrange (set ?xs) (?xs ! i)) (ps_point ps)) es a
      = a + (\<Sum>(i, ps) \<leftarrow> es. p2_mult B (lagrange (set ?xs) (?xs ! i)) (ps_point ps))" for es a
    by (induction es arbitrary: a) (auto simp: add.assoc)
  have "res_fold (\<lambda>(i, ps) combined. res_bind (lagrange_coefficient ?xs i) (\<lambda>lambda. Inr (combined + p2_mult B lambda (ps_point ps)))) (enumerate 0 ?ps) 0
      = Inr (fold (\<lambda>(i, ps) c. c + p2_mult B (lagrange (set ?xs) (?xs ! i)) (ps_point ps)) (enumerate 0 ?ps) 0)"
    by (rule res_fold_total) (auto simp: in_set_enumerate_eq lagrange_coefficient_eq [OF dist])
  also have "\<dots> = Inr (\<Sum>(i, ps) \<leftarrow> enumerate 0 ?ps. p2_mult B (lagrange (set ?xs) (?xs ! i)) (ps_point ps))" by (simp only: sum add_0)
  also have "map (\<lambda>(i, ps). p2_mult B (lagrange (set ?xs) (?xs ! i)) (ps_point ps)) (enumerate 0 ?ps)
      = map (\<lambda>x. p2_mult B (lagrange (set ?xs) x) (p2_mult B (poly_eval F x) ?h)) ?xs"
    using assms(7) by (intro nth_equalityI) (simp_all add: nth_enumerate_eq from_key_package_def Let_def)
  also have "sum_list \<dots> = p2_mult B (poly_eval F 0) ?h"
    using interpolation_group [OF m dist, of F ?h] assms(2-4) by fastforce
  finally have fold: "res_fold (\<lambda>(i, ps) combined. res_bind (lagrange_coefficient ?xs i) (\<lambda>lambda. Inr (combined + p2_mult B lambda (ps_point ps))))
      (enumerate 0 ?ps) 0 = Inr (p2_mult B (poly_eval F 0) ?h)" .
  have ids: "map ps_identifier ?ps = map (ident_id \<circ> kp_identifier) kps" "map (\<lambda>ps. scalar_of_u64 (ps_identifier ps)) ?ps = ?xs"
    by (simp_all add: from_key_package_def Let_def scalar_of_u64_def)
  show ?thesis
    using assms(2-5) first_duplicate_None [of "[]" "map (ident_id \<circ> kp_identifier) kps"]
    unfolding from_partial_signatures_def Let_def ids fold by simp
qed

definition sample_package :: "nat \<Rightarrow> (gf5, gf5) key_package" where
  "sample_package i = \<lparr>kp_identifier = ident i, kp_signing_share = poly_eval [F1, F1] (of_nat i), kp_verifying_share = 0, kp_verifying_key = 0, kp_min_signers = 2\<rparr>"

theorem frost_threshold_signature_witness:
  "from_partial_signatures sample_blst 2 (map (\<lambda>kp. from_key_package sample_blst kp [7]) [sample_package 3, sample_package 1])
    = Inr (p2_mult sample_blst (poly_eval [F1, F1] 0) (hash_to_p2 sample_blst [7] BLS_SIG_DST))"
proof (rule frost_threshold_signature)
  show "inj_on (of_nat :: nat \<Rightarrow> gf5) ((ident_id \<circ> kp_identifier) ` set [sample_package 3, sample_package 1])"
    by (simp add: sample_package_def ident_def inj_on_def gf5_numerals) (simp add: gf5_defs)
qed (simp_all add: sample_blst_ok sample_package_def ident_def)

end
