(* ===== verification/Feature_Set.thy ===== *)
theory Feature_Set
  imports Prelude
begin

text \<open>
  The feature set (crates/featureset/src/lib.rs): the rollout status of each feature, resolved
  once from the configuration. The error's text is the status it names.
\<close>

datatype status = Disable | Alpha | Beta | Stable | Sentinel | Enable

text \<open>The order derived from the discriminants.\<close>

fun status_discriminant :: "status \<Rightarrow> nat" where
  "status_discriminant Disable = 0"
| "status_discriminant Alpha = 1"
| "status_discriminant Beta = 2"
| "status_discriminant Stable = 3"
| "status_discriminant Sentinel = 4"
| "status_discriminant Enable = 2147483647"

instantiation status :: linorder
begin

definition less_eq_status :: "status \<Rightarrow> status \<Rightarrow> bool" where
  "less_eq_status a b \<longleftrightarrow> status_discriminant a \<le> status_discriminant b"

definition less_status :: "status \<Rightarrow> status \<Rightarrow> bool" where
  "less_status a b \<longleftrightarrow> status_discriminant a < status_discriminant b"

instance
proof
  fix a b :: status
  show "a \<le> b \<Longrightarrow> b \<le> a \<Longrightarrow> a = b"
    by (cases a; cases b) (simp_all add: less_eq_status_def)
qed (auto simp: less_eq_status_def less_status_def)

end

datatype feature =
    MockAlpha | EagerDoubleLinear | ConsensusParticipate | AggSigDBV2 | JsonRequests | GnosisBlockHotfix | Linear
  | SseReorgDuties | AttestationInclusion | ProposalTimeout | Quic | FetchOnlyCommIdx0 | ChainSplitHalt

record feature_config =
  cfg_min_status :: status
  cfg_enabled :: "feature list"
  cfg_disabled :: "feature list"

definition default_feature_config :: feature_config where
  "default_feature_config = \<lparr>cfg_min_status = Stable, cfg_enabled = [], cfg_disabled = []\<rparr>"

record feature_set =
  fs_state :: "(feature \<times> status) list"
  fs_min_status :: status

datatype featureset_error = UnknownMinStatus status

definition default_feature_state :: "(feature \<times> status) list" where
  "default_feature_state =
     [(EagerDoubleLinear, Stable), (ConsensusParticipate, Stable), (MockAlpha, Alpha), (AggSigDBV2, Alpha), (JsonRequests, Alpha),
      (GnosisBlockHotfix, Alpha), (Linear, Alpha), (SseReorgDuties, Alpha), (AttestationInclusion, Alpha), (ProposalTimeout, Alpha),
      (Quic, Alpha), (FetchOnlyCommIdx0, Alpha), (ChainSplitHalt, Alpha)]"

definition feature_set_from_config :: "feature_config \<Rightarrow> featureset_error + feature_set" where
  "feature_set_from_config config =
     (if cfg_min_status config \<notin> {Alpha, Beta, Stable} then Inl (UnknownMinStatus (cfg_min_status config))
      else Inr \<lparr>fs_state = fold (\<lambda>feature. AList.update feature Disable) (cfg_disabled config)
                   (fold (\<lambda>feature. AList.update feature Enable) (cfg_enabled config) default_feature_state),
                fs_min_status = cfg_min_status config\<rparr>)"

definition enable_gnosis_block_hotfix_if_not_disabled :: "feature_config \<Rightarrow> feature_set \<Rightarrow> feature_set" where
  "enable_gnosis_block_hotfix_if_not_disabled config fs =
     (if GnosisBlockHotfix \<in> set (cfg_disabled config) then fs
      else fs\<lparr>fs_state := AList.update GnosisBlockHotfix Enable (fs_state fs)\<rparr>)"

definition feature_enabled :: "feature_set \<Rightarrow> feature \<Rightarrow> bool" where
  "feature_enabled fs feature \<longleftrightarrow>
     fs_min_status fs \<le> (case map_of (fs_state fs) feature of None \<Rightarrow> Disable | Some s \<Rightarrow> s)"

definition custom_enabled_all :: "hash_order \<Rightarrow> feature_set \<Rightarrow> feature list" where
  "custom_enabled_all ord fs = map fst (filter (\<lambda>(feature, s). Stable < s) (hash_iter (ord 0) (fs_state fs)))"

section \<open>Which features are on\<close>

lemma map_of_fold_update:
  "map_of (fold (\<lambda>x. AList.update x v) xs m) = (\<lambda>k. if k \<in> set xs then Some v else map_of m k)"
  by (induction xs arbitrary: m) (auto simp: update_conv')

lemma feature_enabled_iff:
  assumes "feature_set_from_config config = Inr fs"
  shows "feature_enabled fs f \<longleftrightarrow> f \<notin> set (cfg_disabled config)
    \<and> (f \<in> set (cfg_enabled config) \<or> cfg_min_status config = Alpha
        \<or> f \<in> {EagerDoubleLinear, ConsensusParticipate})"
proof -
  have fs: "fs_min_status fs = cfg_min_status config" "cfg_min_status config \<in> {Alpha, Beta, Stable}"
    "map_of (fs_state fs) f = (if f \<in> set (cfg_disabled config) then Some Disable
       else if f \<in> set (cfg_enabled config) then Some Enable else map_of default_feature_state f)"
    using assms by (auto simp: feature_set_from_config_def map_of_fold_update split: if_splits)
  then show ?thesis
    by (cases f) (auto simp: feature_enabled_def less_eq_status_def default_feature_state_def)
qed

lemma gnosis_hotfix_enabled:
  assumes "feature_set_from_config config = Inr fs"
  shows "feature_enabled (enable_gnosis_block_hotfix_if_not_disabled config fs) GnosisBlockHotfix
    \<longleftrightarrow> GnosisBlockHotfix \<notin> set (cfg_disabled config)"
proof (cases "GnosisBlockHotfix \<in> set (cfg_disabled config)")
  case True
  then show ?thesis using feature_enabled_iff [OF assms] by (simp add: enable_gnosis_block_hotfix_if_not_disabled_def)
next
  case False
  have "cfg_min_status config \<in> {Alpha, Beta, Stable}" "fs_min_status fs = cfg_min_status config"
    using assms by (auto simp: feature_set_from_config_def split: if_splits)
  then show ?thesis using False
    by (auto simp: enable_gnosis_block_hotfix_if_not_disabled_def feature_enabled_def update_conv' less_eq_status_def)
qed

end
