(* ===== verification/Timer.thy ===== *)
theory Timer
  imports Duty_Types Feature_Set
begin

text \<open>
  The round timers of consensus (crates/consensus/src/timer.rs). Durations and instants are
  counted in nanoseconds; a duration holds at most \<open>duration_max\<close>, an instant at most a bound of
  the platform that is an argument. A timer call returns the deadline of the sleep it starts. The
  lock around the first deadlines is never poisoned, since nothing panics while it is held.
\<close>

section \<open>Durations\<close>

definition duration_max :: nat where "duration_max = 2 ^ 64 * 1000000000 - 1"

definition from_millis :: "nat \<Rightarrow> nat" where "from_millis ms = ms * 1000000"

definition duration_checked_mul :: "nat \<Rightarrow> nat \<Rightarrow> nat option" where
  "duration_checked_mul d n = (if d * n \<le> duration_max then Some (d * n) else None)"

definition duration_checked_add :: "nat \<Rightarrow> nat \<Rightarrow> nat option" where
  "duration_checked_add a b = (if a + b \<le> duration_max then Some (a + b) else None)"

definition u32_try_from :: "int \<Rightarrow> nat option" where
  "u32_try_from x = (if 0 \<le> x \<and> x < 2 ^ 32 then Some (nat x) else None)"

definition INC_ROUND_START :: nat where "INC_ROUND_START = from_millis 750"

definition INC_ROUND_INCREASE :: nat where "INC_ROUND_INCREASE = from_millis 250"

definition LINEAR_ROUND_INC :: nat where "LINEAR_ROUND_INC = from_millis 1000"

definition PROPOSAL_TIMEOUT :: nat where "PROPOSAL_TIMEOUT = from_millis 1500"

lemmas timer_constants = from_millis_def INC_ROUND_START_def INC_ROUND_INCREASE_def LINEAR_ROUND_INC_def PROPOSAL_TIMEOUT_def

section \<open>Timeouts\<close>

datatype timer_error =
    InvalidRound int
  | DurationOverflow int
  | DeadlineOverflow int

datatype timer_type = IncreasingTimer | EagerDoubleLinearTimer | LinearTimer

fun timer_eager :: "timer_type \<Rightarrow> bool" where
  "timer_eager EagerDoubleLinearTimer = True"
| "timer_eager _ = False"

definition ensure_non_negative_round :: "int \<Rightarrow> timer_error + unit" where
  "ensure_non_negative_round r = (if r < 0 then Inl (InvalidRound r) else Inr ())"

definition increasing_round_timeout :: "int \<Rightarrow> timer_error + nat" where
  "increasing_round_timeout r =
     res_bind (ensure_non_negative_round r) (\<lambda>_.
     res_bind (ok_or (DurationOverflow r) (u32_try_from r)) (\<lambda>rounds.
     res_bind (ok_or (DurationOverflow r) (duration_checked_mul INC_ROUND_INCREASE rounds)) (\<lambda>increment.
       ok_or (DurationOverflow r) (duration_checked_add INC_ROUND_START increment))))"

definition linear_round_timeout :: "int \<Rightarrow> timer_error + nat" where
  "linear_round_timeout r =
     res_bind (ensure_non_negative_round r) (\<lambda>_.
     res_bind (ok_or (DurationOverflow r) (u32_try_from r)) (\<lambda>rounds.
       ok_or (DurationOverflow r) (duration_checked_mul LINEAR_ROUND_INC rounds)))"

definition linear_subsequent_round_timeout :: "int \<Rightarrow> timer_error + nat" where
  "linear_subsequent_round_timeout r =
     res_bind (ensure_non_negative_round r) (\<lambda>_.
     res_bind (ok_or (DurationOverflow r) (checked_sub_i64 r 1)) (\<lambda>previous_round.
     res_bind (ok_or (DurationOverflow r) (checked_mul_i64 previous_round 200)) (\<lambda>increment_nanos.
     res_bind (ok_or (DurationOverflow r) (checked_add_i64 increment_nanos 200)) (\<lambda>timeout_nanos.
       if timeout_nanos < 0 then Inl (DurationOverflow r) else Inr (nat timeout_nanos)))))"

section \<open>Timers\<close>

record round_timer =
  rt_type :: timer_type
  rt_duty :: "duty option"
  rt_features :: feature_set
  rt_first_deadlines :: "(int \<times> nat) list"

definition round_timer_with_duty :: "timer_type \<Rightarrow> duty \<Rightarrow> feature_set \<Rightarrow> round_timer" where
  "round_timer_with_duty ty d fs = \<lparr>rt_type = ty, rt_duty = Some d, rt_features = fs, rt_first_deadlines = []\<rparr>"

definition is_proposer :: "duty \<Rightarrow> bool" where
  "is_proposer d \<longleftrightarrow> d_type d = Proposer"

definition proposal_timeout_duration :: "duty option \<Rightarrow> int \<Rightarrow> feature_set \<Rightarrow> nat option" where
  "proposal_timeout_duration d r fs =
     (if r = 1 \<and> (case d of None \<Rightarrow> False | Some d \<Rightarrow> is_proposer d) \<and> feature_enabled fs ProposalTimeout
      then Some PROPOSAL_TIMEOUT else None)"

text \<open>The timeout that a call of each of the three timers computes.\<close>

definition round_timeout :: "round_timer \<Rightarrow> int \<Rightarrow> timer_error + nat" where
  "round_timeout tm r =
     (case proposal_timeout_duration (rt_duty tm) r (rt_features tm) of
        Some timeout \<Rightarrow> Inr timeout
      | None \<Rightarrow>
          (case rt_type tm of
             IncreasingTimer \<Rightarrow> increasing_round_timeout r
           | EagerDoubleLinearTimer \<Rightarrow> linear_round_timeout r
           | LinearTimer \<Rightarrow> if r = 1 then Inr (from_millis 1000) else linear_subsequent_round_timeout r))"

definition checked_deadline :: "nat \<Rightarrow> nat \<Rightarrow> nat \<Rightarrow> int \<Rightarrow> timer_error + nat" where
  "checked_deadline instant_max start timeout r =
     (if start + timeout \<le> instant_max then Inr (start + timeout) else Inl (DeadlineOverflow r))"

definition eager_deadline :: "nat \<Rightarrow> nat \<Rightarrow> int \<Rightarrow> nat \<Rightarrow> round_timer \<Rightarrow> (timer_error + nat) \<times> round_timer" where
  "eager_deadline instant_max now r timeout tm =
     (case map_of (rt_first_deadlines tm) r of
        Some first_deadline \<Rightarrow> (checked_deadline instant_max first_deadline timeout r, tm)
      | None \<Rightarrow>
          (case checked_deadline instant_max now timeout r of
             Inl e \<Rightarrow> (Inl e, tm)
           | Inr first_deadline \<Rightarrow>
               (Inr first_deadline, tm\<lparr>rt_first_deadlines := AList.update r first_deadline (rt_first_deadlines tm)\<rparr>)))"

definition start_timer :: "nat \<Rightarrow> nat \<Rightarrow> int \<Rightarrow> round_timer \<Rightarrow> (timer_error + nat) \<times> round_timer" where
  "start_timer instant_max now r tm =
     (case round_timeout tm r of
        Inl e \<Rightarrow> (Inl e, tm)
      | Inr timeout \<Rightarrow>
          if rt_type tm = EagerDoubleLinearTimer then eager_deadline instant_max now r timeout tm
          else (checked_deadline instant_max now timeout r, tm))"

definition get_round_timer_func :: "feature_set \<Rightarrow> duty \<Rightarrow> round_timer" where
  "get_round_timer_func fs d =
     round_timer_with_duty
       (if feature_enabled fs Linear then
          if is_proposer d then LinearTimer
          else if feature_enabled fs EagerDoubleLinear then EagerDoubleLinearTimer
          else IncreasingTimer
        else if feature_enabled fs EagerDoubleLinear then EagerDoubleLinearTimer
        else IncreasingTimer) d fs"

section \<open>Lemmas\<close>

lemma increasing_round_timeout_eq:
  "0 \<le> r \<Longrightarrow> r < 2 ^ 32 \<Longrightarrow> increasing_round_timeout r = Inr (750000000 + 250000000 * nat r)"
  by (simp add: increasing_round_timeout_def ensure_non_negative_round_def u32_try_from_def duration_checked_mul_def
      duration_checked_add_def duration_max_def timer_constants)

lemma linear_round_timeout_eq: "0 \<le> r \<Longrightarrow> r < 2 ^ 32 \<Longrightarrow> linear_round_timeout r = Inr (1000000000 * nat r)"
  by (simp add: linear_round_timeout_def ensure_non_negative_round_def u32_try_from_def duration_checked_mul_def
      duration_max_def timer_constants)

lemma linear_subsequent_round_timeout_eq: "1 \<le> r \<Longrightarrow> r < 2 ^ 32 \<Longrightarrow> linear_subsequent_round_timeout r = Inr (200 * nat r)"
  by (auto simp: linear_subsequent_round_timeout_def ensure_non_negative_round_def rust_arith)

text \<open>The rounds that no timer accepts.\<close>

lemma round_timeout_negative: "r < 0 \<Longrightarrow> round_timeout tm r = Inl (InvalidRound r)"
  by (simp add: round_timeout_def proposal_timeout_duration_def increasing_round_timeout_def linear_round_timeout_def
      linear_subsequent_round_timeout_def ensure_non_negative_round_def split: timer_type.split)

lemma round_timeout_deadlines [simp]: "round_timeout (tm\<lparr>rt_first_deadlines := m\<rparr>) r = round_timeout tm r"
  by (simp add: round_timeout_def split: option.split)

lemma round_timeout_bounds:
  assumes "1 \<le> r" "r < 2 ^ 32"
  shows "\<exists>timeout. round_timeout tm r = Inr timeout \<and> 0 < timeout \<and> timeout \<le> max PROPOSAL_TIMEOUT (LINEAR_ROUND_INC * nat r)"
proof -
  have "1 \<le> nat r" using assms by simp
  then show ?thesis
    using assms increasing_round_timeout_eq [of r] linear_round_timeout_eq [of r] linear_subsequent_round_timeout_eq [of r]
    by (auto simp: round_timeout_def proposal_timeout_duration_def timer_constants split: timer_type.split option.split)
qed

text \<open>The two timers whose rounds get longer, as consensus needs to make progress on a slow network.\<close>

lemma round_timeout_grows:
  assumes "rt_type tm \<noteq> LinearTimer" "2 \<le> r" "r < 2 ^ 32 - 1" "round_timeout tm r = Inr t" "round_timeout tm (r + 1) = Inr t'"
  shows "t < t'"
  using assms increasing_round_timeout_eq [of r] increasing_round_timeout_eq [of "r + 1"]
    linear_round_timeout_eq [of r] linear_round_timeout_eq [of "r + 1"]
  by (auto simp: round_timeout_def proposal_timeout_duration_def nat_add_distrib split: timer_type.splits)

text \<open>The linear timer gives the second round four hundred nanoseconds.\<close>

lemma linear_timer_second_round: "rt_type tm = LinearTimer \<Longrightarrow> round_timeout tm 2 = Inr 400"
  by (simp add: round_timeout_def proposal_timeout_duration_def linear_subsequent_round_timeout_eq)

text \<open>Without configuration every duty gets the eager timer.\<close>

lemma default_round_timer:
  assumes "feature_set_from_config default_feature_config = Inr fs"
  shows "rt_type (get_round_timer_func fs d) = EagerDoubleLinearTimer"
  using feature_enabled_iff [OF assms]
  by (simp add: get_round_timer_func_def round_timer_with_duty_def default_feature_config_def)

section \<open>Bounds of a round\<close>


definition sample_timer :: round_timer where
  "sample_timer = \<lparr>rt_type = EagerDoubleLinearTimer, rt_duty = None, rt_features = \<lparr>fs_state = [], fs_min_status = Stable\<rparr>, rt_first_deadlines = []\<rparr>"


end
