(* ===== verification/Tracker.thy ===== *)
theory Tracker
  imports Deadline Feature_Set
begin

text \<open>
  The tracker (crates/core/src/tracker): it records what every component of the workflow reports
  for a duty and, when the duty has expired, finds the step where the duty got stuck, the reason,
  and which peers took part. The reporters that write logs and metrics are actions of the loop, the
  two deadline services are their answers. The message root of signed data is an argument. An error
  is a chain of sources, of which the analysis only asks whether it contains an error of the beacon
  node's client.
\<close>

section \<open>Steps and reasons\<close>

datatype tracker_step =
    Zero | Fetcher | Consensus | DutyDB | ValidatorAPI | ParSigDBInternal | ParSigEx | ParSigDBExternal | SigAgg | AggSigDB
  | Bcast | ChainInclusion | StepSentinel

fun step_discriminant :: "tracker_step \<Rightarrow> nat" where
  "step_discriminant Zero = 0"
| "step_discriminant Fetcher = 1"
| "step_discriminant Consensus = 2"
| "step_discriminant DutyDB = 3"
| "step_discriminant ValidatorAPI = 4"
| "step_discriminant ParSigDBInternal = 5"
| "step_discriminant ParSigEx = 6"
| "step_discriminant ParSigDBExternal = 7"
| "step_discriminant SigAgg = 8"
| "step_discriminant AggSigDB = 9"
| "step_discriminant Bcast = 10"
| "step_discriminant ChainInclusion = 11"
| "step_discriminant StepSentinel = 12"

instantiation tracker_step :: linorder
begin

definition less_eq_tracker_step :: "tracker_step \<Rightarrow> tracker_step \<Rightarrow> bool" where
  "less_eq_tracker_step a b \<longleftrightarrow> step_discriminant a \<le> step_discriminant b"

definition less_tracker_step :: "tracker_step \<Rightarrow> tracker_step \<Rightarrow> bool" where
  "less_tracker_step a b \<longleftrightarrow> step_discriminant a < step_discriminant b"

instance
proof
  fix a b :: tracker_step
  show "a \<le> b \<Longrightarrow> b \<le> a \<Longrightarrow> a = b"
    by (cases a; cases b) (simp_all add: less_eq_tracker_step_def)
qed (auto simp: less_eq_tracker_step_def less_tracker_step_def)

end

datatype reason =
    REASON_UNKNOWN | REASON_FETCH_BN_ERROR | REASON_MISSING_AGGREGATOR_ATTESTATION | REASON_INSUFFICIENT_AGGREGATOR_SELECTIONS
  | REASON_ZERO_AGGREGATOR_SELECTIONS | REASON_FAILED_AGGREGATOR_SELECTION | REASON_NO_AGGREGATOR_SELECTIONS
  | REASON_PROPOSER_INSUFFICIENT_RANDAOS | REASON_PROPOSER_ZERO_RANDAOS | REASON_FAILED_PROPOSER_RANDAO
  | REASON_PROPOSER_NO_EXTERNAL_RANDAOS | REASON_SYNC_CONTRIBUTION_NO_SYNC_MSG | REASON_SYNC_CONTRIBUTION_FEW_PREPARES
  | REASON_SYNC_CONTRIBUTION_ZERO_PREPARES | REASON_SYNC_CONTRIBUTION_FAILED_PREPARE
  | REASON_SYNC_CONTRIBUTION_NO_EXTERNAL_PREPARES | REASON_NO_CONSENSUS | REASON_NO_LOCAL_VC_SIGNATURE
  | REASON_NO_PEER_SIGNATURES | REASON_INSUFFICIENT_PEER_SIGNATURES | REASON_PAR_SIG_DB_INCONSISTENT_SYNC
  | REASON_BROADCAST_BN_ERROR | REASON_NOT_INCLUDED_ON_CHAIN | REASON_BUG_FETCH_ERROR | REASON_BUG_PAR_SIG_DB_INCONSISTENT
  | REASON_BUG_PAR_SIG_DB_EXTERNAL | REASON_BUG_SIG_AGG | REASON_BUG_AGGREGATION_ERROR | REASON_BUG_DUTY_DB_ERROR
  | REASON_BUG_PAR_SIG_DB_INTERNAL

text \<open>The label of a reason in the metrics; two reasons are equal when their labels are.\<close>

fun reason_code :: "reason \<Rightarrow> string" where
  "reason_code REASON_UNKNOWN = ''unknown''"
| "reason_code REASON_FETCH_BN_ERROR = ''fetch_bn_error''"
| "reason_code REASON_MISSING_AGGREGATOR_ATTESTATION = ''missing_aggregator_attestation''"
| "reason_code REASON_INSUFFICIENT_AGGREGATOR_SELECTIONS = ''insufficient_aggregator_selections''"
| "reason_code REASON_ZERO_AGGREGATOR_SELECTIONS = ''zero_aggregator_prepares''"
| "reason_code REASON_FAILED_AGGREGATOR_SELECTION = ''failed_aggregator_selection''"
| "reason_code REASON_NO_AGGREGATOR_SELECTIONS = ''no_aggregator_selections''"
| "reason_code REASON_PROPOSER_INSUFFICIENT_RANDAOS = ''proposer_insufficient_randaos''"
| "reason_code REASON_PROPOSER_ZERO_RANDAOS = ''proposer_zero_randaos''"
| "reason_code REASON_FAILED_PROPOSER_RANDAO = ''failed_proposer_randao''"
| "reason_code REASON_PROPOSER_NO_EXTERNAL_RANDAOS = ''proposer_no_external_randaos''"
| "reason_code REASON_SYNC_CONTRIBUTION_NO_SYNC_MSG = ''sync_contribution_no_sync_msg''"
| "reason_code REASON_SYNC_CONTRIBUTION_FEW_PREPARES = ''sync_contribution_few_prepares''"
| "reason_code REASON_SYNC_CONTRIBUTION_ZERO_PREPARES = ''sync_contribution_zero_prepares''"
| "reason_code REASON_SYNC_CONTRIBUTION_FAILED_PREPARE = ''sync_contribution_failed_prepare''"
| "reason_code REASON_SYNC_CONTRIBUTION_NO_EXTERNAL_PREPARES = ''sync_contribution_no_external_prepares''"
| "reason_code REASON_NO_CONSENSUS = ''no_consensus''"
| "reason_code REASON_NO_LOCAL_VC_SIGNATURE = ''no_local_vc_signature''"
| "reason_code REASON_NO_PEER_SIGNATURES = ''no_peer_signatures''"
| "reason_code REASON_INSUFFICIENT_PEER_SIGNATURES = ''insufficient_peer_signatures''"
| "reason_code REASON_PAR_SIG_DB_INCONSISTENT_SYNC = ''par_sig_db_inconsistent_sync''"
| "reason_code REASON_BROADCAST_BN_ERROR = ''broadcast_bn_error''"
| "reason_code REASON_NOT_INCLUDED_ON_CHAIN = ''not_included_onchain''"
| "reason_code REASON_BUG_FETCH_ERROR = ''bug_fetch_error''"
| "reason_code REASON_BUG_PAR_SIG_DB_INCONSISTENT = ''bug_par_sig_db_inconsistent''"
| "reason_code REASON_BUG_PAR_SIG_DB_EXTERNAL = ''bug_par_sig_db_external''"
| "reason_code REASON_BUG_SIG_AGG = ''bug_sig_agg''"
| "reason_code REASON_BUG_AGGREGATION_ERROR = ''bug_aggregation_error''"
| "reason_code REASON_BUG_DUTY_DB_ERROR = ''bug_duty_db_error''"
| "reason_code REASON_BUG_PAR_SIG_DB_INTERNAL = ''bug_par_sig_db_internal''"

lemma reason_code_inj: "inj reason_code"
proof (rule injI)
  fix a b assume "reason_code a = reason_code b"
  then show "a = b" by (cases a; cases b) simp_all
qed

text \<open>An error with its chain of sources.\<close>

datatype step_error =
    Eth2ApiError
  | StringError string
  | OtherError string "step_error option"

fun is_eth2_api_error :: "step_error \<Rightarrow> bool" where
  "is_eth2_api_error Eth2ApiError = True"
| "is_eth2_api_error (StringError m) = False"
| "is_eth2_api_error (OtherError m None) = False"
| "is_eth2_api_error (OtherError m (Some e)) = is_eth2_api_error e"

section \<open>Events\<close>

record 'd event =
  ev_duty :: duty
  ev_step :: tracker_step
  ev_pubkey :: pubkey
  ev_step_err :: "step_error option"
  ev_par_sig :: "'d par_signed_data option"

definition send_pubkeys :: "duty \<Rightarrow> tracker_step \<Rightarrow> pubkey list \<Rightarrow> step_error option \<Rightarrow> 'd event list" where
  "send_pubkeys d st pubkeys err =
     map (\<lambda>pk. \<lparr>ev_duty = d, ev_step = st, ev_pubkey = pk, ev_step_err = err, ev_par_sig = None\<rparr>) pubkeys"

definition send_par_sig_set :: "hash_order \<Rightarrow> duty \<Rightarrow> tracker_step \<Rightarrow> 'd par_signed_set \<Rightarrow> step_error option \<Rightarrow> 'd event list" where
  "send_par_sig_set ord d st sigs err =
     map (\<lambda>(pk, ps). \<lparr>ev_duty = d, ev_step = st, ev_pubkey = pk, ev_step_err = err, ev_par_sig = Some ps\<rparr>) (hash_iter (ord 0) sigs)"

definition fetcher_fetched :: "duty \<Rightarrow> pubkey list \<Rightarrow> step_error option \<Rightarrow> 'd event list" where
  "fetcher_fetched d pubkeys err = send_pubkeys d Fetcher pubkeys err"

definition consensus_proposed :: "duty \<Rightarrow> pubkey list \<Rightarrow> step_error option \<Rightarrow> 'd event list" where
  "consensus_proposed d pubkeys err = send_pubkeys d Consensus pubkeys err"

definition duty_db_stored :: "duty \<Rightarrow> pubkey list \<Rightarrow> step_error option \<Rightarrow> 'd event list" where
  "duty_db_stored d pubkeys err = send_pubkeys d DutyDB pubkeys err"

definition sig_agg_aggregated :: "duty \<Rightarrow> pubkey list \<Rightarrow> step_error option \<Rightarrow> 'd event list" where
  "sig_agg_aggregated d pubkeys err = send_pubkeys d SigAgg pubkeys err"

definition agg_sig_db_stored :: "duty \<Rightarrow> pubkey list \<Rightarrow> step_error option \<Rightarrow> 'd event list" where
  "agg_sig_db_stored d pubkeys err = send_pubkeys d AggSigDB pubkeys err"

definition broadcaster_broadcast :: "duty \<Rightarrow> pubkey list \<Rightarrow> step_error option \<Rightarrow> 'd event list" where
  "broadcaster_broadcast d pubkeys err = send_pubkeys d Bcast pubkeys err"

definition par_sig_db_stored_internal :: "hash_order \<Rightarrow> duty \<Rightarrow> 'd par_signed_set \<Rightarrow> step_error option \<Rightarrow> 'd event list" where
  "par_sig_db_stored_internal ord d sigs err = send_par_sig_set ord d ParSigDBInternal sigs err"

definition par_sig_ex_broadcasted :: "hash_order \<Rightarrow> duty \<Rightarrow> 'd par_signed_set \<Rightarrow> step_error option \<Rightarrow> 'd event list" where
  "par_sig_ex_broadcasted ord d sigs err = send_par_sig_set ord d ParSigEx sigs err"

definition par_sig_db_stored_external :: "hash_order \<Rightarrow> duty \<Rightarrow> 'd par_signed_set \<Rightarrow> step_error option \<Rightarrow> 'd event list" where
  "par_sig_db_stored_external ord d sigs err = send_par_sig_set ord d ParSigDBExternal sigs err"

definition inclusion_checked :: "duty \<Rightarrow> pubkey \<Rightarrow> step_error option \<Rightarrow> 'd event" where
  "inclusion_checked d pk err = \<lparr>ev_duty = d, ev_step = ChainInclusion, ev_pubkey = pk, ev_step_err = err, ev_par_sig = None\<rparr>"

section \<open>Analysis of failures\<close>

type_synonym 'd par_sigs_by_msg = "(pubkey \<times> (nat list \<times> 'd par_signed_data list) list) list"

type_synonym 'd event_map = "(duty \<times> 'd event list) list"

definition msg_roots_consistent :: "'d par_sigs_by_msg \<Rightarrow> bool" where
  "msg_roots_consistent parsigs \<longleftrightarrow> list_all (\<lambda>(pk, roots). length roots \<le> 1) parsigs"

definition incl_supported :: "feature_set \<Rightarrow> duty_type list" where
  "incl_supported fs = Proposer # (if feature_enabled fs AttestationInclusion then [Attester, Aggregator] else [])"

definition last_step :: "duty_type \<Rightarrow> feature_set \<Rightarrow> tracker_step" where
  "last_step t fs = (if t \<in> set (incl_supported fs) then ChainInclusion else Bcast)"

definition expect_inconsistent_par_sigs :: "duty_type \<Rightarrow> bool" where
  "expect_inconsistent_par_sigs t \<longleftrightarrow> t \<in> {SyncMessage, SyncContribution}"

record duty_failure =
  df_step :: tracker_step
  df_reason :: reason
  df_err :: "step_error option"

record duty_failed_at =
  fa_failed :: bool
  fa_step :: tracker_step
  fa_err :: "step_error option"

definition STEPS :: "tracker_step list" where
  "STEPS = [ChainInclusion, Bcast, AggSigDB, SigAgg, ParSigDBExternal, ParSigEx, ParSigDBInternal, ValidatorAPI, DutyDB, Consensus, Fetcher]"

definition duty_failed_step :: "feature_set \<Rightarrow> 'd event list \<Rightarrow> duty_failed_at" where
  "duty_failed_step fs events =
     (if events = [] then \<lparr>fa_failed = True, fa_step = Zero, fa_err = None\<rparr>
      else
        let events_by_step = fold (\<lambda>e. entry_push (ev_step e) e) events []
        in case List.map_filter (\<lambda>s. map_option last (map_of events_by_step s)) STEPS of
             [] \<Rightarrow> \<lparr>fa_failed = True, fa_step = Zero, fa_err = None\<rparr>
           | l # _ \<Rightarrow>
               if ev_step l = last_step (d_type (ev_duty (hd events))) fs \<and> ev_step_err l = None
               then \<lparr>fa_failed = False, fa_step = Zero, fa_err = None\<rparr>
               else \<lparr>fa_failed = True, fa_step = ev_step l, fa_err = ev_step_err l\<rparr>)"

definition events_of :: "'d event_map \<Rightarrow> duty \<Rightarrow> 'd event list" where
  "events_of m d = (case map_of m d of None \<Rightarrow> [] | Some es \<Rightarrow> es)"

definition analyse_fetcher_failed_proposer :: "feature_set \<Rightarrow> duty \<Rightarrow> 'd event_map \<Rightarrow> step_error option \<Rightarrow> duty_failure" where
  "analyse_fetcher_failed_proposer fs d all_events fetch_err =
     (let randao = duty_failed_step fs (events_of all_events (new_duty (d_slot d) Randao))
      in \<lparr>df_step = Fetcher,
          df_reason =
            (if fa_failed randao then
               (case fa_step randao of
                  ParSigEx \<Rightarrow> REASON_PROPOSER_NO_EXTERNAL_RANDAOS
                | ParSigDBExternal \<Rightarrow> REASON_PROPOSER_INSUFFICIENT_RANDAOS
                | Zero \<Rightarrow> REASON_PROPOSER_ZERO_RANDAOS
                | _ \<Rightarrow> REASON_FAILED_PROPOSER_RANDAO)
             else REASON_BUG_FETCH_ERROR),
          df_err = fetch_err\<rparr>)"

definition analyse_fetcher_failed_aggregator :: "feature_set \<Rightarrow> duty \<Rightarrow> 'd event_map \<Rightarrow> step_error option \<Rightarrow> duty_failure option" where
  "analyse_fetcher_failed_aggregator fs d all_events fetch_err =
     (if fetch_err = None then None
      else
        let prep = duty_failed_step fs (events_of all_events (new_duty (d_slot d) PrepareAggregator));
            att = duty_failed_step fs (events_of all_events (new_duty (d_slot d) Attester))
        in Some \<lparr>df_step = Fetcher,
             df_reason =
               (if fa_failed prep then
                  (case fa_step prep of
                     ParSigEx \<Rightarrow> REASON_NO_AGGREGATOR_SELECTIONS
                   | ParSigDBExternal \<Rightarrow> REASON_INSUFFICIENT_AGGREGATOR_SELECTIONS
                   | Zero \<Rightarrow> REASON_ZERO_AGGREGATOR_SELECTIONS
                   | _ \<Rightarrow> REASON_FAILED_AGGREGATOR_SELECTION)
                else if fa_failed att \<and> fa_step att \<le> DutyDB then REASON_MISSING_AGGREGATOR_ATTESTATION
                else REASON_BUG_FETCH_ERROR),
             df_err = fetch_err\<rparr>)"

definition analyse_fetcher_failed_sync_contribution :: "feature_set \<Rightarrow> duty \<Rightarrow> 'd event_map \<Rightarrow> step_error option \<Rightarrow> duty_failure option" where
  "analyse_fetcher_failed_sync_contribution fs d all_events fetch_err =
     (if fetch_err = None then None
      else
        let prep = duty_failed_step fs (events_of all_events (new_duty (d_slot d) PrepareSyncContribution));
            sync = duty_failed_step fs (events_of all_events (new_duty (d_slot d) SyncMessage))
        in Some \<lparr>df_step = Fetcher,
             df_reason =
               (if fa_failed prep then
                  (case fa_step prep of
                     ParSigEx \<Rightarrow> REASON_SYNC_CONTRIBUTION_NO_EXTERNAL_PREPARES
                   | ParSigDBExternal \<Rightarrow> REASON_SYNC_CONTRIBUTION_FEW_PREPARES
                   | Zero \<Rightarrow> REASON_SYNC_CONTRIBUTION_ZERO_PREPARES
                   | _ \<Rightarrow> REASON_SYNC_CONTRIBUTION_FAILED_PREPARE)
                else if fa_failed sync \<and> fa_step sync \<le> AggSigDB then REASON_SYNC_CONTRIBUTION_NO_SYNC_MSG
                else REASON_BUG_FETCH_ERROR),
             df_err = fetch_err\<rparr>)"

definition analyse_fetcher_failed :: "feature_set \<Rightarrow> duty \<Rightarrow> 'd event_map \<Rightarrow> step_error option \<Rightarrow> duty_failure option" where
  "analyse_fetcher_failed fs d all_events fetch_err =
     (case d_type d of
        Proposer \<Rightarrow> Some (analyse_fetcher_failed_proposer fs d all_events fetch_err)
      | Aggregator \<Rightarrow> analyse_fetcher_failed_aggregator fs d all_events fetch_err
      | SyncContribution \<Rightarrow> analyse_fetcher_failed_sync_contribution fs d all_events fetch_err
      | _ \<Rightarrow> Some \<lparr>df_step = Fetcher,
             df_reason =
               (case fetch_err of
                  Some e \<Rightarrow> if is_eth2_api_error e then REASON_FETCH_BN_ERROR else REASON_BUG_FETCH_ERROR
                | None \<Rightarrow> REASON_BUG_FETCH_ERROR),
             df_err = fetch_err\<rparr>)"

definition analyse_duty_failed :: "feature_set \<Rightarrow> duty \<Rightarrow> 'd event_map \<Rightarrow> duty_failed_at \<Rightarrow> bool \<Rightarrow> duty_failure option" where
  "analyse_duty_failed fs d all_events failed_step msg_root_consistent =
     (if \<not> fa_failed failed_step then None
      else
        let st = fa_step failed_step; err = fa_err failed_step; failure = (\<lambda>st reason err. Some \<lparr>df_step = st, df_reason = reason, df_err = err\<rparr>)
        in case st of
             Fetcher \<Rightarrow> analyse_fetcher_failed fs d all_events err
           | Consensus \<Rightarrow> failure st (if err \<noteq> None then REASON_NO_CONSENSUS else REASON_UNKNOWN) err
           | DutyDB \<Rightarrow>
               if err \<noteq> None then failure st REASON_BUG_DUTY_DB_ERROR err
               else failure ValidatorAPI REASON_NO_LOCAL_VC_SIGNATURE err
           | ParSigDBInternal \<Rightarrow> failure st REASON_BUG_PAR_SIG_DB_INTERNAL err
           | ParSigEx \<Rightarrow> failure st (if err = None then REASON_NO_PEER_SIGNATURES else REASON_UNKNOWN) err
           | ParSigDBExternal \<Rightarrow>
               if err \<noteq> None then failure ParSigDBExternal REASON_BUG_PAR_SIG_DB_EXTERNAL err
               else if msg_root_consistent then failure st REASON_INSUFFICIENT_PEER_SIGNATURES err
               else if expect_inconsistent_par_sigs (d_type d) then failure st REASON_PAR_SIG_DB_INCONSISTENT_SYNC err
               else failure st REASON_BUG_PAR_SIG_DB_INCONSISTENT err
           | SigAgg \<Rightarrow> failure st (if err \<noteq> None then REASON_BUG_SIG_AGG else REASON_UNKNOWN) err
           | AggSigDB \<Rightarrow> failure st REASON_BUG_AGGREGATION_ERROR err
           | Bcast \<Rightarrow>
               if err = None then failure st REASON_UNKNOWN (Some (StringError ''bug: missing chain inclusion event''))
               else failure st REASON_BROADCAST_BN_ERROR err
           | ChainInclusion \<Rightarrow>
               if err = None then failure st REASON_UNKNOWN (Some (StringError ''bug: missing chain inclusion error''))
               else failure st REASON_NOT_INCLUDED_ON_CHAIN err
           | Zero \<Rightarrow> failure st REASON_UNKNOWN (Some (StringError ''no events for duty''))
           | ValidatorAPI \<Rightarrow> failure st REASON_UNKNOWN (Some (StringError ''duty failed at step validator_api''))
           | StepSentinel \<Rightarrow> failure st REASON_UNKNOWN (Some (StringError ''duty failed at step sentinel'')))"

section \<open>Analysis of signatures\<close>

definition extract_step ::
  "('d \<Rightarrow> 'e + nat list) \<Rightarrow> 'd event \<Rightarrow> (pubkey \<times> nat) list \<times> 'd par_sigs_by_msg \<Rightarrow> (pubkey \<times> nat) list \<times> 'd par_sigs_by_msg" where
  "extract_step root e acc =
     (case (acc, ev_par_sig e) of
        ((seen, resp), None) \<Rightarrow> (seen, resp)
      | ((seen, resp), Some par_sig) \<Rightarrow>
          let key = (ev_pubkey e, ps_share_idx par_sig)
          in if key \<in> set seen then (seen, resp)
             else (case root (ps_signed_data par_sig) of
                     Inl _ \<Rightarrow> (key # seen, resp)
                   | Inr r \<Rightarrow>
                       (key # seen, AList.update (ev_pubkey e)
                          (entry_push r par_sig (case map_of resp (ev_pubkey e) of None \<Rightarrow> [] | Some by_root \<Rightarrow> by_root)) resp)))"

definition extract_par_sigs :: "('d \<Rightarrow> 'e + nat list) \<Rightarrow> 'd event list \<Rightarrow> 'd par_sigs_by_msg" where
  "extract_par_sigs root events = snd (fold (extract_step root) events ([], []))"

definition scheduled :: "'d event_map \<Rightarrow> duty \<Rightarrow> pubkey \<Rightarrow> duty_type \<Rightarrow> bool" where
  "scheduled all_events d pk t \<longleftrightarrow>
     (case map_of all_events (new_duty (d_slot d) t) of
        None \<Rightarrow> False
      | Some es \<Rightarrow> list_ex (\<lambda>e. ev_step e = Fetcher \<and> ev_pubkey e = pk) es)"

definition is_par_sig_event_expected :: "duty \<Rightarrow> pubkey \<Rightarrow> 'd event_map \<Rightarrow> bool" where
  "is_par_sig_event_expected d pk all_events \<longleftrightarrow>
     (if d_type d \<in> {Exit, BuilderRegistration} then True
      else case d_type d of
        Randao \<Rightarrow> scheduled all_events d pk Proposer \<or> scheduled all_events d pk BuilderProposer
      | PrepareAggregator \<Rightarrow> scheduled all_events d pk Attester
      | PrepareSyncContribution \<Rightarrow> scheduled all_events d pk SyncContribution
      | SyncMessage \<Rightarrow> scheduled all_events d pk SyncContribution
      | t \<Rightarrow> scheduled all_events d pk t)"

record participation_result =
  pr_participated :: "(nat \<times> nat) list"
  pr_unexpected :: "(nat \<times> nat) list"
  pr_validators_per_duty :: nat

definition count_up :: "nat \<Rightarrow> (nat \<times> nat) list \<Rightarrow> (nat \<times> nat) list" where
  "count_up k m = AList.update k (saturating_add_u64 (case map_of m k of None \<Rightarrow> 0 | Some n \<Rightarrow> n) 1) m"

record participation_loop =
  pl_participated :: "(nat \<times> nat) list"
  pl_unexpected :: "(nat \<times> nat) list"
  pl_dedup :: "(nat \<times> pubkey) list"
  pl_pubkeys :: "pubkey list"

definition participation_step :: "duty \<Rightarrow> 'd event_map \<Rightarrow> 'd event \<Rightarrow> participation_loop \<Rightarrow> participation_loop" where
  "participation_step d all_events e acc =
     (let acc = acc\<lparr>pl_pubkeys := List.insert (ev_pubkey e) (pl_pubkeys acc)\<rparr>
      in if ev_step e \<notin> {ParSigDBExternal, ParSigDBInternal} then acc
         else case ev_par_sig e of
           None \<Rightarrow> acc
         | Some par_sig \<Rightarrow>
             let share_idx = ps_share_idx par_sig
             in if \<not> is_par_sig_event_expected d (ev_pubkey e) all_events
                then acc\<lparr>pl_unexpected := count_up share_idx (pl_unexpected acc)\<rparr>
                else if (share_idx, ev_pubkey e) \<in> set (pl_dedup acc) then acc
                else acc\<lparr>pl_dedup := (share_idx, ev_pubkey e) # pl_dedup acc,
                       pl_participated := count_up share_idx (pl_participated acc)\<rparr>)"

definition analyse_participation :: "duty \<Rightarrow> 'd event_map \<Rightarrow> participation_result" where
  "analyse_participation d all_events =
     (case map_of all_events d of
        None \<Rightarrow> \<lparr>pr_participated = [], pr_unexpected = [], pr_validators_per_duty = 0\<rparr>
      | Some events \<Rightarrow>
          let acc = fold (participation_step d all_events) events
                \<lparr>pl_participated = [], pl_unexpected = [], pl_dedup = [], pl_pubkeys = []\<rparr>
          in \<lparr>pr_participated = pl_participated acc, pr_unexpected = pl_unexpected acc,
              pr_validators_per_duty = length (pl_pubkeys acc)\<rparr>)"

section \<open>The loop\<close>

record unsupported_ignorer =
  logged_no_aggregator :: bool
  logged_no_contribution :: bool
  aggregation_supported :: bool
  contribution_supported :: bool

definition ignorer_new :: unsupported_ignorer where
  "ignorer_new = \<lparr>logged_no_aggregator = False, logged_no_contribution = False, aggregation_supported = False, contribution_supported = False\<rparr>"

definition ignorer_check :: "duty \<Rightarrow> duty_failure option \<Rightarrow> unsupported_ignorer \<Rightarrow> bool \<times> unsupported_ignorer" where
  "ignorer_check d outcome ig =
     (case outcome of
        None \<Rightarrow>
          (False, ig\<lparr>aggregation_supported := aggregation_supported ig \<or> d_type d = Aggregator,
                     contribution_supported := contribution_supported ig \<or> d_type d = SyncContribution\<rparr>)
      | Some f \<Rightarrow>
          if \<not> aggregation_supported ig \<and> d_type d = Aggregator \<and> df_step f = Fetcher
             \<and> df_reason f = REASON_ZERO_AGGREGATOR_SELECTIONS
          then (True, ig\<lparr>logged_no_aggregator := True\<rparr>)
          else if \<not> contribution_supported ig \<and> d_type d = SyncContribution \<and> df_step f = Fetcher
             \<and> df_reason f = REASON_SYNC_CONTRIBUTION_ZERO_PREPARES
          then (True, ig\<lparr>logged_no_contribution := True\<rparr>)
          else (False, ig))"

record 'd tracker =
  tk_from_slot :: nat
  tk_ignorer :: unsupported_ignorer
  tk_features :: feature_set
  tk_events :: "'d event_map"

definition tracker_start :: "nat \<Rightarrow> feature_set \<Rightarrow> 'd tracker" where
  "tracker_start from_slot fs = \<lparr>tk_from_slot = from_slot, tk_ignorer = ignorer_new, tk_features = fs, tk_events = []\<rparr>"

datatype 'd tracker_action =
    ReportParSigs duty "'d par_sigs_by_msg"
  | ReportDuty duty bool duty_failure
  | ReportParticipation duty bool participation_result
  | DeleterAdd duty
  | AnalyserAdd duty

definition tracker_analyse :: "('d \<Rightarrow> 'e + nat list) \<Rightarrow> duty \<Rightarrow> 'd tracker \<Rightarrow> 'd tracker_action list \<times> 'd tracker" where
  "tracker_analyse root d t =
     (let duty_events = events_of (tk_events t) d;
          parsigs = extract_par_sigs root duty_events;
          failed_step = duty_failed_step (tk_features t) duty_events;
          outcome = analyse_duty_failed (tk_features t) d (tk_events t) failed_step (msg_roots_consistent parsigs)
      in case ignorer_check d outcome (tk_ignorer t) of
           (True, ig) \<Rightarrow> ([ReportParSigs d parsigs], t\<lparr>tk_ignorer := ig\<rparr>)
         | (False, ig) \<Rightarrow>
             ([ReportParSigs d parsigs,
               ReportDuty d (outcome \<noteq> None)
                 (case outcome of Some f \<Rightarrow> f | None \<Rightarrow> \<lparr>df_step = fa_step failed_step, df_reason = REASON_UNKNOWN, df_err = None\<rparr>),
               ReportParticipation d (outcome \<noteq> None) (analyse_participation d (tk_events t))], t\<lparr>tk_ignorer := ig\<rparr>))"

text \<open>One turn of the loop: a duty to analyse, a duty to delete, or an event with the answers of the
  two deadline services.\<close>

datatype 'd tracker_input =
    Analyse duty
  | Delete duty
  | Input "'d event" add_outcome add_outcome

fun tracker_turn :: "('d \<Rightarrow> 'e + nat list) \<Rightarrow> 'd tracker_input \<Rightarrow> 'd tracker \<Rightarrow> 'd tracker_action list \<times> 'd tracker" where
  "tracker_turn root (Analyse d) t = tracker_analyse root d t"
| "tracker_turn root (Delete d) t = ([], t\<lparr>tk_events := AList.delete d (tk_events t)\<rparr>)"
| "tracker_turn root (Input e deleter analyser) t =
     (if d_slot (ev_duty e) < tk_from_slot t then ([], t)
      else if deleter \<noteq> Scheduled then ([DeleterAdd (ev_duty e)], t)
      else if analyser \<noteq> Scheduled then ([DeleterAdd (ev_duty e), AnalyserAdd (ev_duty e)], t)
      else ([DeleterAdd (ev_duty e), AnalyserAdd (ev_duty e)], t\<lparr>tk_events := entry_push (ev_duty e) e (tk_events t)\<rparr>))"

definition tracker_run :: "('d \<Rightarrow> 'e + nat list) \<Rightarrow> 'd tracker_input list \<Rightarrow> 'd tracker \<Rightarrow> 'd tracker" where
  "tracker_run root = fold (\<lambda>i t. snd (tracker_turn root i t))"

section \<open>The step where a duty got stuck\<close>

lemma steps_decreasing: "sorted_wrt (>) STEPS"
  by (simp add: STEPS_def less_tracker_step_def)

lemma steps_all: "s \<in> set STEPS \<longleftrightarrow> s \<noteq> Zero \<and> s \<noteq> StepSentinel"
  by (cases s) (simp_all add: STEPS_def)

text \<open>No event of the handle lies outside the steps that the analysis scans.\<close>

lemmas handle_defs = fetcher_fetched_def consensus_proposed_def duty_db_stored_def sig_agg_aggregated_def agg_sig_db_stored_def
  broadcaster_broadcast_def par_sig_db_stored_internal_def par_sig_ex_broadcasted_def par_sig_db_stored_external_def
  inclusion_checked_def send_pubkeys_def send_par_sig_set_def

lemma handle_steps:
  assumes "e \<in> set (fetcher_fetched d pks err @ consensus_proposed d pks err @ duty_db_stored d pks err @ sig_agg_aggregated d pks err
      @ agg_sig_db_stored d pks err @ broadcaster_broadcast d pks err @ par_sig_db_stored_internal ord d sigs err
      @ par_sig_ex_broadcasted ord d sigs err @ par_sig_db_stored_external ord d sigs err @ [inclusion_checked d pk err])"
  shows "ev_step e \<in> set STEPS \<and> ev_duty e = d \<and> ev_step_err e = err"
  using assms by (auto simp: handle_defs STEPS_def)

lemma map_filter_hd:
  assumes "sorted_wrt (>) (xs :: tracker_step list)" "m \<in> set xs" "f m = Some y" "\<And>x. f x \<noteq> None \<Longrightarrow> x \<le> m"
  shows "\<exists>ys. List.map_filter f xs = y # ys"
  using assms
proof (induction xs)
  case (Cons x xs)
  show ?case
  proof (cases "x = m")
    case True
    then show ?thesis using Cons.prems(3) by (simp add: map_filter_simps)
  next
    case False
    then have "m < x" using Cons.prems by auto
    then have "f x = None" using Cons.prems(4) [of x] by (cases "f x") auto
    then show ?thesis using False Cons by (simp add: map_filter_simps)
  qed
qed simp

lemma duty_failed_step_eq:
  assumes "events \<noteq> []" "\<forall>e \<in> set events. ev_step e \<noteq> Zero \<and> ev_step e \<noteq> StepSentinel"
    and m: "m = Max (ev_step ` set events)" and l: "l = last (filter (\<lambda>e. ev_step e = m) events)"
  shows "duty_failed_step fs events =
    (if m = last_step (d_type (ev_duty (hd events))) fs \<and> ev_step_err l = None
     then \<lparr>fa_failed = False, fa_step = Zero, fa_err = None\<rparr>
     else \<lparr>fa_failed = True, fa_step = m, fa_err = ev_step_err l\<rparr>)"
proof -
  let ?f = "\<lambda>s. map_option last (map_of (fold (\<lambda>e. entry_push (ev_step e) e) events []) s)"
  have f: "?f s = (if filter (\<lambda>e. ev_step e = s) events = [] then None else Some (last (filter (\<lambda>e. ev_step e = s) events)))" for s
    by (simp add: map_of_groups)
  have mem: "m \<in> ev_step ` set events" unfolding m using assms(1) by (intro Max_in) auto
  then have ne: "filter (\<lambda>e. ev_step e = m) events \<noteq> []" by (auto simp: filter_empty_conv)
  have "\<exists>ys. List.map_filter ?f STEPS = l # ys"
  proof (rule map_filter_hd [OF steps_decreasing])
    show "m \<in> set STEPS" using mem assms(2) by (auto simp: steps_all)
    show "?f m = Some l" using ne unfolding f l by simp
    show "x \<le> m" if "?f x \<noteq> None" for x
      using that unfolding f m by (intro Max_ge) (auto simp: filter_empty_conv split: if_splits)
  qed
  then obtain ys where ys: "List.map_filter ?f STEPS = l # ys" by blast
  have "ev_step l = m" using last_in_set [OF ne] by (simp add: l)
  then show ?thesis using assms(1) unfolding duty_failed_step_def by (simp add: ys)
qed

text \<open>The events that the loop has recorded for a duty: those accepted by both services for a slot that
  is tracked, since the duty was last deleted.\<close>

definition recorded :: "nat \<Rightarrow> duty \<Rightarrow> 'd tracker_input list \<Rightarrow> 'd event list" where
  "recorded from_slot d inputs =
     fold (\<lambda>i es. case i of
         Analyse _ \<Rightarrow> es
       | Delete d' \<Rightarrow> if d' = d then [] else es
       | Input e deleter analyser \<Rightarrow>
           if ev_duty e = d \<and> from_slot \<le> d_slot d \<and> deleter = Scheduled \<and> analyser = Scheduled then es @ [e] else es) inputs []"

lemma tracker_analyse_state: "tk_events (snd (tracker_analyse root d t)) = tk_events t"
  "tk_features (snd (tracker_analyse root d t)) = tk_features t" "tk_from_slot (snd (tracker_analyse root d t)) = tk_from_slot t"
  by (simp_all add: tracker_analyse_def Let_def split: prod.split bool.split)

lemma tracker_run_snoc: "tracker_run root (is @ [i]) t = snd (tracker_turn root i (tracker_run root is t))"
  by (simp add: tracker_run_def)

lemma tracker_run_events:
  "events_of (tk_events (tracker_run root inputs (tracker_start from_slot fs))) d = recorded from_slot d inputs
   \<and> tk_features (tracker_run root inputs (tracker_start from_slot fs)) = fs
   \<and> tk_from_slot (tracker_run root inputs (tracker_start from_slot fs)) = from_slot"
proof (induction inputs rule: rev_induct)
  case Nil
  then show ?case by (simp add: tracker_run_def tracker_start_def recorded_def events_of_def)
next
  case (snoc i inputs)
  then show ?case
    by (cases i) (auto simp: tracker_run_snoc tracker_analyse_state recorded_def events_of_def delete_conv' map_of_entry_push
        split: option.splits)
qed

lemma recorded_duty: "\<forall>e \<in> set (recorded from_slot d inputs). ev_duty e = d"
  by (induction inputs rule: rev_induct) (auto simp: recorded_def split: tracker_input.splits if_splits)

lemma analyse_outcome:
  assumes "d_type d \<notin> {Aggregator, SyncContribution}"
  shows "(analyse_duty_failed fs d all_events fa consistent = None) = (\<not> fa_failed fa)"
    "analyse_duty_failed fs d all_events fa consistent = Some f \<Longrightarrow>
       df_step f = (if fa_step fa = DutyDB \<and> fa_err fa = None then ValidatorAPI else fa_step fa)"
    "fst (ignorer_check d (analyse_duty_failed fs d all_events fa consistent) ig) = False"
  using assms
  by (auto simp: analyse_duty_failed_def analyse_fetcher_failed_def analyse_fetcher_failed_proposer_def ignorer_check_def Let_def
      split: tracker_step.splits if_splits duty_type.splits option.splits)

text \<open>
  C11. What the tracker reports of a duty with its own data is the step where it got stuck. Take the
  events recorded for the duty over any run, the furthest step among them and the last event of that
  step. The duty is reported as successful exactly when that is the final step of its type and the
  event carries no error; otherwise the furthest step is reported, or the validator client when the
  data was stored and nothing followed.
\<close>

theorem tracker_reports_stuck_step:
  fixes inputs :: "'d tracker_input list"
  assumes "recorded from_slot d inputs \<noteq> []" "\<forall>e \<in> set (recorded from_slot d inputs). ev_step e \<notin> {Zero, StepSentinel}"
    "d_type d \<notin> {Aggregator, SyncContribution}"
  shows "let es = recorded from_slot d inputs; m = Max (ev_step ` set es); err = ev_step_err (last (filter (\<lambda>e. ev_step e = m) es));
      failed = (m \<noteq> last_step (d_type d) fs \<or> err \<noteq> None)
    in \<exists>sigs result part. fst (tracker_turn root (Analyse d) (tracker_run root inputs (tracker_start from_slot fs)))
          = [ReportParSigs d sigs, ReportDuty d failed result, ReportParticipation d failed part]
        \<and> df_step result = (if \<not> failed then Zero else if m = DutyDB \<and> err = None then ValidatorAPI else m)"
proof -
  define t where "t = tracker_run root inputs (tracker_start from_slot fs)"
  define es where "es = recorded from_slot d inputs"
  define m where "m = Max (ev_step ` set es)"
  define l where "l = last (filter (\<lambda>e. ev_step e = m) es)"
  define consistent where "consistent = msg_roots_consistent (extract_par_sigs root es)"
  have t: "events_of (tk_events t) d = es" "tk_features t = fs" using tracker_run_events [of root inputs from_slot fs d] by (simp_all add: t_def es_def)
  have "ev_duty (hd es) = d" using recorded_duty [of from_slot d inputs] assms(1) by (simp add: es_def)
  then have fa: "duty_failed_step fs es =
      (if m = last_step (d_type d) fs \<and> ev_step_err l = None then \<lparr>fa_failed = False, fa_step = Zero, fa_err = None\<rparr>
       else \<lparr>fa_failed = True, fa_step = m, fa_err = ev_step_err l\<rparr>)"
    using duty_failed_step_eq [OF _ _ m_def l_def] assms(1,2) by (simp add: es_def)
  let ?out = "analyse_duty_failed fs d (tk_events t) (duty_failed_step fs es) consistent"
  note outcome = analyse_outcome [OF assms(3), of fs "tk_events t" "duty_failed_step fs es" consistent]
  obtain ig where ig: "ignorer_check d ?out (tk_ignorer t) = (False, ig)"
    using outcome(3) [of "tk_ignorer t"] by (metis prod.collapse)
  have "tracker_turn root (Analyse d) t =
      ([ReportParSigs d (extract_par_sigs root es),
        ReportDuty d (?out \<noteq> None) (case ?out of Some f \<Rightarrow> f | None \<Rightarrow> \<lparr>df_step = fa_step (duty_failed_step fs es), df_reason = REASON_UNKNOWN, df_err = None\<rparr>),
        ReportParticipation d (?out \<noteq> None) (analyse_participation d (tk_events t))], t\<lparr>tk_ignorer := ig\<rparr>)"
    using ig by (simp add: tracker_analyse_def Let_def t consistent_def)
  moreover have "(?out \<noteq> None) = (m \<noteq> last_step (d_type d) fs \<or> ev_step_err l \<noteq> None)" using outcome(1) fa by auto
  moreover have "df_step (case ?out of Some f \<Rightarrow> f | None \<Rightarrow> \<lparr>df_step = fa_step (duty_failed_step fs es), df_reason = REASON_UNKNOWN, df_err = None\<rparr>)
      = (if \<not> (m \<noteq> last_step (d_type d) fs \<or> ev_step_err l \<noteq> None) then Zero else if m = DutyDB \<and> ev_step_err l = None then ValidatorAPI else m)"
    using outcome(1,2) fa by (cases ?out) auto
  ultimately show ?thesis
    unfolding Let_def t_def [symmetric] es_def [symmetric] m_def [symmetric] l_def [symmetric] by auto
qed

definition sample_event :: "tracker_step \<Rightarrow> nat \<Rightarrow> nat list event" where
  "sample_event st i = \<lparr>ev_duty = new_duty 5 Attester, ev_step = st, ev_pubkey = [7], ev_step_err = None,
     ev_par_sig = (if i = 0 then None else Some \<lparr>ps_signed_data = [1], ps_share_idx = i\<rparr>)\<rparr>"

definition stuck_inputs :: "nat list tracker_input list" where
  "stuck_inputs = [Input (sample_event Fetcher 0) Scheduled Scheduled, Input (sample_event DutyDB 0) Scheduled Scheduled]"

definition sample_tracker_root :: "nat list \<Rightarrow> unit + nat list" where
  "sample_tracker_root d = Inr d"

theorem tracker_reports_stuck_step_witness:
  "\<exists>sigs result part. fst (tracker_turn sample_tracker_root (Analyse (new_duty 5 Attester))
        (tracker_run sample_tracker_root stuck_inputs (tracker_start 1 \<lparr>fs_state = [], fs_min_status = Stable\<rparr>)))
      = [ReportParSigs (new_duty 5 Attester) sigs, ReportDuty (new_duty 5 Attester) True result,
         ReportParticipation (new_duty 5 Attester) True part]
    \<and> df_step result = ValidatorAPI"
proof -
  have es: "recorded 1 (new_duty 5 Attester) stuck_inputs = [sample_event Fetcher 0, sample_event DutyDB 0]" by code_simp
  have mx: "Max (ev_step ` set [sample_event Fetcher 0, sample_event DutyDB 0]) = DutyDB"
    by (simp add: sample_event_def max_def less_eq_tracker_step_def)
  have err: "ev_step_err (last (filter (\<lambda>e. ev_step e = DutyDB) [sample_event Fetcher 0, sample_event DutyDB 0])) = None"
    by (simp add: sample_event_def)
  have fin: "(DutyDB \<noteq> last_step (d_type (new_duty 5 Attester)) \<lparr>fs_state = [], fs_min_status = Stable\<rparr>) = True"
    by (simp add: last_step_def)
  have steps: "recorded 1 (new_duty 5 Attester) stuck_inputs \<noteq> []"
    "\<forall>e \<in> set (recorded 1 (new_duty 5 Attester) stuck_inputs). ev_step e \<notin> {Zero, StepSentinel}"
    "d_type (new_duty 5 Attester) \<notin> {Aggregator, SyncContribution}"
    unfolding es by (simp_all add: sample_event_def new_duty_def)
  show ?thesis
    using tracker_reports_stuck_step [OF steps, of "\<lparr>fs_state = [], fs_min_status = Stable\<rparr>" sample_tracker_root]
    unfolding es Let_def mx err fin by simp
qed

section \<open>Participation\<close>

definition counted :: "(nat \<times> nat) list \<Rightarrow> nat \<Rightarrow> nat" where
  "counted m i = (case map_of m i of None \<Rightarrow> 0 | Some n \<Rightarrow> n)"

lemma counted_count_up: "counted m i < u64_max \<Longrightarrow> counted (count_up k m) i = counted m i + (if i = k then 1 else 0)"
  by (auto simp: counted_def count_up_def update_conv' saturating_add_u64_def)

text \<open>Events of the partial signature database that carry a signature of a share.\<close>

definition signed_share :: "'d event \<Rightarrow> nat option" where
  "signed_share e = (if ev_step e \<in> {ParSigDBExternal, ParSigDBInternal} then map_option ps_share_idx (ev_par_sig e) else None)"

definition participants :: "duty \<Rightarrow> 'd event_map \<Rightarrow> 'd event list \<Rightarrow> nat \<Rightarrow> pubkey set" where
  "participants d all_events es i = {pk. is_par_sig_event_expected d pk all_events \<and> (\<exists>e \<in> set es. signed_share e = Some i \<and> ev_pubkey e = pk)}"

definition strays :: "duty \<Rightarrow> 'd event_map \<Rightarrow> 'd event list \<Rightarrow> nat \<Rightarrow> nat" where
  "strays d all_events es i = length (filter (\<lambda>e. signed_share e = Some i \<and> \<not> is_par_sig_event_expected d (ev_pubkey e) all_events) es)"

definition participation_inv :: "duty \<Rightarrow> 'd event_map \<Rightarrow> 'd event list \<Rightarrow> participation_loop \<Rightarrow> bool" where
  "participation_inv d all_events es acc \<longleftrightarrow>
     distinct (pl_pubkeys acc) \<and> set (pl_pubkeys acc) = ev_pubkey ` set es
     \<and> set (pl_dedup acc) = {(i, pk). pk \<in> participants d all_events es i}
     \<and> (\<forall>i. counted (pl_participated acc) i = card (participants d all_events es i))
     \<and> (\<forall>i. counted (pl_unexpected acc) i = strays d all_events es i)"

lemma participants_subset: "participants d all_events es i \<subseteq> ev_pubkey ` set es"
  by (auto simp: participants_def)

lemma participants_bound: "card (participants d all_events es i) \<le> length es"
proof -
  have "card (participants d all_events es i) \<le> card (ev_pubkey ` set es)"
    by (rule card_mono [OF _ participants_subset]) simp
  also have "\<dots> \<le> length es" using card_image_le [of "set es" ev_pubkey] card_length [of es] by simp
  finally show ?thesis .
qed

lemma participants_snoc:
  "participants d all_events (es @ [e]) i =
     (if signed_share e = Some i \<and> is_par_sig_event_expected d (ev_pubkey e) all_events
      then insert (ev_pubkey e) (participants d all_events es i) else participants d all_events es i)"
  by (auto simp: participants_def)

lemma finite_participants [simp]: "finite (participants d all_events es i)"
  by (rule finite_subset [OF participants_subset]) simp

lemma strays_bound: "strays d all_events es i \<le> length es"
  by (simp add: strays_def)

lemma strays_snoc:
  "strays d all_events (es @ [e]) i = strays d all_events es i
     + (if signed_share e = Some i \<and> \<not> is_par_sig_event_expected d (ev_pubkey e) all_events then 1 else 0)"
  by (simp add: strays_def)

lemma participation_step_inv:
  assumes "participation_inv d all_events es acc" "length es < u64_max"
  shows "participation_inv d all_events (es @ [e]) (participation_step d all_events e acc)"
proof -
  have lim: "counted (pl_participated acc) i < u64_max" "counted (pl_unexpected acc) i < u64_max" for i
    using assms participants_bound [of d all_events es i] strays_bound [of d all_events es i]
    by (simp_all add: participation_inv_def)
  have pubkeys: "distinct (List.insert (ev_pubkey e) (pl_pubkeys acc))"
    "set (List.insert (ev_pubkey e) (pl_pubkeys acc)) = ev_pubkey ` set (es @ [e])"
    using assms(1) by (auto simp: participation_inv_def)
  show ?thesis
  proof (cases "signed_share e")
    case None
    then have "participation_step d all_events e acc = acc\<lparr>pl_pubkeys := List.insert (ev_pubkey e) (pl_pubkeys acc)\<rparr>"
      by (auto simp: participation_step_def signed_share_def split: if_splits)
    then show ?thesis using assms(1) pubkeys None by (simp add: participation_inv_def participants_snoc strays_snoc)
  next
    case (Some i)
    then have step: "participation_step d all_events e acc =
        (let acc = acc\<lparr>pl_pubkeys := List.insert (ev_pubkey e) (pl_pubkeys acc)\<rparr>
         in if \<not> is_par_sig_event_expected d (ev_pubkey e) all_events then acc\<lparr>pl_unexpected := count_up i (pl_unexpected acc)\<rparr>
            else if (i, ev_pubkey e) \<in> set (pl_dedup acc) then acc
            else acc\<lparr>pl_dedup := (i, ev_pubkey e) # pl_dedup acc, pl_participated := count_up i (pl_participated acc)\<rparr>)"
      by (auto simp: participation_step_def signed_share_def Let_def split: if_splits)
    show ?thesis
      using assms(1) pubkeys Some lim
      by (auto simp: step Let_def participation_inv_def participants_snoc strays_snoc counted_count_up card_insert_if insert_absorb split: if_splits)
  qed
qed

lemma participation_loop_inv:
  assumes "length es \<le> u64_max"
  shows "participation_inv d all_events es (fold (participation_step d all_events) es
    \<lparr>pl_participated = [], pl_unexpected = [], pl_dedup = [], pl_pubkeys = []\<rparr>)"
  using assms
proof (induction es rule: rev_induct)
  case Nil
  then show ?case by (simp add: participation_inv_def participants_def strays_def counted_def)
next
  case (snoc e es)
  then show ?case using participation_step_inv [of d all_events es _ e] by simp
qed

text \<open>
  C14. The participation counts are what they claim to be. For every share, the count is the number
  of distinct validators for which a signature of that share was stored and expected, however often
  it was reported; it never exceeds the number of validators of the duty, which is what a peer is
  expected to sign. Signatures that nobody expected are counted one by one.
\<close>

theorem participation_counts:
  assumes "map_of all_events d = Some es" "length es \<le> u64_max"
  shows "let r = analyse_participation d all_events
    in (\<forall>i. counted (pr_participated r) i = card (participants d all_events es i) \<and> counted (pr_participated r) i \<le> pr_validators_per_duty r)
      \<and> (\<forall>i. counted (pr_unexpected r) i = strays d all_events es i)
      \<and> pr_validators_per_duty r = card (ev_pubkey ` set es)"
proof -
  define acc where "acc = fold (participation_step d all_events) es \<lparr>pl_participated = [], pl_unexpected = [], pl_dedup = [], pl_pubkeys = []\<rparr>"
  have inv: "participation_inv d all_events es acc" unfolding acc_def by (rule participation_loop_inv [OF assms(2)])
  have n: "length (pl_pubkeys acc) = card (ev_pubkey ` set es)"
    using inv distinct_card [of "pl_pubkeys acc"] by (simp add: participation_inv_def)
  have "card (participants d all_events es i) \<le> card (ev_pubkey ` set es)" for i
    by (rule card_mono [OF _ participants_subset]) simp
  then show ?thesis
    using assms(1) inv n by (simp add: analyse_participation_def participation_inv_def Let_def flip: acc_def)
qed

definition sample_events :: "nat list event list" where
  "sample_events = [sample_event Fetcher 0, sample_event ParSigDBInternal 1, sample_event ParSigDBExternal 2, sample_event ParSigDBExternal 2]"

theorem participation_counts_witness:
  "let r = analyse_participation (new_duty 5 Attester) [(new_duty 5 Attester, sample_events)]
   in counted (pr_participated r) 2 = 1 \<and> counted (pr_participated r) 2 \<le> pr_validators_per_duty r"
proof -
  have one: "participants (new_duty 5 Attester) [(new_duty 5 Attester, sample_events)] sample_events 2 = {[7]}"
    by (auto simp: participants_def signed_share_def sample_events_def sample_event_def is_par_sig_event_expected_def scheduled_def new_duty_def)
  have len: "length sample_events \<le> u64_max" by (simp add: sample_events_def u64_max_def)
  have "map_of [(new_duty 5 Attester, sample_events)] (new_duty 5 Attester) = Some sample_events" by simp
  from participation_counts [OF this len] show ?thesis
    unfolding Let_def by (elim conjE allE [where x = 2]) (simp add: one)
qed

end
