(* ===== verification/Consensus_Msg.thy ===== *)
theory Consensus_Msg
  imports Qbft_Core Deadline
begin

text \<open>
  The service around the QBFT core: the signed wire messages (crates/consensus/src/qbft/msg.rs), the
  admission of messages from peers (component.rs), the values that travel beside their hashes and the
  broadcast of own messages (transport.rs), and the choice of the leader and the handling of a decision
  (definition.rs). The protobuf codec, the hash of its bytes and the secp256k1 signatures are fields of a
  record that is an argument. Channels are queues; which branch of a race between a send and a
  cancellation is taken is an argument, and a handler takes effect at the moment its send completes.
\<close>

section \<open>Wire messages\<close>

text \<open>A 32-byte hash, with the null hash as the null value of the core.\<close>

datatype hash_root = HashRoot (hash_bytes_of: "nat list")

instantiation hash_root :: zero
begin

definition zero_hash_root :: hash_root where
  "zero_hash_root = HashRoot (replicate 32 0)"

instance ..

end

record wire_any =
  wa_type_url :: string
  wa_value :: "nat list"

record pb_qbft_msg =
  qm_type :: int
  qm_duty :: "pb_duty option"
  qm_peer_idx :: int
  qm_round :: int
  qm_prepared_round :: int
  qm_signature :: "nat list"
  qm_value_hash :: "nat list"
  qm_prepared_value_hash :: "nat list"

record pb_consensus_msg =
  cm_msg :: "pb_qbft_msg option"
  cm_justification :: "pb_qbft_msg list"
  cm_values :: "wire_any list"

type_synonym value_map = "(hash_root \<times> wire_any) list"

datatype msg_error =
    ValueHashNotFound
  | PreparedValueHashNotFound
  | MsgValueNotFound
  | CannotHashAnyProto
  | MarshalProto
  | HashProto
  | EmptySignature
  | RecoverPubkey
  | SignError

text \<open>What the packages provide: encoding and hashing of a message and of the two kinds of values, their
  type urls and decoders, signing and the recovery of the signer.\<close>

record ('u, 'p, 'sk, 'pk) codec =
  hash_msg :: "pb_qbft_msg \<Rightarrow> msg_error + hash_root"
  hash_unsigned :: "'u \<Rightarrow> msg_error + hash_root"
  hash_priority :: "'p \<Rightarrow> msg_error + hash_root"
  hash_raw :: "nat list \<Rightarrow> msg_error + hash_root"
  unsigned_type_url :: string
  priority_type_url :: string
  decode_unsigned :: "nat list \<Rightarrow> 'u option"
  decode_priority :: "nat list \<Rightarrow> 'p option"
  k1_sign :: "'sk \<Rightarrow> hash_root \<Rightarrow> nat list option"
  k1_recover :: "hash_root \<Rightarrow> nat list \<Rightarrow> 'pk option"

datatype wrapped = Wrapped
  (w_msg: pb_qbft_msg)
  (w_value_hash: hash_root)
  (w_prepared_value_hash: hash_root)
  (w_values: value_map)
  (w_justification_protos: "pb_qbft_msg list")
  (w_justification: "wrapped list")

definition to_hash32 :: "nat list \<Rightarrow> hash_root option" where
  "to_hash32 bs = (if length bs \<noteq> 32 \<or> bs = replicate 32 0 then None else Some (HashRoot bs))"

definition msg_value_hash :: "pb_qbft_msg \<Rightarrow> value_map \<Rightarrow> msg_error + hash_root" where
  "msg_value_hash m values =
     (case to_hash32 (qm_value_hash m) of
        None \<Rightarrow> Inr 0
      | Some h \<Rightarrow> if map_of values h \<noteq> None then Inr h else Inl ValueHashNotFound)"

definition msg_prepared_value_hash :: "pb_qbft_msg \<Rightarrow> value_map \<Rightarrow> msg_error + hash_root" where
  "msg_prepared_value_hash m values =
     (case to_hash32 (qm_prepared_value_hash m) of
        None \<Rightarrow> Inr 0
      | Some h \<Rightarrow> if map_of values h \<noteq> None then Inr h else Inl PreparedValueHashNotFound)"

text \<open>The justifications are wrapped by the same function with no justifications of their own.\<close>

definition wrap_with :: "pb_qbft_msg \<Rightarrow> pb_qbft_msg list \<Rightarrow> value_map \<Rightarrow> (msg_error + wrapped list) \<Rightarrow> msg_error + wrapped" where
  "wrap_with m justification values impls =
     res_bind (msg_value_hash m values) (\<lambda>vh.
     res_bind (msg_prepared_value_hash m values) (\<lambda>pvh.
     res_bind impls (\<lambda>justification_impls.
       Inr (Wrapped m vh pvh values justification justification_impls))))"

definition msg_new :: "pb_qbft_msg \<Rightarrow> pb_qbft_msg list \<Rightarrow> value_map \<Rightarrow> msg_error + wrapped" where
  "msg_new m justification values =
     wrap_with m justification values (res_map (\<lambda>j. wrap_with j [] values (Inr [])) justification)"

definition msg_value_source :: "wrapped \<Rightarrow> msg_error + wire_any" where
  "msg_value_source w = ok_or MsgValueNotFound (map_of (w_values w) (w_value_hash w))"

definition to_consensus_msg :: "hash_order \<Rightarrow> wrapped \<Rightarrow> pb_consensus_msg" where
  "to_consensus_msg ord w =
     \<lparr>cm_msg = Some (w_msg w), cm_justification = w_justification_protos w, cm_values = map snd (hash_iter (ord 0) (w_values w))\<rparr>"

definition duty_from_proto :: "pb_duty option \<Rightarrow> duty" where
  "duty_from_proto pb =
     (case pb of
        None \<Rightarrow> new_duty 0 Unknown
      | Some pb \<Rightarrow> new_duty (pb_slot pb) (case duty_type_of_i32 (pb_type pb) of Inl _ \<Rightarrow> Unknown | Inr t \<Rightarrow> t))"

text \<open>What the core reads of a wrapped message.\<close>

fun core_msg :: "wrapped \<Rightarrow> hash_root msg" where
  "core_msg (Wrapped m vh pvh values protos js) =
     Msg (qm_type m) (qm_peer_idx m) (qm_round m) vh (qm_prepared_round m) pvh (map core_msg js)"

definition sign_msg :: "('u, 'p, 'sk, 'pk) codec \<Rightarrow> pb_qbft_msg \<Rightarrow> 'sk \<Rightarrow> msg_error + pb_qbft_msg" where
  "sign_msg E m privkey =
     res_bind (hash_msg E (m\<lparr>qm_signature := []\<rparr>)) (\<lambda>h.
     res_bind (ok_or SignError (k1_sign E privkey h)) (\<lambda>signature. Inr (m\<lparr>qm_signature := signature\<rparr>)))"

definition verify_msg_sig :: "('u, 'p, 'sk, 'pk) codec \<Rightarrow> pb_qbft_msg \<Rightarrow> 'pk \<Rightarrow> msg_error + bool" where
  "verify_msg_sig E m pubkey =
     (if qm_signature m = [] then Inl EmptySignature
      else res_bind (hash_msg E (m\<lparr>qm_signature := []\<rparr>)) (\<lambda>h.
        res_bind (ok_or RecoverPubkey (k1_recover E h (qm_signature m))) (\<lambda>recovered. Inr (recovered = pubkey))))"

section \<open>Admission\<close>

datatype component_error =
    PeerIndexOverflow nat
  | InvalidLocalPeerIndex int
  | InvalidConsensusMessage
  | InvalidConsensusMessageType
  | InvalidConsensusMessageDutyType
  | InvalidConsensusMessageRound
  | InvalidConsensusMessagePreparedRound
  | InvalidPeerIndex
  | VerifyConsensusMessageSignature msg_error
  | InvalidConsensusMessageSignature
  | ComponentInvalidDuty
  | InvalidJustification component_error
  | JustificationDutyDiffers
  | TooManyJustifications nat nat
  | UnmarshalAny
  | MsgError msg_error
  | DutyExpired
  | TimeoutEnqueuingReceiveBuffer
  | ReceiveCancelledDuringVerification

datatype ('u, 'p) decoded_value =
    UnsignedDataSet 'u
  | PriorityResult 'p

definition decode_supported_any :: "('u, 'p, 'sk, 'pk) codec \<Rightarrow> wire_any \<Rightarrow> component_error + ('u, 'p) decoded_value" where
  "decode_supported_any E v =
     (if wa_type_url v = unsigned_type_url E then ok_or UnmarshalAny (map_option UnsignedDataSet (decode_unsigned E (wa_value v)))
      else if wa_type_url v = priority_type_url E then ok_or UnmarshalAny (map_option PriorityResult (decode_priority E (wa_value v)))
      else Inl UnmarshalAny)"

definition msg_err :: "msg_error + 'a \<Rightarrow> component_error + 'a" where
  "msg_err r = (case r of Inl e \<Rightarrow> Inl (MsgError e) | Inr x \<Rightarrow> Inr x)"

definition hash_decoded :: "('u, 'p, 'sk, 'pk) codec \<Rightarrow> ('u, 'p) decoded_value \<Rightarrow> component_error + hash_root" where
  "hash_decoded E v = msg_err (case v of UnsignedDataSet inner \<Rightarrow> hash_unsigned E inner | PriorityResult inner \<Rightarrow> hash_priority E inner)"

definition hash_any_value :: "('u, 'p, 'sk, 'pk) codec \<Rightarrow> wire_any \<Rightarrow> component_error + hash_root" where
  "hash_any_value E v = res_bind (decode_supported_any E v) (hash_decoded E)"

definition values_by_hash :: "('u, 'p, 'sk, 'pk) codec \<Rightarrow> wire_any list \<Rightarrow> component_error + value_map" where
  "values_by_hash E values =
     res_fold (\<lambda>v out. res_bind (hash_any_value E v) (\<lambda>h. Inr (AList.update h v out))) values []"

text \<open>Of the channels of an instance, the receive buffer; the flags guard its entry points.\<close>

datatype instance_error = AlreadyParticipated | AlreadyProposed

record instance_io =
  io_participated :: bool
  io_proposed :: bool
  io_running :: bool
  io_recv :: "wrapped list"

definition instance_new :: instance_io where
  "instance_new = \<lparr>io_participated = False, io_proposed = False, io_running = False, io_recv = []\<rparr>"

definition mark_participated :: "instance_io \<Rightarrow> (instance_error + unit) \<times> instance_io" where
  "mark_participated io = (if io_participated io then (Inl AlreadyParticipated, io) else (Inr (), io\<lparr>io_participated := True\<rparr>))"

definition mark_proposed :: "instance_io \<Rightarrow> (instance_error + unit) \<times> instance_io" where
  "mark_proposed io = (if io_proposed io then (Inl AlreadyProposed, io) else (Inr (), io\<lparr>io_proposed := True\<rparr>))"

definition maybe_start :: "instance_io \<Rightarrow> bool \<times> instance_io" where
  "maybe_start io = (\<not> io_running io, io\<lparr>io_running := True\<rparr>)"

record 'pk consensus =
  cs_peers :: "'pk list"
  cs_pubkeys :: "(int \<times> 'pk) list"
  cs_local_peer_idx :: int
  cs_instances :: "(duty \<times> instance_io) list"

definition consensus_new :: "'pk list \<Rightarrow> int \<Rightarrow> component_error + 'pk consensus" where
  "consensus_new peers local_peer_idx =
     res_bind (res_fold (\<lambda>(i, pk) m. if int i \<le> i64_max then Inr (AList.update (int i) pk m) else Inl (PeerIndexOverflow i))
         (enumerate 0 peers) []) (\<lambda>pubkeys.
       if map_of pubkeys local_peer_idx = None then Inl (InvalidLocalPeerIndex local_peer_idx)
       else Inr \<lparr>cs_peers = peers, cs_pubkeys = pubkeys, cs_local_peer_idx = local_peer_idx, cs_instances = []\<rparr>)"

definition verify_msg :: "('u, 'p, 'sk, 'pk) codec \<Rightarrow> 'pk consensus \<Rightarrow> pb_qbft_msg \<Rightarrow> component_error + unit" where
  "verify_msg E c m =
     (case qm_duty m of
        None \<Rightarrow> Inl InvalidConsensusMessage
      | Some d \<Rightarrow>
          if \<not> message_type_valid (qm_type m) then Inl InvalidConsensusMessageType
          else case duty_type_of_i32 (pb_type d) of
            Inl _ \<Rightarrow> Inl InvalidConsensusMessageDutyType
          | Inr t \<Rightarrow>
              if \<not> duty_type_is_valid t then Inl InvalidConsensusMessageDutyType
              else if qm_round m \<le> 0 then Inl InvalidConsensusMessageRound
              else if qm_prepared_round m < 0 then Inl InvalidConsensusMessagePreparedRound
              else res_bind (ok_or InvalidPeerIndex (map_of (cs_pubkeys c) (qm_peer_idx m))) (\<lambda>pubkey.
                case verify_msg_sig E m pubkey of
                  Inl e \<Rightarrow> Inl (VerifyConsensusMessageSignature e)
                | Inr ok \<Rightarrow> if ok then Inr () else Inl InvalidConsensusMessageSignature))"

definition duty_from_msg :: "pb_qbft_msg \<Rightarrow> component_error + duty" where
  "duty_from_msg m =
     res_bind (ok_or InvalidConsensusMessage (qm_duty m)) (\<lambda>d.
       case duty_of_pb d of Inl _ \<Rightarrow> Inl InvalidConsensusMessageDutyType | Inr d \<Rightarrow> Inr d)"

definition MAX_JUSTIFICATIONS_PER_NODE :: nat where "MAX_JUSTIFICATIONS_PER_NODE = 4"

definition saturating_mul_usize :: "nat \<Rightarrow> nat \<Rightarrow> nat" where
  "saturating_mul_usize a b = min u64_max (a * b)"

definition verify_justification :: "('u, 'p, 'sk, 'pk) codec \<Rightarrow> 'pk consensus \<Rightarrow> duty \<Rightarrow> pb_qbft_msg \<Rightarrow> component_error + unit" where
  "verify_justification E c d j =
     (case verify_msg E c j of
        Inl e \<Rightarrow> Inl (InvalidJustification e)
      | Inr _ \<Rightarrow>
          (case duty_from_msg j of
             Inl e \<Rightarrow> Inl (InvalidJustification e)
           | Inr just_duty \<Rightarrow> if just_duty \<noteq> d then Inl JustificationDutyDiffers else Inr ()))"

text \<open>The checks of \<open>handle\<close> up to the wrapped message.\<close>

definition admit :: "('u, 'p, 'sk, 'pk) codec \<Rightarrow> (duty \<Rightarrow> bool) \<Rightarrow> 'pk consensus \<Rightarrow> pb_consensus_msg \<Rightarrow> component_error + duty \<times> wrapped" where
  "admit E duty_gater c pb =
     res_bind (ok_or InvalidConsensusMessage (cm_msg pb)) (\<lambda>inner.
     res_bind (verify_msg E c inner) (\<lambda>_.
     res_bind (duty_from_msg inner) (\<lambda>d.
       if \<not> duty_gater d then Inl ComponentInvalidDuty
       else let most = saturating_mul_usize MAX_JUSTIFICATIONS_PER_NODE (length (cs_peers c))
            in if length (cm_justification pb) > most then Inl (TooManyJustifications (length (cm_justification pb)) most)
               else res_bind (res_fold (\<lambda>j _. verify_justification E c d j) (cm_justification pb) ()) (\<lambda>_.
                 res_bind (values_by_hash E (cm_values pb)) (\<lambda>values.
                 res_bind (msg_err (msg_new inner (cm_justification pb) values)) (\<lambda>w. Inr (d, w)))))))"

datatype send_outcome = Sent | ReceiverGone | SendCancelled

definition get_instance_io :: "duty \<Rightarrow> 'pk consensus \<Rightarrow> instance_io \<times> 'pk consensus" where
  "get_instance_io d c =
     (case map_of (cs_instances c) d of
        Some io \<Rightarrow> (io, c)
      | None \<Rightarrow> (instance_new, c\<lparr>cs_instances := AList.update d instance_new (cs_instances c)\<rparr>))"

definition consensus_handle ::
  "('u, 'p, 'sk, 'pk) codec \<Rightarrow> (duty \<Rightarrow> bool) \<Rightarrow> bool \<Rightarrow> add_outcome \<Rightarrow> send_outcome \<Rightarrow> pb_consensus_msg \<Rightarrow> 'pk consensus
     \<Rightarrow> (component_error + unit) \<times> 'pk consensus" where
  "consensus_handle E duty_gater cancelled deadline sending pb c =
     (case admit E duty_gater c pb of
        Inl e \<Rightarrow> (Inl e, c)
      | Inr (d, w) \<Rightarrow>
          if cancelled then (Inl ReceiveCancelledDuringVerification, c)
          else if deadline \<noteq> Scheduled then (Inl DutyExpired, c)
          else case get_instance_io d c of
            (io, c) \<Rightarrow>
              (case sending of
                 Sent \<Rightarrow> (Inr (), c\<lparr>cs_instances := AList.update d (io\<lparr>io_recv := io_recv io @ [w]\<rparr>) (cs_instances c)\<rparr>)
               | ReceiverGone \<Rightarrow> (if io_running io then Inr () else Inl TimeoutEnqueuingReceiveBuffer, c)
               | SendCancelled \<Rightarrow> (Inl TimeoutEnqueuingReceiveBuffer, c)))"

definition expire_instance :: "duty \<Rightarrow> 'pk consensus \<Rightarrow> 'pk consensus" where
  "expire_instance d c = c\<lparr>cs_instances := AList.delete d (cs_instances c)\<rparr>"

section \<open>Transport\<close>

datatype transport_error =
    UnknownValue
  | InvalidJustificationMessage
  | TransportInvalidJustification
  | TransportInvalidDuty
  | ReceiveBufferClosed
  | TransportBroadcast string
  | TransportMsg msg_error

record value_store =
  vs_value_rx :: "wire_any list"
  vs_values :: value_map

definition set_values :: "wrapped \<Rightarrow> value_store \<Rightarrow> value_store" where
  "set_values w s = s\<lparr>vs_values := fold (\<lambda>(h, v). AList.update h v) (w_values w) (vs_values s)\<rparr>"

definition get_value :: "('u, 'p, 'sk, 'pk) codec \<Rightarrow> hash_root \<Rightarrow> value_store \<Rightarrow> (transport_error + wire_any) \<times> value_store" where
  "get_value E h s =
     (case vs_value_rx s of
        [] \<Rightarrow> (ok_or UnknownValue (map_of (vs_values s) h), s)
      | local # rest \<Rightarrow>
          (case hash_raw E (wa_value local) of
             Inl e \<Rightarrow> (Inl (TransportMsg e), s\<lparr>vs_value_rx := rest\<rparr>)
           | Inr lh \<Rightarrow>
               let s = s\<lparr>vs_value_rx := rest, vs_values := AList.update lh local (vs_values s)\<rparr>
               in (ok_or UnknownValue (map_of (vs_values s) h), s)))"

record broadcast_request =
  br_type :: int
  br_duty :: duty
  br_peer_idx :: int
  br_round :: int
  br_value_hash :: hash_root
  br_prepared_round :: int
  br_prepared_value_hash :: hash_root
  br_justification :: "wrapped list"

definition create_msg :: "('u, 'p, 'sk, 'pk) codec \<Rightarrow> 'sk \<Rightarrow> value_map \<Rightarrow> broadcast_request \<Rightarrow> transport_error + wrapped" where
  "create_msg E privkey values rq =
     res_bind (case duty_to_pb (br_duty rq) of Inl _ \<Rightarrow> Inl TransportInvalidDuty | Inr d \<Rightarrow> Inr d) (\<lambda>pb_d.
       let pb = \<lparr>qm_type = br_type rq, qm_duty = Some pb_d, qm_peer_idx = br_peer_idx rq, qm_round = br_round rq,
                 qm_prepared_round = br_prepared_round rq, qm_signature = [], qm_value_hash = hash_bytes_of (br_value_hash rq),
                 qm_prepared_value_hash = hash_bytes_of (br_prepared_value_hash rq)\<rparr>
       in case res_bind (sign_msg E pb privkey) (\<lambda>pb. msg_new pb (map w_msg (br_justification rq)) values) of
            Inl e \<Rightarrow> Inl (TransportMsg e)
          | Inr w \<Rightarrow> Inr w)"

fun collect_values :: "('u, 'p, 'sk, 'pk) codec \<Rightarrow> hash_root list \<Rightarrow> value_map \<Rightarrow> value_store \<Rightarrow> (transport_error + value_map) \<times> value_store" where
  "collect_values E [] values s = (Inr values, s)"
| "collect_values E (h # hs) values s =
     (if h = 0 \<or> map_of values h \<noteq> None then collect_values E hs values s
      else case get_value E h s of
        (Inl e, s) \<Rightarrow> (Inl e, s)
      | (Inr v, s) \<Rightarrow> collect_values E hs (AList.update h v values) s)"

text \<open>The result is the message for the own receive buffer and, in its wire form, for the peers.\<close>

definition transport_broadcast ::
  "('u, 'p, 'sk, 'pk) codec \<Rightarrow> hash_order \<Rightarrow> 'sk \<Rightarrow> broadcast_request \<Rightarrow> value_store \<Rightarrow> (transport_error + wrapped \<times> pb_consensus_msg) \<times> value_store" where
  "transport_broadcast E ord privkey rq s =
     (let hashes = [br_value_hash rq, br_prepared_value_hash rq]
            @ concat (map (\<lambda>j. [w_value_hash j, w_prepared_value_hash j]) (br_justification rq))
      in case collect_values E hashes [] s of
           (Inl e, s) \<Rightarrow> (Inl e, s)
         | (Inr values, s) \<Rightarrow> (res_bind (create_msg E privkey values rq) (\<lambda>w. Inr (w, to_consensus_msg ord w)), s))"

section \<open>Leader and decision\<close>

definition leader :: "duty \<Rightarrow> int \<Rightarrow> int \<Rightarrow> int" where
  "leader d r n =
     (int (d_slot d) + (case duty_type_to_i32 (d_type d) of Inl _ \<Rightarrow> 0 | Inr t \<Rightarrow> t) + r) mod n"

definition new_definition :: "int \<Rightarrow> duty qbft_definition" where
  "new_definition n = \<lparr>is_leader = (\<lambda>d r process. leader d r n = process), nodes = n, fifo_limit = 100\<rparr>"

text \<open>A decision: the callback with the commits, and the subscribers that take this kind of value, in
  the order of their registration. Their errors are logged.\<close>

datatype subscriber_kind = UnsignedSub | PrioritySub

fun accepts :: "subscriber_kind \<Rightarrow> ('u, 'p) decoded_value \<Rightarrow> bool" where
  "accepts UnsignedSub (UnsignedDataSet v) = True"
| "accepts PrioritySub (PriorityResult v) = True"
| "accepts _ _ = False"

datatype ('u, 'p) decide_action =
    DecideCallback "wrapped list"
  | CallSubscriber nat duty "('u, 'p) decoded_value"

definition dispatch_decoded :: "subscriber_kind list \<Rightarrow> duty \<Rightarrow> ('u, 'p) decoded_value \<Rightarrow> ('u, 'p) decide_action list" where
  "dispatch_decoded subs d v = map (\<lambda>(i, _). CallSubscriber i d v) (filter (\<lambda>(i, sub). accepts sub v) (enumerate 0 subs))"

definition consensus_decide ::
  "('u, 'p, 'sk, 'pk) codec \<Rightarrow> subscriber_kind list \<Rightarrow> duty \<Rightarrow> hash_root \<Rightarrow> wrapped list \<Rightarrow> ('u, 'p) decide_action list" where
  "consensus_decide E subs d v qcommit =
     (case qcommit of
        [] \<Rightarrow> []
      | w # _ \<Rightarrow>
          (case map_of (w_values w) v of
             None \<Rightarrow> []
           | Some any_v \<Rightarrow>
               (case decode_supported_any E any_v of
                  Inl _ \<Rightarrow> []
                | Inr decoded \<Rightarrow> DecideCallback qcommit # dispatch_decoded subs d decoded)))"

text \<open>A message from the receive buffer: its values are cached, and the core receives it.\<close>

definition process_receive :: "wrapped \<Rightarrow> value_store \<Rightarrow> hash_root msg \<times> value_store" where
  "process_receive w s = (core_msg w, set_values w s)"

section \<open>The leader\<close>

text \<open>In any as many consecutive rounds as there are nodes, every node leads exactly once.\<close>

lemma leader_rotates:
  assumes "0 < n"
  shows "bij_betw (\<lambda>r. leader d r n) {k..<k + n} {0..<n}"
proof -
  define b where "b = int (d_slot d) + (case duty_type_to_i32 (d_type d) of Inl _ \<Rightarrow> 0 | Inr t \<Rightarrow> t)"
  have lead: "leader d r n = (b + r) mod n" for r by (simp add: leader_def b_def)
  have "inj_on (\<lambda>r. leader d r n) {k..<k + n}"
  proof (rule inj_onI)
    fix x y assume xy: "x \<in> {k..<k + n}" "y \<in> {k..<k + n}" "leader d x n = leader d y n"
    then have "n dvd (b + x) - (b + y)" by (simp add: lead mod_eq_dvd_iff)
    moreover have "\<bar>(b + x) - (b + y)\<bar> < n" using xy(1,2) by auto
    ultimately show "x = y" using zdvd_not_zless [of "\<bar>x - y\<bar>" n] by (cases "x = y") auto
  qed
  moreover have "(\<lambda>r. leader d r n) ` {k..<k + n} = {0..<n}"
  proof (rule card_subset_eq)
    show "(\<lambda>r. leader d r n) ` {k..<k + n} \<subseteq> {0..<n}" using assms by (auto simp: lead)
    show "card ((\<lambda>r. leader d r n) ` {k..<k + n}) = card {0..<n}" using calculation by (simp add: card_image)
  qed simp
  ultimately show ?thesis by (simp add: bij_betw_def)
qed

section \<open>Values and their hashes\<close>

definition values_ok :: "('u, 'p, 'sk, 'pk) codec \<Rightarrow> value_map \<Rightarrow> bool" where
  "values_ok E m \<longleftrightarrow> (\<forall>(h, v) \<in> set m. hash_any_value E v = Inr h)"

lemma set_update_sub: "set (AList.update k v m) \<subseteq> insert (k, v) (set m)"
  by (induction m) auto

lemma values_ok_update: "values_ok E m \<Longrightarrow> hash_any_value E v = Inr h \<Longrightarrow> values_ok E (AList.update h v m)"
  using set_update_sub [of h v m] unfolding values_ok_def by blast

lemma values_by_hash_ok: "values_by_hash E vs = Inr m \<Longrightarrow> values_ok E m \<and> distinct (keys m)"
proof -
  have "res_fold (\<lambda>v out. res_bind (hash_any_value E v) (\<lambda>h. Inr (AList.update h v out))) vs m0 = Inr m
      \<Longrightarrow> values_ok E m0 \<and> distinct (keys m0) \<Longrightarrow> values_ok E m \<and> distinct (keys m)" for m0
    by (induction vs arbitrary: m0) (auto simp: values_ok_update)
  then show "values_by_hash E vs = Inr m \<Longrightarrow> ?thesis" by (auto simp: values_by_hash_def values_ok_def)
qed

lemma values_by_hash_self:
  assumes "values_ok E m" "distinct (keys m)"
  shows "values_by_hash E (map snd m) = Inr m"
proof -
  have "res_fold (\<lambda>v out. res_bind (hash_any_value E v) (\<lambda>h. Inr (AList.update h v out))) (map snd m) out = Inr (out @ m)"
    if "values_ok E m" "distinct (keys m)" "set (keys out) \<inter> set (keys m) = {}" for m out
    using that
  proof (induction m arbitrary: out)
    case (Cons e m)
    obtain h v where e: "e = (h, v)" by (cases e)
    have "AList.update h v out = out @ [(h, v)]" using Cons.prems(3) by (intro update_fresh) (auto simp: e)
    then show ?case using Cons.IH [of "out @ [(h, v)]"] Cons.prems by (auto simp: e values_ok_def)
  qed simp
  from this [of m "[]"] show ?thesis using assms by (simp add: values_by_hash_def)
qed

section \<open>Admitted messages\<close>

lemma msg_err_Inr [simp]: "msg_err r = Inr x \<longleftrightarrow> r = Inr x"
  by (cases r) (simp_all add: msg_err_def)

lemma verify_msg_Inr:
  assumes "verify_msg E c m = Inr ()"
  shows "message_type_valid (qm_type m) \<and> 0 < qm_round m \<and> 0 \<le> qm_prepared_round m
    \<and> (\<exists>pk. map_of (cs_pubkeys c) (qm_peer_idx m) = Some pk \<and> verify_msg_sig E m pk = Inr True)"
proof -
  obtain d t where d: "qm_duty m = Some d" "duty_type_of_i32 (pb_type d) = Inr t"
    using assms unfolding verify_msg_def by (cases "qm_duty m"; cases "duty_type_of_i32 (pb_type (the (qm_duty m)))") (simp_all split: if_splits)
  then show ?thesis
    using assms unfolding verify_msg_def by (cases "map_of (cs_pubkeys c) (qm_peer_idx m)") (simp_all split: if_splits sum.splits)
qed

lemma verify_justification_Inr: "verify_justification E c d j = Inr () \<longleftrightarrow> verify_msg E c j = Inr () \<and> duty_from_msg j = Inr d"
  by (auto simp: verify_justification_def split: sum.splits if_splits)

lemma verify_justifications_Inr:
  "res_fold (\<lambda>j _. verify_justification E c d j) js u = Inr u' \<longleftrightarrow> (\<forall>j \<in> set js. verify_justification E c d j = Inr ())"
  by (induction js arbitrary: u) auto

lemma admit_Inr:
  assumes "admit E gater c pb = Inr (d, w)"
  shows "\<exists>m values. cm_msg pb = Some m \<and> verify_msg E c m = Inr () \<and> duty_from_msg m = Inr d \<and> gater d
    \<and> length (cm_justification pb) \<le> saturating_mul_usize MAX_JUSTIFICATIONS_PER_NODE (length (cs_peers c))
    \<and> (\<forall>j \<in> set (cm_justification pb). verify_msg E c j = Inr () \<and> duty_from_msg j = Inr d)
    \<and> values_by_hash E (cm_values pb) = Inr values \<and> msg_new m (cm_justification pb) values = Inr w"
  using assms by (auto simp: admit_def Let_def verify_justifications_Inr verify_justification_Inr split: if_splits)

lemma admit_eq:
  assumes "cm_msg pb = Some m" "verify_msg E c m = Inr ()" "duty_from_msg m = Inr d" "gater d"
    "length (cm_justification pb) \<le> saturating_mul_usize MAX_JUSTIFICATIONS_PER_NODE (length (cs_peers c))"
    "\<forall>j \<in> set (cm_justification pb). verify_msg E c j = Inr () \<and> duty_from_msg j = Inr d"
    "values_by_hash E (cm_values pb) = Inr vs" "msg_new m (cm_justification pb) vs = Inr w"
  shows "admit E gater c pb = Inr (d, w)"
proof -
  have "res_fold (\<lambda>j _. verify_justification E c d j) (cm_justification pb) () = Inr ()"
    using assms(6) by (simp add: verify_justifications_Inr verify_justification_Inr)
  then show ?thesis using assms by (simp add: admit_def Let_def not_less)
qed

definition hash_of_bytes :: "nat list \<Rightarrow> hash_root" where
  "hash_of_bytes bs = (case to_hash32 bs of None \<Rightarrow> 0 | Some h \<Rightarrow> h)"

definition hash_known :: "value_map \<Rightarrow> nat list \<Rightarrow> bool" where
  "hash_known values bs \<longleftrightarrow> hash_of_bytes bs = 0 \<or> map_of values (hash_of_bytes bs) \<noteq> None"

lemma to_hash32_nonzero: "to_hash32 bs = Some h \<Longrightarrow> h \<noteq> 0"
  by (auto simp: to_hash32_def zero_hash_root_def split: if_splits)

lemma wrap_with_Inr:
  "wrap_with m js values impls = Inr w \<longleftrightarrow> hash_known values (qm_value_hash m) \<and> hash_known values (qm_prepared_value_hash m)
     \<and> (\<exists>ws. impls = Inr ws \<and> w = Wrapped m (hash_of_bytes (qm_value_hash m)) (hash_of_bytes (qm_prepared_value_hash m)) values js ws)"
  using to_hash32_nonzero
  by (auto simp: wrap_with_def msg_value_hash_def msg_prepared_value_hash_def hash_known_def hash_of_bytes_def split: option.splits)

definition plain_wrap :: "value_map \<Rightarrow> pb_qbft_msg \<Rightarrow> wrapped" where
  "plain_wrap values j = Wrapped j (hash_of_bytes (qm_value_hash j)) (hash_of_bytes (qm_prepared_value_hash j)) values [] []"

lemma msg_new_Inr:
  "msg_new m js values = Inr w \<longleftrightarrow>
     (\<forall>x \<in> insert m (set js). hash_known values (qm_value_hash x) \<and> hash_known values (qm_prepared_value_hash x))
     \<and> w = Wrapped m (hash_of_bytes (qm_value_hash m)) (hash_of_bytes (qm_prepared_value_hash m)) values js (map (plain_wrap values) js)"
proof -
  have wrap: "wrap_with j [] values (Inr []) = Inr w \<longleftrightarrow>
      hash_known values (qm_value_hash j) \<and> hash_known values (qm_prepared_value_hash j) \<and> w = plain_wrap values j" for j w
    by (auto simp: wrap_with_Inr plain_wrap_def)
  have "res_map (\<lambda>j. wrap_with j [] values (Inr [])) js = Inr ws \<longleftrightarrow>
      (\<forall>j \<in> set js. hash_known values (qm_value_hash j) \<and> hash_known values (qm_prepared_value_hash j)) \<and> ws = map (plain_wrap values) js" for ws
    by (induction js arbitrary: ws) (auto simp: wrap)
  then show ?thesis by (auto simp: msg_new_def wrap_with_Inr)
qed

text \<open>What the core reads of a raw message: the hashes with malformed ones collapsed to the null hash.\<close>

definition raw_core_msg :: "pb_qbft_msg \<Rightarrow> hash_root msg list \<Rightarrow> hash_root msg" where
  "raw_core_msg m js = Msg (qm_type m) (qm_peer_idx m) (qm_round m) (hash_of_bytes (qm_value_hash m)) (qm_prepared_round m)
     (hash_of_bytes (qm_prepared_value_hash m)) js"

lemma core_msg_new: "msg_new m js values = Inr w \<Longrightarrow> core_msg w = raw_core_msg m (map (\<lambda>j. raw_core_msg j []) js)"
  by (auto simp: msg_new_Inr raw_core_msg_def plain_wrap_def)

text \<open>A value that an admitted message refers to is there, decodes, and hashes to its key.\<close>

lemma admitted_values:
  assumes "admit E gater c pb = Inr (d, w)" "x = w \<or> x \<in> set (w_justification w)" "h \<in> {w_value_hash x, w_prepared_value_hash x}" "h \<noteq> 0"
  shows "\<exists>v dv. map_of (w_values w) h = Some v \<and> decode_supported_any E v = Inr dv \<and> hash_decoded E dv = Inr h"
proof -
  obtain m vs where m: "values_by_hash E (cm_values pb) = Inr vs" "msg_new m (cm_justification pb) vs = Inr w"
    using admit_Inr [OF assms(1)] by blast
  have w: "w_values w = vs" using m(2) by (auto simp: msg_new_Inr)
  have "map_of vs h \<noteq> None"
    using assms(2-4) m(2) by (auto simp: msg_new_Inr plain_wrap_def hash_known_def)
  then obtain v where v: "map_of vs h = Some v" by auto
  then have "hash_any_value E v = Inr h" using values_by_hash_ok [OF m(1)] map_of_SomeD [OF v] by (auto simp: values_ok_def)
  then show ?thesis using v by (auto simp: w hash_any_value_def)
qed

section \<open>Broadcast messages are admitted\<close>

definition store_ok :: "('u, 'p, 'sk, 'pk) codec \<Rightarrow> value_store \<Rightarrow> bool" where
  "store_ok E s \<longleftrightarrow> values_ok E (vs_values s)
     \<and> (\<forall>v \<in> set (vs_value_rx s). \<forall>h. hash_raw E (wa_value v) = Inr h \<longrightarrow> hash_any_value E v = Inr h)"

lemma values_ok_lookup: "values_ok E m \<Longrightarrow> map_of m h = Some v \<Longrightarrow> hash_any_value E v = Inr h"
  by (auto simp: values_ok_def dest!: map_of_SomeD)

lemma get_value_ok:
  assumes "store_ok E s" "get_value E h s = (r, s')"
  shows "store_ok E s' \<and> (\<forall>v. r = Inr v \<longrightarrow> hash_any_value E v = Inr h)"
proof (cases "vs_value_rx s")
  case Nil
  then show ?thesis using assms values_ok_lookup [of E "vs_values s" h] by (auto simp: get_value_def store_ok_def)
next
  case (Cons v vs)
  show ?thesis
  proof (cases "hash_raw E (wa_value v)")
    case (Inl e)
    then show ?thesis using assms Cons by (auto simp: get_value_def store_ok_def)
  next
    case (Inr lh)
    then have new: "values_ok E (AList.update lh v (vs_values s))" using assms(1) Cons by (auto simp: store_ok_def values_ok_update)
    then show ?thesis using assms Cons Inr values_ok_lookup [OF new, of h] by (auto simp: get_value_def store_ok_def Let_def)
  qed
qed

lemma set_values_ok: "store_ok E s \<Longrightarrow> values_ok E (w_values w) \<Longrightarrow> store_ok E (set_values w s)"
proof -
  have "values_ok E vs \<Longrightarrow> values_ok E m \<Longrightarrow> values_ok E (fold (\<lambda>(h, v). AList.update h v) vs m)" for vs m
  proof (induction vs arbitrary: m)
    case (Cons e vs)
    obtain h v where e: "e = (h, v)" by (cases e)
    have "hash_any_value E v = Inr h" "values_ok E vs" using Cons.prems(1) by (auto simp: values_ok_def e)
    then show ?case using Cons.IH [OF _ values_ok_update [OF Cons.prems(2)]] by (simp add: e)
  qed simp
  then show "store_ok E s \<Longrightarrow> values_ok E (w_values w) \<Longrightarrow> ?thesis" by (simp add: store_ok_def set_values_def)
qed

lemma collect_values_ok:
  assumes "collect_values E hs acc s = (Inr r, s')" "store_ok E s" "values_ok E acc" "distinct (keys acc)"
  shows "store_ok E s' \<and> values_ok E r \<and> distinct (keys r)"
  using assms
proof (induction E hs acc s rule: collect_values.induct)
  case (2 E h hs acc s)
  show ?case
  proof (cases "h = 0 \<or> map_of acc h \<noteq> None")
    case True
    then show ?thesis using 2 by simp
  next
    case False
    then obtain v s1 where v: "get_value E h s = (Inr v, s1)" "collect_values E hs (AList.update h v acc) s1 = (Inr r, s')"
      using 2(3) by (auto split: prod.splits sum.splits)
    note g = get_value_ok [OF 2(4) v(1)]
    show ?thesis
      using 2(2) [OF False v(1) [symmetric] refl v(2)] g values_ok_update [OF 2(5)] 2(6) by auto
  qed
qed simp

lemma hash_known_cong: "(\<And>h. (map_of vs' h = None) = (map_of vs h = None)) \<Longrightarrow> hash_known vs' bs = hash_known vs bs"
  by (simp add: hash_known_def)

text \<open>The wire form of a message is unpacked to the same message.\<close>

lemma unpack_values:
  assumes "msg_new m js vs = Inr w" "values_ok E vs" "distinct (keys vs)"
  shows "\<exists>vs' w'. values_by_hash E (map snd (hash_iter (ord 0) vs)) = Inr vs' \<and> msg_new m js vs' = Inr w' \<and> core_msg w' = core_msg w"
proof -
  let ?vs = "hash_iter (ord 0) vs"
  have ok: "values_ok E ?vs" "distinct (keys ?vs)" using assms(2,3) by (simp_all add: values_ok_def)
  have "(map_of ?vs h = None) = (map_of vs h = None)" for h by (simp add: map_of_eq_None_iff)
  then have "hash_known ?vs bs = hash_known vs bs" for bs by (rule hash_known_cong)
  then obtain w' where w': "msg_new m js ?vs = Inr w'" using assms(1) by (auto simp: msg_new_Inr)
  then show ?thesis using values_by_hash_self [OF ok] core_msg_new [OF w'] core_msg_new [OF assms(1)] by auto
qed

lemma sign_verify:
  assumes "sign_msg E m sk = Inr m'" "\<forall>h sig. k1_sign E sk h = Some sig \<longrightarrow> sig \<noteq> [] \<and> k1_recover E h sig = Some pk" "qm_signature m = []"
  shows "verify_msg_sig E m' pk = Inr True \<and> m' = m\<lparr>qm_signature := qm_signature m'\<rparr>"
proof -
  obtain h sig where h: "hash_msg E (m\<lparr>qm_signature := []\<rparr>) = Inr h" "k1_sign E sk h = Some sig" "m' = m\<lparr>qm_signature := sig\<rparr>"
    using assms(1) by (auto simp: sign_msg_def)
  then show ?thesis using assms(2) by (auto simp: verify_msg_sig_def)
qed

lemma duty_pb_roundtrip: "duty_to_pb d = Inr pb \<Longrightarrow> duty_type_is_valid (d_type d) \<Longrightarrow> duty_of_pb pb = Inr d \<and> duty_type_of_i32 (pb_type pb) = Inr (d_type d)"
  by (cases d) (auto simp: duty_of_pb_def duty_to_pb_def new_duty_def duty_type_i32_iff)

lemma hash_of_bytes_self: "length (hash_bytes_of h) = 32 \<Longrightarrow> hash_of_bytes (hash_bytes_of h) = h"
  by (cases h) (auto simp: hash_of_bytes_def to_hash32_def zero_hash_root_def)

text \<open>A request that an honest process makes: its own index, valid fields, and justifications that its
  peers accept.\<close>

definition request_ok :: "('u, 'p, 'sk, 'pk) codec \<Rightarrow> 'pk consensus \<Rightarrow> broadcast_request \<Rightarrow> bool" where
  "request_ok E c rq \<longleftrightarrow>
     message_type_valid (br_type rq) \<and> duty_type_is_valid (d_type (br_duty rq)) \<and> 0 < br_round rq \<and> 0 \<le> br_prepared_round rq
     \<and> length (hash_bytes_of (br_value_hash rq)) = 32 \<and> length (hash_bytes_of (br_prepared_value_hash rq)) = 32
     \<and> length (br_justification rq) \<le> saturating_mul_usize MAX_JUSTIFICATIONS_PER_NODE (length (cs_peers c))
     \<and> (\<forall>j \<in> set (br_justification rq). verify_msg E c (w_msg j) = Inr () \<and> duty_from_msg (w_msg j) = Inr (br_duty rq))"

lemma create_msg_ok:
  assumes "create_msg E sk vs rq = Inr w" "request_ok E c rq" "map_of (cs_pubkeys c) (br_peer_idx rq) = Some pk"
    "\<forall>h sig. k1_sign E sk h = Some sig \<longrightarrow> sig \<noteq> [] \<and> k1_recover E h sig = Some pk"
  shows "verify_msg E c (w_msg w) = Inr () \<and> duty_from_msg (w_msg w) = Inr (br_duty rq)
    \<and> msg_new (w_msg w) (map w_msg (br_justification rq)) vs = Inr w
    \<and> w_justification_protos w = map w_msg (br_justification rq) \<and> w_values w = vs
    \<and> core_msg w = Msg (br_type rq) (br_peer_idx rq) (br_round rq) (br_value_hash rq) (br_prepared_round rq) (br_prepared_value_hash rq)
        (map (\<lambda>j. raw_core_msg (w_msg j) []) (br_justification rq))"
proof -
  let ?pb = "\<lambda>d. \<lparr>qm_type = br_type rq, qm_duty = Some d, qm_peer_idx = br_peer_idx rq, qm_round = br_round rq,
      qm_prepared_round = br_prepared_round rq, qm_signature = [], qm_value_hash = hash_bytes_of (br_value_hash rq),
      qm_prepared_value_hash = hash_bytes_of (br_prepared_value_hash rq)\<rparr>"
  obtain d pb where d: "duty_to_pb (br_duty rq) = Inr d" "sign_msg E (?pb d) sk = Inr pb"
      "msg_new pb (map w_msg (br_justification rq)) vs = Inr w"
    using assms(1) by (auto simp: create_msg_def Let_def split: sum.splits)
  have sig: "verify_msg_sig E pb pk = Inr True" "pb = (?pb d)\<lparr>qm_signature := qm_signature pb\<rparr>"
    using sign_verify [OF d(2) assms(4)] by simp_all
  have pb: "qm_type pb = br_type rq" "qm_duty pb = Some d" "qm_peer_idx pb = br_peer_idx rq" "qm_round pb = br_round rq"
      "qm_prepared_round pb = br_prepared_round rq" "qm_value_hash pb = hash_bytes_of (br_value_hash rq)"
      "qm_prepared_value_hash pb = hash_bytes_of (br_prepared_value_hash rq)"
    by (subst sig(2), simp)+
  note rq = assms(2) [unfolded request_ok_def]
  have duty: "duty_of_pb d = Inr (br_duty rq)" "duty_type_of_i32 (pb_type d) = Inr (d_type (br_duty rq))"
    using duty_pb_roundtrip [OF d(1)] rq by simp_all
  have w: "w_msg w = pb" "w_justification_protos w = map w_msg (br_justification rq)" "w_values w = vs" using d(3) by (auto simp: msg_new_Inr)
  have "verify_msg E c pb = Inr ()" using rq assms(3) duty sig(1) by (simp add: verify_msg_def pb)
  moreover have "core_msg w = Msg (br_type rq) (br_peer_idx rq) (br_round rq) (br_value_hash rq) (br_prepared_round rq) (br_prepared_value_hash rq)
        (map (\<lambda>j. raw_core_msg (w_msg j) []) (br_justification rq))"
    using core_msg_new [OF d(3)] rq by (simp add: raw_core_msg_def [of pb] pb hash_of_bytes_self comp_def)
  ultimately show ?thesis using d(3) duty by (simp add: w duty_from_msg_def pb)
qed

text \<open>
  C22. What an honest node broadcasts, its peers admit. When the transport has built and signed a
  message from a request of the core, every peer that knows the sender's key, accepts the duty and
  has room in its buffer queues a message for the duty, and what its core reads of that message is
  what the sender asked to be sent and what the sender's own core receives: type, round, values and
  justifications, whichever order the values are packed in.
\<close>

theorem consensus_broadcast_admitted:
  assumes "store_ok E s" "transport_broadcast E ord sk rq s = (Inr (w, pb), s')"
    "request_ok E c rq" "map_of (cs_pubkeys c) (br_peer_idx rq) = Some pk"
    "\<forall>h sig. k1_sign E sk h = Some sig \<longrightarrow> sig \<noteq> [] \<and> k1_recover E h sig = Some pk"
    "gater (br_duty rq)"
  shows "\<exists>w' io. consensus_handle E gater False Scheduled Sent pb c = (Inr (), io)
    \<and> (\<exists>q. map_of (cs_instances io) (br_duty rq) = Some q \<and> last (io_recv q) = w' \<and> io_recv q \<noteq> [])
    \<and> core_msg w' = core_msg w
    \<and> core_msg w = Msg (br_type rq) (br_peer_idx rq) (br_round rq) (br_value_hash rq) (br_prepared_round rq) (br_prepared_value_hash rq)
        (map (\<lambda>j. raw_core_msg (w_msg j) []) (br_justification rq))"
proof -
  obtain vs s1 where vs: "collect_values E ([br_value_hash rq, br_prepared_value_hash rq]
        @ concat (map (\<lambda>j. [w_value_hash j, w_prepared_value_hash j]) (br_justification rq))) [] s = (Inr vs, s1)"
      "create_msg E sk vs rq = Inr w" "pb = to_consensus_msg ord w"
    using assms(2) by (auto simp: transport_broadcast_def Let_def split: prod.splits sum.splits)
  have ok: "values_ok E vs" "distinct (keys vs)" using collect_values_ok [OF vs(1) assms(1)] by (simp_all add: values_ok_def)
  note made = create_msg_ok [OF vs(2) assms(3-5)]
  obtain vs' w' where w': "values_by_hash E (map snd (hash_iter (ord 0) vs)) = Inr vs'"
      "msg_new (w_msg w) (map w_msg (br_justification rq)) vs' = Inr w'" "core_msg w' = core_msg w"
    using unpack_values [OF conjunct1 [OF conjunct2 [OF conjunct2 [OF made]]] ok] by blast
  have "admit E gater c pb = Inr (br_duty rq, w')"
    using made w' assms(3,6) by (intro admit_eq [where m = "w_msg w" and vs = vs']) (auto simp: vs(3) to_consensus_msg_def request_ok_def)
  then show ?thesis using w'(3) made
    by (cases "map_of (cs_instances c) (br_duty rq)") (auto simp: consensus_handle_def get_instance_io_def update_conv')
qed

definition sample_codec :: "(nat, nat, nat, nat) codec" where
  "sample_codec =
     \<lparr>hash_msg = (\<lambda>m. Inr (HashRoot (replicate 32 1))), hash_unsigned = (\<lambda>u. Inr (HashRoot (replicate 32 u))),
      hash_priority = (\<lambda>p. Inr (HashRoot (replicate 32 p))),
      hash_raw = (\<lambda>bs. case bs of [b] \<Rightarrow> Inr (HashRoot (replicate 32 b)) | _ \<Rightarrow> Inl HashProto),
      unsigned_type_url = ''u'', priority_type_url = ''p'',
      decode_unsigned = (\<lambda>bs. case bs of [b] \<Rightarrow> Some b | _ \<Rightarrow> None), decode_priority = (\<lambda>bs. case bs of [b] \<Rightarrow> Some b | _ \<Rightarrow> None),
      k1_sign = (\<lambda>sk h. Some [sk]), k1_recover = (\<lambda>h sig. case sig of [k] \<Rightarrow> Some k | _ \<Rightarrow> None)\<rparr>"

definition sample_request :: broadcast_request where
  "sample_request = \<lparr>br_type = MSG_PRE_PREPARE, br_duty = new_duty 3 Attester, br_peer_idx = 0, br_round = 1,
     br_value_hash = HashRoot (replicate 32 5), br_prepared_round = 0, br_prepared_value_hash = 0, br_justification = []\<rparr>"

definition sample_consensus :: "nat consensus" where
  "sample_consensus = \<lparr>cs_peers = [11, 12], cs_pubkeys = [(0, 11), (1, 12)], cs_local_peer_idx = 1, cs_instances = []\<rparr>"

definition sample_values :: value_store where
  "sample_values = \<lparr>vs_value_rx = [\<lparr>wa_type_url = ''u'', wa_value = [5]\<rparr>], vs_values = []\<rparr>"

theorem consensus_broadcast_admitted_witness:
  "\<exists>w pb w' io. fst (transport_broadcast sample_codec in_order 11 sample_request sample_values) = Inr (w, pb)
    \<and> consensus_handle sample_codec (\<lambda>_. True) False Scheduled Sent pb sample_consensus = (Inr (), io)
    \<and> (\<exists>q. map_of (cs_instances io) (new_duty 3 Attester) = Some q \<and> last (io_recv q) = w')
    \<and> core_msg w' = Msg MSG_PRE_PREPARE 0 1 (HashRoot (replicate 32 5)) 0 0 []"
proof -
  have store: "store_ok sample_codec sample_values"
    by (simp add: store_ok_def values_ok_def sample_values_def sample_codec_def hash_any_value_def decode_supported_any_def hash_decoded_def msg_err_def)
  have "case fst (transport_broadcast sample_codec in_order 11 sample_request sample_values) of Inl _ \<Rightarrow> False | Inr _ \<Rightarrow> True" by code_simp
  then obtain w pb s' where t: "transport_broadcast sample_codec in_order 11 sample_request sample_values = (Inr (w, pb), s')"
    by (cases "transport_broadcast sample_codec in_order 11 sample_request sample_values") (auto split: sum.splits)
  have rq: "request_ok sample_codec sample_consensus sample_request"
    by (simp add: request_ok_def sample_request_def message_type_valid_def new_duty_def zero_hash_root_def)
  have pk: "map_of (cs_pubkeys sample_consensus) (br_peer_idx sample_request) = Some 11" by (simp add: sample_consensus_def sample_request_def)
  have keys: "\<forall>h sig. k1_sign sample_codec 11 h = Some sig \<longrightarrow> sig \<noteq> [] \<and> k1_recover sample_codec h sig = Some 11" by (simp add: sample_codec_def)
  from consensus_broadcast_admitted [where gater = "\<lambda>_. True", OF store t rq pk keys TrueI] show ?thesis
    using t by (auto simp: sample_request_def)
qed

section \<open>What a decision delivers\<close>

lemma decide_delivers:
  assumes "admit E gater c pb = Inr (d, w)" "w_value_hash w = v" "v \<noteq> 0"
  shows "\<exists>dv. hash_decoded E dv = Inr v \<and> consensus_decide E subs d v (w # ws) = DecideCallback (w # ws) # dispatch_decoded subs d dv"
  using admitted_values [OF assms(1), of w v] assms(2,3) by (auto simp: consensus_decide_def)

lemma process_receive_ok:
  assumes "store_ok E s" "admit E gater c pb = Inr (d, w)" shows "store_ok E (snd (process_receive w s))"
proof -
  obtain m vs where "values_by_hash E (cm_values pb) = Inr vs" "msg_new m (cm_justification pb) vs = Inr w"
    using admit_Inr [OF assms(2)] by blast
  then have "values_ok E (w_values w)" using values_by_hash_ok by (auto simp: msg_new_Inr)
  then show ?thesis using set_values_ok [OF assms(1)] by (simp add: process_receive_def)
qed

section \<open>Runs of the component\<close>

text \<open>The turns of the component: a message from a peer, an expired duty, the start of an instance, and
  its runner taking a message from the receive buffer.\<close>

datatype consensus_op =
    Handle "duty \<Rightarrow> bool" bool add_outcome send_outcome pb_consensus_msg
  | Expire duty
  | Start duty
  | Receive duty

fun consensus_turn :: "('u, 'p, 'sk, 'pk) codec \<Rightarrow> consensus_op \<Rightarrow> 'pk consensus \<Rightarrow> 'pk consensus" where
  "consensus_turn E (Handle gater cancelled deadline sending pb) c = snd (consensus_handle E gater cancelled deadline sending pb c)"
| "consensus_turn E (Expire d) c = expire_instance d c"
| "consensus_turn E (Start d) c =
     (case get_instance_io d c of (io, c) \<Rightarrow> c\<lparr>cs_instances := AList.update d (snd (maybe_start io)) (cs_instances c)\<rparr>)"
| "consensus_turn E (Receive d) c =
     (case map_of (cs_instances c) d of
        None \<Rightarrow> c
      | Some io \<Rightarrow> c\<lparr>cs_instances := AList.update d (io\<lparr>io_recv := tl (io_recv io)\<rparr>) (cs_instances c)\<rparr>)"

definition consensus_run :: "('u, 'p, 'sk, 'pk) codec \<Rightarrow> consensus_op list \<Rightarrow> 'pk consensus \<Rightarrow> 'pk consensus" where
  "consensus_run E = fold (consensus_turn E)"

fun op_msgs :: "consensus_op \<Rightarrow> pb_qbft_msg list" where
  "op_msgs (Handle gater cancelled deadline sending pb) = (case cm_msg pb of None \<Rightarrow> [] | Some m \<Rightarrow> [m]) @ cm_justification pb"
| "op_msgs _ = []"

text \<open>A queued message went through the admission of a message of the run.\<close>

definition queued_ok :: "('u, 'p, 'sk, 'pk) codec \<Rightarrow> 'pk consensus \<Rightarrow> pb_qbft_msg set \<Rightarrow> duty \<Rightarrow> wrapped \<Rightarrow> bool" where
  "queued_ok E c M d w \<longleftrightarrow> (\<exists>gater pb. admit E gater c pb = Inr (d, w) \<and> set (op_msgs (Handle gater False Scheduled Sent pb)) \<subseteq> M)"

lemma queued_ok_mono: "queued_ok E c M d w \<Longrightarrow> M \<subseteq> M' \<Longrightarrow> queued_ok E c M' d w"
  unfolding queued_ok_def by (meson subset_trans)

lemma consensus_turn_keys: "cs_pubkeys (consensus_turn E op c) = cs_pubkeys c \<and> cs_peers (consensus_turn E op c) = cs_peers c"
  by (cases op) (auto simp: consensus_handle_def get_instance_io_def expire_instance_def split: sum.splits prod.splits option.splits send_outcome.splits)

lemma consensus_run_keys: "cs_pubkeys (consensus_run E ops c) = cs_pubkeys c \<and> cs_peers (consensus_run E ops c) = cs_peers c"
  by (induction ops rule: rev_induct) (simp_all add: consensus_run_def consensus_turn_keys)

lemma admit_cong:
  assumes "cs_pubkeys c' = cs_pubkeys c" "cs_peers c' = cs_peers c" shows "admit E gater c' pb = admit E gater c pb"
proof -
  have verify: "verify_msg E c' = verify_msg E c" by (rule ext) (simp only: verify_msg_def assms(1))
  then have "verify_justification E c' = verify_justification E c" by (intro ext) (simp only: verify_justification_def verify)
  then show ?thesis by (simp only: admit_def verify assms(2))
qed

lemma instances_update: "(d, q) \<in> set (AList.update k v m) \<Longrightarrow> (d, q) = (k, v) \<or> (d, q) \<in> set m"
  using set_update_sub [of k v m] by auto

lemma consensus_handle_queued:
  assumes "(d, q) \<in> set (cs_instances (snd (consensus_handle E gater cancelled deadline sending pb c)))" "w \<in> set (io_recv q)"
  shows "(\<exists>q'. (d, q') \<in> set (cs_instances c) \<and> w \<in> set (io_recv q')) \<or> admit E gater c pb = Inr (d, w)"
proof (cases "admit E gater c pb")
  case (Inl e)
  then show ?thesis using assms by (auto simp: consensus_handle_def)
next
  case (Inr dw)
  obtain d' w' where dw: "dw = (d', w')" by (cases dw)
  show ?thesis
    using assms Inr dw
    by (auto simp: consensus_handle_def get_instance_io_def instance_new_def dest!: instances_update map_of_SomeD
        split: if_splits send_outcome.splits option.splits)
qed

lemma consensus_start_queued:
  assumes "(d, q) \<in> set (cs_instances (consensus_turn E (Start d') c))" "w \<in> set (io_recv q)"
  shows "\<exists>q'. (d, q') \<in> set (cs_instances c) \<and> w \<in> set (io_recv q')"
  using assms
  by (auto simp: get_instance_io_def instance_new_def maybe_start_def dest!: instances_update map_of_SomeD split: option.splits)

lemma consensus_receive_queued:
  assumes "(d, q) \<in> set (cs_instances (consensus_turn E (Receive d') c))" "w \<in> set (io_recv q)"
  shows "\<exists>q'. (d, q') \<in> set (cs_instances c) \<and> w \<in> set (io_recv q')"
proof -
  have "w \<in> set (tl ws) \<Longrightarrow> w \<in> set ws" for ws by (cases ws) auto
  with assms show ?thesis by (fastforce dest!: instances_update map_of_SomeD split: option.splits)
qed

lemma consensus_run_queued:
  assumes "(d, q) \<in> set (cs_instances (consensus_run E ops c))" "w \<in> set (io_recv q)" "cs_instances c = []"
  shows "queued_ok E c (\<Union>op \<in> set ops. set (op_msgs op)) d w"
  using assms(1,2)
proof (induction ops arbitrary: d q rule: rev_induct)
  case Nil
  then show ?case using assms(3) by (simp add: consensus_run_def)
next
  case (snoc op ops)
  let ?c = "consensus_run E ops c" and ?M = "\<Union>op \<in> set ops. set (op_msgs op)"
  have old: "queued_ok E c (\<Union>op \<in> set (ops @ [op]). set (op_msgs op)) d w" if "(d, q') \<in> set (cs_instances ?c)" "w \<in> set (io_recv q')" for q'
    by (rule queued_ok_mono [OF snoc.IH [OF that]]) auto
  show ?case
  proof (cases op)
    case (Handle gater cancelled deadline sending pb)
    have "admit E gater c pb = Inr (d, w) \<Longrightarrow> queued_ok E c (\<Union>op \<in> set (ops @ [op]). set (op_msgs op)) d w"
      unfolding queued_ok_def by (intro exI [of _ gater] exI [of _ pb]) (auto simp: Handle)
    then show ?thesis
      using consensus_handle_queued [of d q E gater cancelled deadline sending pb ?c w] snoc.prems old
        consensus_run_keys [of E ops c] admit_cong [of ?c c E gater pb]
      by (auto simp: consensus_run_def Handle)
  next
    case (Expire d')
    then have "(d, q) \<in> set (cs_instances ?c)"
      using snoc.prems(1) by (auto simp: consensus_run_def expire_instance_def AList.delete_eq)
    then show ?thesis using old snoc.prems(2) by blast
  next
    case (Start d')
    then obtain q' where "(d, q') \<in> set (cs_instances ?c)" "w \<in> set (io_recv q')"
      using snoc.prems consensus_start_queued [of d q E d' ?c w] by (auto simp: consensus_run_def)
    then show ?thesis by (rule old)
  next
    case (Receive d')
    then obtain q' where "(d, q') \<in> set (cs_instances ?c)" "w \<in> set (io_recv q')"
      using snoc.prems consensus_receive_queued [of d q E d' ?c w] by (auto simp: consensus_run_def)
    then show ?thesis by (rule old)
  qed
qed

lemma consensus_new_pubkeys:
  assumes "consensus_new peers local = Inr c" "map_of (cs_pubkeys c) i \<noteq> None" shows "0 \<le> i \<and> i < int (length peers)"
proof -
  have keys: "set (keys r) \<subseteq> set (keys m) \<union> int ` fst ` set xs"
    if "res_fold (\<lambda>(i, pk) m. if int i \<le> i64_max then Inr (AList.update (int i) pk m) else Inl (PeerIndexOverflow i)) xs m = Inr r" for xs m and r :: "(int \<times> 'a) list"
    using that
  proof (induction xs arbitrary: m)
    case (Cons x xs)
    obtain i pk where x: "x = (i, pk)" by (cases x)
    then show ?case using Cons.IH [of "AList.update (int i) pk m"] Cons.prems by (simp add: dom_update split: if_splits)
  qed simp
  have "res_fold (\<lambda>(i, pk) m. if int i \<le> i64_max then Inr (AList.update (int i) pk m) else Inl (PeerIndexOverflow i)) (enumerate 0 peers) [] = Inr (cs_pubkeys c)"
    using assms(1) by (auto simp: consensus_new_def split: if_splits)
  from keys [OF this] have "set (keys (cs_pubkeys c)) \<subseteq> int ` {0..<length peers}" by (simp flip: set_map)
  moreover have "i \<in> set (keys (cs_pubkeys c))" using assms(2) by (simp add: map_of_eq_None_iff)
  ultimately have "i \<in> int ` {0..<length peers}" by blast
  then show ?thesis by auto
qed

end
