(* ===== verification/Spec2Isabelle.thy ===== *)
theory Spec2Isabelle
  imports Qbft_Node Gater Sig_Agg Aggsig_DB Duty_DB Rlp Priority Frost Timer Tracker Consensus_Msg
begin

text \<open>
  A verification development for Pluto, the middleware that lets a cluster of nodes run Ethereum
  validators together: the nodes agree on what to sign, each signs with its share of the
  validator's key, and the partial signatures are combined into one signature of the validator.
  The sources are the Rust crates under src/crates.

  \<^bold>\<open>How a duty flows through the program, and which theory models which part.\<close>

  \<^item> Before a cluster runs, its members generate the validator keys together. \<open>Frost\<close> models the
    distributed key generation (frost/src/frost_core.rs, kryptology.rs: \<open>round1\<close>, \<open>round2\<close>, the
    proof of knowledge, the commitment checks, key packages, partial signatures), \<open>Curve\<close> the
    wrappers around the curve library (frost/src/curve.rs), \<open>Interpolation\<close> the algebra of
    polynomials that both signature schemes rest on.
  \<^item> A duty (\<open>Duty_Types\<close>, core/src/types.rs) is a slot and a type. \<open>Deadline\<close> models when it
    expires and the task that emits expired duties (core/src/deadline), \<open>Gater\<close> which duties of
    peers are accepted (core/src/gater.rs).
  \<^item> The nodes agree on the data of the duty with QBFT. \<open>Qbft_Core\<close> models the messages, filters,
    justifications and the classification of a message, \<open>Qbft_Run\<close> the event loop of one process
    (core/src/qbft/mod.rs, function \<open>run\<close>): one definition per kind of event, with the state of the
    loop as a record and the sent messages as actions. \<open>Qbft_Agreement\<close> is an abstract voting
    protocol, \<open>Qbft_System\<close> a cluster of honest and faulty processes that refines it, \<open>Qbft_Node\<close>
    what one process does over a whole run. \<open>Consensus_Msg\<close> models the service between the peers and
    the core (consensus/src/qbft: msg.rs, component.rs, transport.rs, definition.rs, and the flags and
    receive buffer of instance.rs): the signed wire messages, the admission of a message from a peer
    into the receive buffer of its duty, the broadcast of own messages with the values they refer to,
    the leader of a round and the delivery of a decision. \<open>Timer\<close> models the round timers
    (consensus/src/timer.rs) and \<open>Feature_Set\<close> the features that select them
    (featureset/src/lib.rs).
  \<^item> The agreed data is kept in the duty database (\<open>Duty_DB\<close>, core/src/dutydb/memory.rs), from where
    the validator client fetches it. Its partial signatures, and those of the peers, go to the
    partial signature database (\<open>Parsig_DB\<close>, core/src/parsigdb/memory.rs). When enough match, the
    aggregator (\<open>Sig_Agg\<close>, core/src/sigagg.rs) combines them with the threshold scheme (\<open>Tbls\<close>,
    crypto/src/blst_impl.rs) and puts the result into the signed data (\<open>Signed_Data\<close>,
    core/src/signeddata.rs). The aggregate is kept in the aggregate signature database (\<open>Aggsig_DB\<close>,
    core/src/aggsigdb). \<open>Store\<close> holds the contract that the three databases share.
  \<^item> Every component reports to the tracker (\<open>Tracker\<close>, core/src/tracker), which finds the step
    where a duty got stuck and which peers took part.
  \<^item> \<open>Priority\<close> models how the nodes settle their protocol preferences
    (priority/src/calculate.rs), \<open>Rlp\<close> the codec of node records (eth2util/src/rlp.rs).

  \<open>Prelude\<close> holds the shared vocabulary: checked and saturating integer arithmetic, results with
  early return, the order of hash maps, lists with one element per key, and the locale of quorums.

  \<^bold>\<open>Conventions.\<close> A fallible function returns a sum with the error on the left. A panic is an error
  value or \<open>None\<close>. A signed 64-bit integer is an \<open>int\<close> and an unsigned one a \<open>nat\<close>, and every
  operation that can leave the range checks, saturates or wraps as the code does. A hash map is an
  association list with distinct keys; wherever the code iterates over one, the visited order is an
  arbitrary permutation given as an argument (\<open>hash_order\<close>), so that a theorem holds for all
  orders. A \<open>BTreeMap\<close> is an association list in key order. A handler that changes shared state
  takes the state and returns it with the result and the calls it makes (to subscribers, timers,
  the network) as a list of actions. Locks are held for a whole handler in the code, so handlers
  are atomic here and concurrency is a sequence of them.

  Third-party code is an argument. The scalars of the curve are a type of class \<open>field\<close>, its points
  types of class \<open>ab_group_add\<close>, the other operations fields of the records \<open>blst\<close> and \<open>tbls\<close>; the
  predicates \<open>blst_ok\<close> and \<open>tbls_ok\<close> state their documented behaviour (encodings round-trip, scalar
  multiplication makes a module, checked operations report zero) and are shown to be satisfiable
  on the field with five elements. Hash functions, tree-hash roots, protobuf encoding, the
  signatures on consensus messages (fields of the record \<open>codec\<close>), the hexadecimal codec, dates, clocks, beacon node answers and subscribers are arguments as well.

  \<^bold>\<open>What is shown.\<close>

  \<^item> QBFT. C1: honest processes never decide different values when at most the tolerated number is
    faulty and no process is handed two different PRE-PREPAREs of a round; C2: without the second
    condition this fails, because the record that a rule has fired is cleared by the round change
    that the same rule makes. C3 to C8: one process commits once per round, decides once and only
    with a quorum of commits, keeps its invariant, does not panic, builds justified proposals and
    decides when the commits arrive. The agreement is a simulation of the abstract protocol.
  \<^item> Consensus messages. C13: whatever peers send, what reaches the core is what C1 assumes of the
    network, namely messages and justifications of members whose keys signed them, with values that
    hash to their references; C22: what an honest node broadcasts, its peers admit unchanged.
  \<^item> Types and time. C9 and C10: wire forms round-trip; C12, C15 and C16: the deadline of each
    duty and the task that emits the earliest deadline first; C17: the window of the gater; C40: the
    bounds of the round timers.
  \<^item> Tracking. C11: the reported step is the one where the duty got stuck, over every run of the
    loop; C14: the participation counts are the numbers of validators that a share signed for.
  \<^item> Databases. C18 to C21: partial signatures, from the threshold set of one store to a sequence of
    stores; C23 to C25: the aggregate signature database answers every waiting reader; C26 to C29:
    the duty database keeps its indices consistent, is readable after a store and wakes its
    waiters. C21, C25 and C27 are refinements: each database is an instance of the locale of
    registers in which the first write wins and that expire with their duty.
  \<^item> Priorities and records. C30 and C31: the result does not depend on the order of the messages
    and its scores are the sums that the specification names; C32 and C33: the codec round-trips
    and its decoding loop ends on every input.
  \<^item> Keys and signatures. C34: what a participant accepts in the second round is consistent with the
    published commitments, whatever the others sent; C35: an honest run gives every participant a
    share of one key; C36 and C37: any set of partial signatures that reaches the threshold gives
    the signature of the key, for the generated and for the split key; C38: the aggregator is all
    or nothing; C39: the threshold set of the database passes all checks of the aggregator and
    becomes the validator's signature.

  \<^bold>\<open>Bounds and termination.\<close> There is no fuel. Loops over finite data are structural recursion; the
  draw of a nonce that is not zero and the loop that decodes a list of records may not end a priori
  and are partial functions into \<open>option\<close>. C33 shows that the decoder always returns, C35 that the
  generation returns when the random numbers yield a scalar that is not zero. Event loops
  (\<open>qbft_step\<close>, \<open>deadliner_step\<close>, \<open>agg_step\<close>, \<open>tracker_turn\<close>, \<open>consensus_turn\<close>) are modelled one event at a time; statements about runs
  are about all finite sequences of events.

  \<^bold>\<open>Not modelled.\<close> Metrics, logs, tracing spans and the wiping of secrets have no effect on results.
  The following parts are left out:

  \<^item> the network: libp2p behaviours, transports, relays and the codecs of their streams (crates p2p,
    relay-server, parsigex, peerinfo, infosync, priority/src/p2p, consensus/src/qbft/p2p.rs
    and runner.rs, dkg), which drive third-party event loops and are not functions of their inputs;
  \<^item> the HTTP side: the validator API router and handlers, the beacon node client and the generated
    client types (core/src/validatorapi, eth2api), and the parts that only issue requests and await
    answers (fetcher, scheduler, broadcaster, inclusion checks, eth1wrap);
  \<^item> files and processes: command line, configuration, key stores, cluster definition files, tracing
    (crates cli, app, cluster, tracing, k1util, most of eth2util, build-proto, testutil);
  \<^item> the codecs of third-party formats: JSON and SSZ (crates ssz, core/src/ssz_codec.rs, the JSON of
    core/src/signeddata.rs), whose content is the derive macros of their packages.
\<close>

section \<open>From partial signatures to the group signature\<close>

text \<open>
  C39. The partial signature database and the aggregator fit together. When a validator's key was
  split with the threshold of both and every stored partial signature is a share's signature over
  its own message root, the set that the database hands on when it reaches the threshold passes
  all checks of the aggregator, and the aggregate is signed data over the common message root that
  carries the signature of the key that was split.
\<close>

theorem parsigdb_to_group_signature:
  fixes T :: "('s::field, 'p::ab_group_add, 'q::ab_group_add) tbls"
  assumes "tbls_ok T" "inj_on (of_nat :: nat \<Rightarrow> 's) {0..n_total}"
    "threshold_split_insecure T sk n_total t rng = Inr shares" "0 < t"
    "memdb_inv s" "threshold s = t" "ag_threshold a = t" "d_type (k_duty k) \<noteq> Signature"
    "parsig_store (sd_message_root hash) ord k v s = (Inr (Threshold ps), s')"
    "\<forall>x \<in> set (stored_sigs s' k). \<forall>r. sd_message_root hash (ps_signed_data x) = Inr r \<longrightarrow> signed_by_shares T shares (signing r) x"
    "\<forall>d r sig. sd_message_root hash d = Inr r \<and> sd_signature d = Inr sig \<and> tbls_sign T sk (signing r) = Inr sig \<longrightarrow> ag_verify_fn a (k_pub_key k) d = Inr ()"
  shows "\<exists>signed r sig. aggregate_one T ord' a (k_pub_key k) ps = Inr signed \<and> sd_message_root hash signed = Inr r
    \<and> sd_signature signed = Inr sig \<and> tbls_sign T sk (signing r) = Inr sig"
proof -
  have len: "length ps = t" and dist: "distinct (map ps_share_idx ps)" and sub: "set ps \<subseteq> set (stored_sigs s' k)"
    and "\<exists>r. \<forall>x \<in> set ps. sd_message_root hash (ps_signed_data x) = Inr r"
    using parsig_threshold_set [OF assms(5,9)] assms(6,8) by auto
  then obtain r where r: "\<forall>x \<in> set ps. sd_message_root hash (ps_signed_data x) = Inr r" by blast
  have signed: "\<forall>p \<in> set ps. signed_by_shares T shares (signing r) p" using r sub assms(10) by blast
  have "ps \<noteq> []" using len assms(4) by auto
  then obtain p where p: "p \<in> set ps" "sig_template ps = ps_signed_data p" using sig_template_mem by blast
  obtain sig where sig: "tbls_sign T sk (signing r) = Inr sig" using split_signs [OF assms(3)] by blast
  obtain own where "sd_signature (sig_template ps) = Inr own"
    using signed p by (auto simp: signed_by_shares_def)
  then obtain d where d: "sd_set_signature sig (sig_template ps) = Inr d" "sd_signature d = Inr sig"
      "sd_message_root hash d = sd_message_root hash (sig_template ps)"
    using sd.replace_signature by metis
  have root: "sd_message_root hash d = Inr r" using d(3) p r by simp
  have "aggregate_one T ord' a (k_pub_key k) ps = res_bind (ag_verify_fn a (k_pub_key k) d) (\<lambda>_. Inr d)"
    using len by (intro aggregate_one_split [OF assms(1-3,7,4) _ dist signed sig d(1)]) simp
  then have "aggregate_one T ord' a (k_pub_key k) ps = Inr d" using assms(11) root d(2) sig by simp
  then show ?thesis using root d(2) sig by (intro exI [of _ d] exI [of _ r] exI [of _ sig]) simp
qed

definition sample_sig_db :: "(nat list signed_data, signed_data_error) memdb" where
  "sample_sig_db = snd (parsig_store (sd_message_root id) in_order sample_key (sample_partial 1 1) (memdb_new 2))"

lemma sample_partial_signed:
  "signed_by_shares sample_tbls [(1, [2]), (2, [3]), (3, [4])] [7] (sample_partial 1 1)"
  "signed_by_shares sample_tbls [(1, [2]), (2, [3]), (3, [4])] [7] (sample_partial 3 2)"
proof -
  have "tbls_sign sample_tbls [2] [7] = Inr [1]" "tbls_sign sample_tbls [4] [7] = Inr [2]" by code_simp+
  then show "signed_by_shares sample_tbls [(1, [2]), (2, [3]), (3, [4])] [7] (sample_partial 1 1)"
    "signed_by_shares sample_tbls [(1, [2]), (2, [3]), (3, [4])] [7] (sample_partial 3 2)"
    by (auto simp: signed_by_shares_def sample_partial_def)
qed

theorem parsigdb_to_group_signature_witness:
  "\<exists>signed. aggregate_one sample_tbls in_order sample_aggregator [7] [sample_partial 1 1, sample_partial 3 2] = Inr signed
    \<and> (\<exists>r sig. sd_message_root id signed = Inr r \<and> sd_signature signed = Inr sig \<and> tbls_sign sample_tbls [1] r = Inr sig)"
proof -
  let ?store = "parsig_store (sd_message_root id) in_order sample_key (sample_partial 3 2) sample_sig_db"
  have inv: "memdb_inv sample_sig_db" by (simp add: sample_sig_db_def parsig_store_inv memdb_inv_new)
  have thr: "threshold sample_sig_db = 2" "ag_threshold sample_aggregator = 2" by code_simp+
  have key: "d_type (k_duty sample_key) \<noteq> Signature" "k_pub_key sample_key = [7]" by code_simp+
  have "fst ?store = Inr (Threshold [sample_partial 1 1, sample_partial 3 2])" by code_simp
  then have store: "?store = (Inr (Threshold [sample_partial 1 1, sample_partial 3 2]), snd ?store)" by (metis prod.collapse)
  have stored: "stored_sigs (snd ?store) sample_key = [sample_partial 1 1, sample_partial 3 2]" by code_simp
  have root: "sd_message_root id (ps_signed_data (sample_partial i g)) = Inr [7]" for i g by (simp add: sample_partial_def)
  have signed: "\<forall>x \<in> set (stored_sigs (snd ?store) sample_key). \<forall>r. sd_message_root id (ps_signed_data x) = Inr r
      \<longrightarrow> signed_by_shares sample_tbls [(1, [2]), (2, [3]), (3, [4])] (id r) x"
    using sample_partial_signed unfolding stored by (auto simp: root)
  have verify: "\<forall>d r sig. sd_message_root id d = Inr r \<and> sd_signature d = Inr sig \<and> tbls_sign sample_tbls [1] (id r) = Inr sig
      \<longrightarrow> ag_verify_fn sample_aggregator (k_pub_key sample_key) d = Inr ()" by (simp add: sample_aggregator_def)
  show ?thesis
    using parsigdb_to_group_signature [OF sample_tbls_ok gf5_inj sample_split _ inv thr key(1) store signed verify, of in_order]
    by (simp add: key(2))
qed

section \<open>From the wire to the consensus core\<close>


definition sample_wire_msg :: pb_consensus_msg where
  "sample_wire_msg = \<lparr>cm_msg = Some \<lparr>qm_type = 1, qm_duty = Some \<lparr>pb_slot = 3, pb_type = 2\<rparr>, qm_peer_idx = 0, qm_round = 1,
       qm_prepared_round = 0, qm_signature = [11], qm_value_hash = replicate 32 5, qm_prepared_value_hash = []\<rparr>,
     cm_justification = [], cm_values = [\<lparr>wa_type_url = ''u'', wa_value = [5]\<rparr>]\<rparr>"


end
